(* ===== verification/Prelude.thy ===== *)
theory Prelude
  imports Main "HOL-Library.Word" "HOL-Library.Monad_Syntax"
begin

text \<open>
  Shared vocabulary of the development: the integer types of \<^verbatim>\<open>libk/common.h\<close> as words, the error
  codes of \<^verbatim>\<open>libk/err.h\<close>, the byte-addressed 32-bit memory every pointer of the program points
  into, the counting loop \<^verbatim>\<open>for (usz i = a; i < b; ++i)\<close>, and the lemmas on words, lists and
  loops that the component theories use.

  The kernel and \<^verbatim>\<open>libk\<close> are compiled with \<^verbatim>\<open>-m32\<close>, so \<open>usz\<close> (\<^verbatim>\<open>size_t\<close>) and every pointer
  are 32 bits wide.  A computation that the C code performs outside an array, or that does not
  return, has the value \<^term>\<open>None\<close>; everything else is \<^term>\<open>Some\<close> of the result.
\<close>

unbundle bit_operations_syntax

section \<open>Types\<close>

type_synonym u8 = "8 word"
type_synonym u16 = "16 word"
type_synonym u32 = "32 word"
type_synonym u64 = "64 word"
type_synonym i16 = "16 word"
type_synonym i32 = "32 word"
type_synonym i64 = "64 word"
type_synonym usz = "32 word"
type_synonym addr = "32 word"
type_synonym mem = "addr \<Rightarrow> u8"

datatype err_t = OK | ERR_UNKNHRDW | ERR_NOTFOUND | ERR_NOTAVAIL | ERR_NOMEMORY | ERR_FMTINVAL
  | ERR_UNKNTYPE

fun err_code :: "err_t \<Rightarrow> u16" where
  "err_code OK = 0"
| "err_code ERR_UNKNHRDW = 1"
| "err_code ERR_NOTFOUND = 2"
| "err_code ERR_NOTAVAIL = 3"
| "err_code ERR_NOMEMORY = 4"
| "err_code ERR_FMTINVAL = 5"
| "err_code ERR_UNKNTYPE = 6"

definition KB :: "u32 \<Rightarrow> u32" where
  "KB x = x * 1024"

section \<open>Byte-addressed memory\<close>

text \<open>Little-endian reads, as an x86 load of a \<^verbatim>\<open>u16\<close>, \<^verbatim>\<open>u32\<close> or \<^verbatim>\<open>u64\<close> performs them.\<close>

definition load16 :: "mem \<Rightarrow> addr \<Rightarrow> u16" where
  "load16 m a = ucast (m a) OR push_bit 8 (ucast (m (a + 1)))"

definition load32 :: "mem \<Rightarrow> addr \<Rightarrow> u32" where
  "load32 m a = ucast (load16 m a) OR push_bit 16 (ucast (load16 m (a + 2)))"

definition load64 :: "mem \<Rightarrow> addr \<Rightarrow> u64" where
  "load64 m a = ucast (load32 m a) OR push_bit 32 (ucast (load32 m (a + 4)))"

text \<open>\<open>store_bytes m a bs\<close> writes \<open>bs\<close> upwards from \<open>a\<close>; \<open>load_bytes m a n\<close> reads \<open>n\<close> bytes.\<close>

fun store_bytes :: "mem \<Rightarrow> addr \<Rightarrow> u8 list \<Rightarrow> mem" where
  "store_bytes m a [] = m"
| "store_bytes m a (b # bs) = store_bytes (m(a := b)) (a + 1) bs"

fun load_bytes :: "mem \<Rightarrow> addr \<Rightarrow> nat \<Rightarrow> u8 list" where
  "load_bytes m a 0 = []"
| "load_bytes m a (Suc n) = m a # load_bytes m (a + 1) n"

section \<open>Arrays\<close>

text \<open>A C array is a list; an access outside it has no defined result.\<close>

definition arr_get :: "'a list \<Rightarrow> usz \<Rightarrow> 'a option" where
  "arr_get xs i = (if unat i < length xs then Some (xs ! unat i) else None)"

definition arr_set :: "'a list \<Rightarrow> usz \<Rightarrow> 'a \<Rightarrow> 'a list option" where
  "arr_set xs i v = (if unat i < length xs then Some (xs[unat i := v]) else None)"

section \<open>The counting loop\<close>

text \<open>\<^verbatim>\<open>for (usz i = a; i < b; ++i) body\<close>; the increment cannot wrap, since \<open>i < b\<close>.\<close>

lemma unat_succ_less:
  fixes i e :: "'a::len word"
  assumes "i < e"
  shows "unat (i + 1) = Suc (unat i)"
proof -
  have "unat e < 2 ^ LENGTH('a)"
    by (rule unsigned_less)
  with assms have "Suc (unat i) < 2 ^ LENGTH('a)"
    unfolding word_less_nat_alt by linarith
  then show ?thesis
    by (simp add: unat_word_ariths)
qed

function for_range :: "usz \<Rightarrow> usz \<Rightarrow> (usz \<Rightarrow> 's \<Rightarrow> 's option) \<Rightarrow> 's \<Rightarrow> 's option" where
  "for_range i e body s =
     (if i < e then do { s' \<leftarrow> body i s; for_range (i + 1) e body s' } else Some s)"
  by pat_completeness auto
termination
  by (relation "measure (\<lambda>(i, e, body, s). unat e - unat i)")
    (auto simp: unat_succ_less, simp add: word_less_nat_alt)

declare for_range.simps [simp del]

named_theorems loop_rules \<open>Hoare-style rules of the loop combinators\<close>
named_theorems unat_simps \<open>readings of word operations as natural numbers\<close>

section \<open>Lemmas on words and loops\<close>

lemma for_range_rule [loop_rules]:
  assumes "P i s" and "i \<le> e"
    and "\<And>i s. i < e \<Longrightarrow> P i s \<Longrightarrow> \<exists>s'. body i s = Some s' \<and> P (i + 1) s'"
  shows "\<exists>s'. for_range i e body s = Some s' \<and> P e s'"
  using assms
proof (induction i e body s rule: for_range.induct)
  case (1 i e body s)
  show ?case
  proof (cases "i < e")
    case True
    with "1.prems" obtain s' where s': "body i s = Some s'" "P (i + 1) s'" by blast
    from True have "i + 1 \<le> e"
      by (simp add: word_le_nat_alt word_less_nat_alt unat_succ_less [OF True])
    with "1.IH" [OF True s'] "1.prems"(3) show ?thesis
      by (simp add: for_range.simps [of i] True s'(1))
  next
    case False
    with "1.prems" show ?thesis by (auto simp: for_range.simps)
  qed
qed

text \<open>The rule for a loop that is known to have returned.\<close>

lemma for_range_inv [loop_rules]:
  assumes "for_range i e body s = Some r" and "i \<le> e" and "P i s"
    and "\<And>i s s'. i < e \<Longrightarrow> P i s \<Longrightarrow> body i s = Some s' \<Longrightarrow> P (i + 1) s'"
  shows "P e r"
  using assms
proof (induction i e body s rule: for_range.induct)
  case (1 i e body s)
  show ?case
  proof (cases "i < e")
    case True
    with "1.prems"(1) obtain s' where s': "body i s = Some s'" "for_range (i + 1) e body s' = Some r"
      by (auto simp: for_range.simps [of i] split: bind_splits)
    from True have "i + 1 \<le> e"
      by (simp add: word_le_nat_alt word_less_nat_alt unat_succ_less [OF True])
    with "1.IH" [OF True s'] "1.prems"(3,4) True s'(1) show ?thesis by blast
  next
    case False
    with "1.prems" show ?thesis by (auto simp: for_range.simps)
  qed
qed

lemma for_range_empty [simp]: "e \<le> i \<Longrightarrow> for_range i e body s = Some s"
  by (subst for_range.simps) (simp add: linorder_not_less [symmetric])

lemma and_not_mask:
  fixes v :: "'a::len word"
  shows "v AND NOT (mask k) = push_bit k (drop_bit k v)"
  by (rule bit_word_eqI) (auto simp: bit_simps)

lemma unat_drop_bit [unat_simps]:
  fixes v :: "'a::len word"
  shows "unat (drop_bit k v) = unat v div 2 ^ k"
  by (simp only: unat_drop_bit_eq) (rule drop_bit_eq_div)

lemma unat_take_bit [unat_simps]:
  fixes v :: "'a::len word"
  shows "unat (take_bit k v) = unat v mod 2 ^ k"
  by (simp only: unsigned_take_bit_eq) (rule take_bit_eq_mod)

lemma unat_push_bit [unat_simps]:
  fixes v :: "'a::len word"
  shows "unat (push_bit k v) = unat v * 2 ^ k mod 2 ^ LENGTH('a)"
  by (simp only: unsigned_push_bit_eq) (simp only: push_bit_eq_mult take_bit_eq_mod)

lemma unat_and_mask [unat_simps]:
  fixes v :: "'a::len word"
  shows "unat (v AND mask k) = unat v mod 2 ^ k"
  by (simp only: unat_take_bit flip: take_bit_eq_mask)

lemma unat_and_not_mask [unat_simps]:
  fixes v :: "'a::len word"
  shows "unat (v AND NOT (mask k)) = unat v div 2 ^ k * 2 ^ k"
proof -
  have "unat v div 2 ^ k * 2 ^ k \<le> unat v" by simp
  also have "\<dots> < 2 ^ LENGTH('a)" by (rule unsigned_less)
  finally show ?thesis
    by (simp only: and_not_mask unat_push_bit unat_drop_bit mod_less)
qed


lemma unat_exp [unat_simps]:
  assumes "k < LENGTH('a)"
  shows "unat (2 ^ k :: 'a::len word) = 2 ^ k"
proof -
  have "unat (of_nat (2 ^ k) :: 'a word) = 2 ^ k mod 2 ^ LENGTH('a)"
    by (rule unat_of_nat)
  with assms show ?thesis by (simp add: power_strict_increasing)
qed

lemma unat_mask [unat_simps]:
  assumes "k < LENGTH('a)"
  shows "unat (mask k :: 'a::len word) = 2 ^ k - 1"
  using assms by (simp add: mask_eq_exp_minus_1 unat_sub word_le_nat_alt unat_exp)

section \<open>Lemmas on memory\<close>

lemma unat_bound32 [simp]: "unat (w :: 32 word) < 4294967296"
  using unsigned_less [of w, where 'a = nat] by simp

lemma unat_minus_1_32 [simp]: "unat (- 1 :: 32 word) = 4294967295"
  by (simp add: unsigned_minus_1_eq_mask mask_eq_exp_minus_1)

lemma of_nat_Suc_neq_0:
  assumes "Suc n < 2 ^ LENGTH('a)"
  shows "(of_nat (Suc n) :: 'a::len word) \<noteq> 0"
proof
  assume "(of_nat (Suc n) :: 'a word) = 0"
  then have "unat (of_nat (Suc n) :: 'a word) = 0" by simp
  with assms show False by (simp only: unat_of_nat mod_less)
qed

lemma load_bytes_nth: "i < n \<Longrightarrow> load_bytes m a n ! i = m (a + of_nat i)"
  by (induction n arbitrary: a i) (auto simp: nth_Cons algebra_simps split: nat.splits)

lemma load_bytes_eq_map: "load_bytes m a n = map (\<lambda>i. m (a + of_nat i)) [0..<n]"
  by (induction n arbitrary: a) (simp_all add: upt_conv_Cons map_Suc_upt [symmetric] algebra_simps del: upt_Suc)

lemma length_load_bytes [simp]: "length (load_bytes m a n) = n"
  by (induction n arbitrary: a) auto

lemma store_bytes_apply:
  assumes "length bs \<le> 2 ^ 32"
  shows "store_bytes m a bs x = (if unat (x - a) < length bs then bs ! unat (x - a) else m x)"
  using assms
proof (induction bs arbitrary: m a)
  case (Cons b bs)
  have IH: "store_bytes (m(a := b)) (a + 1) bs x =
      (if unat (x - (a + 1)) < length bs then bs ! unat (x - (a + 1)) else (m(a := b)) x)"
    by (rule Cons.IH) (use Cons.prems in simp)
  show ?case
  proof (cases "x = a")
    case True
    with IH Cons.prems show ?thesis by simp
  next
    case False
    then have "unat (x - (a + 1)) = unat (x - a) - 1" "0 < unat (x - a)"
      using unat_minus_one [of "x - a"] by (simp_all add: unat_gt_0 diff_diff_eq)
    with IH False show ?thesis by (auto simp: nth_Cons')
  qed
qed simp

lemma load_store_bytes:
  assumes "length bs \<le> 2 ^ 32"
  shows "load_bytes (store_bytes m a bs) a (length bs) = bs"
  using assms by (intro nth_equalityI)
    (auto simp: load_bytes_nth store_bytes_apply unat_of_nat)

lemma arr_get_Some [simp]: "unat i < length xs \<Longrightarrow> arr_get xs i = Some (xs ! unat i)"
  by (simp add: arr_get_def)

lemma arr_set_Some [simp]: "unat i < length xs \<Longrightarrow> arr_set xs i v = Some (xs[unat i := v])"
  by (simp add: arr_set_def)

lemma unat_add_bounded:
  fixes a b :: "32 word"
  assumes "unat a + unat b < 4294967296"
  shows "unat (a + b) = unat a + unat b"
  using assms by (simp add: unat_word_ariths)

lemma unat_of_nat_small: "n < 4294967296 \<Longrightarrow> unat (of_nat n :: 32 word) = n"
  by (simp add: unat_of_nat)

lemma unat_ucast_64_32: "unat (w :: u64) < 4294967296 \<Longrightarrow> unat (ucast w :: u32) = unat w"
  by (simp add: unsigned_ucast_eq take_bit_nat_eq_self)

lemma intervals_disjoint:
  assumes "{s..<s + m} \<inter> {t..<t + n} = {}" and "0 < m" and "0 < (n::nat)"
  shows "s + m \<le> t \<or> t + n \<le> s"
proof (rule ccontr)
  assume "\<not> ?thesis"
  then have "max s t \<in> {s..<s + m} \<inter> {t..<t + n}" using assms(2,3) by auto
  with assms(1) show False by simp
qed

section \<open>Byte strings in memory\<close>

definition bytes_at :: "mem \<Rightarrow> addr \<Rightarrow> u8 list \<Rightarrow> bool" where
  "bytes_at m a bs \<longleftrightarrow> load_bytes m a (length bs) = bs"

lemma load_bytes_append:
  "load_bytes m a (n + k) = load_bytes m a n @ load_bytes m (a + of_nat n) k"
  by (induction n arbitrary: a) (simp_all add: algebra_simps)

lemma bytes_at_simps [simp]:
  "bytes_at m a []" "bytes_at m a (b # bs) \<longleftrightarrow> m a = b \<and> bytes_at m (a + 1) bs"
  by (simp_all add: bytes_at_def)

lemma bytes_at_append:
  "bytes_at m a (xs @ ys) \<longleftrightarrow> bytes_at m a xs \<and> bytes_at m (a + of_nat (length xs)) ys"
  by (simp add: bytes_at_def load_bytes_append)

lemma bytes_at_load: "bytes_at m a bs \<Longrightarrow> load_bytes m a (length bs) = bs"
  by (simp add: bytes_at_def)

lemma bytes_at_nth: "bytes_at m a bs \<Longrightarrow> i < length bs \<Longrightarrow> m (a + of_nat i) = bs ! i"
  by (metis bytes_at_def load_bytes_nth)

end
