(* ===== verification/Align.thy ===== *)
theory Align
  imports Prelude
begin

text \<open>
  The alignment helpers of \<^verbatim>\<open>libk/align.h\<close>.  All of them work on \<open>usz\<close> and take the alignment as
  a power of two; the lemmas read their results as natural numbers.
\<close>

section \<open>Definitions\<close>

definition ALIGN_DEFAULT :: usz where
  "ALIGN_DEFAULT = push_bit 1 4"

definition is_pow2 :: "usz \<Rightarrow> u8" where
  "is_pow2 n = (if n AND (n - 1) = 0 then 1 else 0)"

definition pad :: "usz \<Rightarrow> usz \<Rightarrow> usz" where
  "pad sz align =
     (let align_mask = align - 1;
          n = sz AND align_mask;
          n = n XOR align_mask
      in n + 1)"

definition align_default_fwd :: "usz \<Rightarrow> usz" where
  "align_default_fwd val = (val + (ALIGN_DEFAULT - 1)) AND NOT (ALIGN_DEFAULT - 1)"

definition align_default_bwd :: "usz \<Rightarrow> usz" where
  "align_default_bwd val = val AND NOT (ALIGN_DEFAULT - 1)"

definition align_fwd :: "usz \<Rightarrow> usz \<Rightarrow> usz" where
  "align_fwd val align =
     (let align_mask = align - 1 in (val + align_mask) AND NOT align_mask)"

definition align_bwd :: "usz \<Rightarrow> usz \<Rightarrow> usz" where
  "align_bwd val align = val AND NOT (align - 1)"

section \<open>Alignment as arithmetic\<close>

lemma ALIGN_DEFAULT_eq: "ALIGN_DEFAULT = 2 ^ 3"
  by (simp add: ALIGN_DEFAULT_def)

lemma unat_align_bwd [unat_simps]:
  "unat (align_bwd val (2 ^ k)) = unat val div 2 ^ k * 2 ^ k"
  by (simp only: align_bwd_def unat_and_not_mask flip: mask_eq_exp_minus_1)

lemma align_default_is_align:
  "align_default_fwd val = align_fwd val (2 ^ 3)" "align_default_bwd val = align_bwd val (2 ^ 3)"
  by (simp_all only: align_default_fwd_def align_default_bwd_def align_fwd_def align_bwd_def
      ALIGN_DEFAULT_eq Let_def)

lemma unat_align_fwd:
  assumes "unat val + 2 ^ k \<le> 2 ^ 32" and "k < 32"
  shows "unat (align_fwd val (2 ^ k)) = (unat val + (2 ^ k - 1)) div 2 ^ k * 2 ^ k"
proof -
  from assms have "unat val + (2 ^ k - 1) < 2 ^ 32"
    using one_le_power [of "2::nat" k] by linarith
  then have "unat (val + mask k) = unat val + (2 ^ k - 1)"
    using assms(2) by (simp add: unat_word_ariths unat_mask del: mask_Suc_exp)
  then show ?thesis
    by (simp only: align_fwd_def Let_def unat_simps flip: mask_eq_exp_minus_1)
qed

lemma pad_eq:
  assumes "k < 32"
  shows "unat (pad sz (2 ^ k)) = 2 ^ k - unat sz mod 2 ^ k"
proof -
  have "(sz AND mask k) XOR mask k = take_bit k (NOT sz)"
    by (rule bit_word_eqI) (auto simp: bit_simps)
  then have "pad sz (2 ^ k) = mask k - take_bit k sz + 1"
    by (simp add: pad_def Let_def take_bit_not_eq_mask_diff flip: mask_eq_exp_minus_1)
  moreover have "unat (mask k - take_bit k sz) = 2 ^ k - 1 - unat sz mod 2 ^ k"
    using assms by (subst unat_sub) (auto simp: unat_take_bit unat_mask word_le_nat_alt
        Suc_leI simp flip: less_Suc_eq_le)
  moreover have "(2::nat) ^ k < 2 ^ 32"
    using power_strict_increasing [OF assms, of "2::nat"] by simp
  ultimately show ?thesis
    by (simp add: unat_word_ariths Suc_diff_Suc)
qed

lemma nat_and_pred_zero: "0 < (m::nat) \<Longrightarrow> m AND (m - 1) = 0 \<longleftrightarrow> (\<exists>k. m = 2 ^ k)"
proof (induction m rule: less_induct)
  case (less m)
  show ?case
  proof (cases "even m")
    case True
    then obtain q where q: "m = 2 * q" by (elim evenE)
    with less.prems have "0 < q" "q < m" by auto
    have "(2 * q - 1) div 2 = q - 1" by arith
    then have "m AND (m - 1) = 2 * (q AND (q - 1))"
      using q \<open>0 < q\<close> by (subst and_rec) auto
    then have "m AND (m - 1) = 0 \<longleftrightarrow> (\<exists>k. q = 2 ^ k)"
      using less.IH [OF \<open>q < m\<close> \<open>0 < q\<close>] by simp
    also have "\<dots> \<longleftrightarrow> (\<exists>k. m = 2 ^ k)"
      using q \<open>0 < q\<close> by (metis True even_power nat_mult_eq_cancel1 not_gr_zero odd_one power_Suc power_0 not0_implies_Suc zero_less_numeral)
    finally show ?thesis .
  next
    case False
    then obtain q where q: "m = 2 * q + 1" by (elim oddE)
    have "m AND (m - 1) = m - 1"
      using q by (subst and_rec) auto
    moreover have "m = 2 ^ k \<Longrightarrow> m = 1" for k
      using False by (cases k) auto
    ultimately show ?thesis using q by (metis add_diff_cancel_right' diff_is_0_eq' le_refl less.prems power_0 add.commute One_nat_def less_one linorder_not_less nat_neq_iff zero_less_diff)
  qed
qed

lemma is_pow2_iff: "is_pow2 n = 1 \<longleftrightarrow> n = 0 \<or> (\<exists>k<32. n = 2 ^ k)"
proof (cases "n = 0")
  case False
  then have "0 < unat n" and pred: "unat (n - 1) = unat n - 1"
    by (simp_all add: unat_gt_0 unat_minus_one)
  have "n AND (n - 1) = 0 \<longleftrightarrow> unat n AND (unat n - 1) = 0"
    by (simp only: flip: unat_eq_zero) (simp only: unsigned_and_eq pred)
  also have "\<dots> \<longleftrightarrow> (\<exists>k. unat n = 2 ^ k)"
    by (rule nat_and_pred_zero) fact
  also have "\<dots> \<longleftrightarrow> (\<exists>k<32. n = 2 ^ k)"
  proof
    assume "\<exists>k. unat n = 2 ^ k"
    then obtain k where k: "unat n = 2 ^ k" ..
    have "(2::nat) ^ k < 2 ^ 32" using unsigned_less [of n, where 'a = nat] k by simp
    then have "k < 32" by (rule power_less_imp_less_exp [rotated]) simp
    with k have "n = 2 ^ k" by (intro unsigned_word_eqI [where 'a = nat]) (simp add: unat_exp)
    with \<open>k < 32\<close> show "\<exists>k<32. n = 2 ^ k" by blast
  qed (auto simp: unat_exp)
  finally show ?thesis using False by (simp add: is_pow2_def)
qed (simp add: is_pow2_def)

end
