(* ===== verification/Write_Img.thy ===== *)
theory Write_Img
  imports Prelude
begin

text \<open>
  The image builder \<^verbatim>\<open>write_img/write_img.c\<close>, a host program that writes a boot sector followed by a
  chain of files in the dord file system.  Its globals are the record \<open>img_t\<close>: the bytes written to
  the output so far and \<^verbatim>\<open>current_lba\<close>.  The host's files are a parameter of \<^verbatim>\<open>main\<close>: a function from
  paths to contents, and whether the output can be opened.  \<^verbatim>\<open>unsigned long\<close> is 64 bits wide there.
\<close>

section \<open>Definitions\<close>

definition le64 :: "u64 \<Rightarrow> u8 list" where
  "le64 v = map (\<lambda>i. ucast (drop_bit (8 * i) v)) [0..<8]"

record img_t =
  out_file :: "u8 list"
  current_lba :: u64

text \<open>\<^verbatim>\<open>strncpy\<close> into a zeroed field of \<open>n\<close> bytes.\<close>

definition strncpy :: "nat \<Rightarrow> u8 list \<Rightarrow> u8 list" where
  "strncpy n bs = take n (bs @ replicate n 0)"

definition DFSFileHeader :: "u64 \<Rightarrow> u64 \<Rightarrow> u8 list \<Rightarrow> u8 list" where
  "DFSFileHeader sectors next_lba name =
     le64 sectors @ le64 next_lba @ strncpy 32 name @ replicate (512 - 48) 0"

definition write_file :: "u64 \<Rightarrow> u8 list \<Rightarrow> u8 list \<Rightarrow> img_t \<Rightarrow> img_t" where
  "write_file len data file_name s =
     (let sector_count = len div 512 + 1;
          sector_bytes = sector_count * 512;
          s = (if current_lba s \<noteq> 0 then s\<lparr>current_lba := current_lba s + 1\<rparr> else s);
          s = (if current_lba s \<noteq> 0 then s\<lparr>current_lba := current_lba s + sector_count\<rparr> else s);
          next_lba = (if current_lba s \<noteq> 0 then current_lba s else 0);
          s = s\<lparr>out_file := out_file s @ DFSFileHeader sector_count next_lba file_name\<rparr>;
          s = s\<lparr>out_file := out_file s @ take (unat len) data\<rparr>;
          align_bytes = sector_bytes - of_nat (length (take (unat len) data))
      in s\<lparr>out_file := out_file s @ replicate (unat align_bytes) 0\<rparr>)"

text \<open>\<^verbatim>\<open>basename\<close> of \<^verbatim>\<open>libgen.h\<close>: the last component of a path, without trailing slashes.\<close>

definition basename :: "string \<Rightarrow> string" where
  "basename path =
     (let q = rev (dropWhile (\<lambda>c. c = CHR ''/'') (rev path))
      in if path = [] then ''.''
         else if q = [] then ''/''
         else rev (takeWhile (\<lambda>c. c \<noteq> CHR ''/'') (rev q)))"

datatype arg_class = FileArg | BootArg string | OutArg string | BadArg

definition arg_kind :: "string \<Rightarrow> arg_class" where
  "arg_kind arg =
     (case arg of
        CHR ''-'' # CHR ''b'' # p \<Rightarrow> BootArg p
      | CHR ''-'' # CHR ''o'' # p \<Rightarrow> OutArg p
      | CHR ''-'' # _ \<Rightarrow> BadArg
      | _ \<Rightarrow> FileArg)"

text \<open>The option loop: \<^term>\<open>None\<close> is the exit with an unknown argument.\<close>

fun parse_args :: "string list \<Rightarrow> string option \<Rightarrow> string option \<Rightarrow> (string option \<times> string option) option" where
  "parse_args [] bs_path of_path = Some (bs_path, of_path)"
| "parse_args (arg # args) bs_path of_path =
     (case arg_kind arg of
        FileArg \<Rightarrow> parse_args args bs_path of_path
      | BootArg p \<Rightarrow> parse_args args (Some p) of_path
      | OutArg p \<Rightarrow> parse_args args bs_path (Some p)
      | BadArg \<Rightarrow> None)"

text \<open>The file loop; it stops at the first file that cannot be opened.\<close>

fun write_files :: "(string \<Rightarrow> u8 list option) \<Rightarrow> string list \<Rightarrow> img_t \<Rightarrow> bool \<times> img_t" where
  "write_files fopen [] s = (True, s)"
| "write_files fopen (arg # args) s =
     (if arg_kind arg \<noteq> FileArg then write_files fopen args s
      else case fopen arg of
        None \<Rightarrow> (False, s)
      | Some data \<Rightarrow>
          let s = (if args = [] then s\<lparr>current_lba := 0\<rparr> else s);
              s = write_file (of_nat (length data)) data (map of_char (basename arg)) s
          in write_files fopen args s)"

text \<open>The boot sector: zeroes, or the boot program with its signature.  \<^term>\<open>None\<close> is an exit with 1.\<close>

definition boot_sector :: "(string \<Rightarrow> u8 list option) \<Rightarrow> string option \<Rightarrow> u8 list option" where
  "boot_sector fopen bs_path =
     (case bs_path of
        None \<Rightarrow> Some (replicate 512 0)
      | Some p \<Rightarrow>
          do { data \<leftarrow> fopen p;
               if length data > 510 then None
               else Some (data @ replicate (510 - length data) 0 @ [0x55, 0xAA]) })"

text \<open>
  The exit status and, once the output is open, its path and what was written to it.
\<close>

definition main :: "(string \<Rightarrow> u8 list option) \<Rightarrow> (string \<Rightarrow> bool) \<Rightarrow> string list \<Rightarrow>
    int \<times> (string \<times> u8 list) option" where
  "main fopen creatable args =
     (case parse_args args None None of
        None \<Rightarrow> (1, None)
      | Some (bs_path, of_path) \<Rightarrow>
          let of_path = (case of_path of None \<Rightarrow> ''out.img'' | Some p \<Rightarrow> p)
          in if \<not> creatable of_path then (1, None)
             else case boot_sector fopen bs_path of
               None \<Rightarrow> (1, Some (of_path, []))
             | Some boot \<Rightarrow>
                 let (ok, s) = write_files fopen args \<lparr>out_file = boot, current_lba = 1\<rparr>
                 in if \<not> ok then (1, Some (of_path, out_file s))
                    else (0, Some (of_path, out_file s @ replicate (2048 * 512) 0)))"

section \<open>The layout of an image\<close>

definition file_sectors :: "u8 list \<Rightarrow> nat" where
  "file_sectors data = length data div 512 + 1"

text \<open>A file on the disk: its header and its contents, filled up to whole sectors.\<close>

definition padded :: "u8 list \<Rightarrow> u8 list" where
  "padded data = data @ replicate (file_sectors data * 512 - length data) 0"

definition file_rec :: "nat \<Rightarrow> u8 list \<Rightarrow> u8 list \<Rightarrow> u8 list" where
  "file_rec next name data = DFSFileHeader (of_nat (file_sectors data)) (of_nat next) name @ padded data"

fun img_recs :: "nat \<Rightarrow> (u8 list \<times> u8 list) list \<Rightarrow> u8 list" where
  "img_recs lba [] = []"
| "img_recs lba ((name, data) # fs) =
     file_rec (if fs = [] then 0 else lba + 1 + file_sectors data) name data @
     img_recs (lba + 1 + file_sectors data) fs"

fun img_sectors :: "(u8 list \<times> u8 list) list \<Rightarrow> nat" where
  "img_sectors [] = 0"
| "img_sectors ((name, data) # fs) = 1 + file_sectors data + img_sectors fs"

lemma length_le64 [simp]: "length (le64 v) = 8"
  by (simp add: le64_def)

lemma length_strncpy [simp]: "length (strncpy n bs) = n"
  by (simp add: strncpy_def)

lemma length_header [simp]: "length (DFSFileHeader n l name) = 512"
  by (simp add: DFSFileHeader_def)

lemma length_padded [simp]: "length (padded data) = file_sectors data * 512"
proof -
  have "length data < file_sectors data * 512" unfolding file_sectors_def by simp
  then show ?thesis by (simp add: padded_def)
qed

lemma length_img_recs: "length (img_recs lba fs) = img_sectors fs * 512"
  by (induction lba fs rule: img_recs.induct) (auto simp: file_rec_def Let_def algebra_simps)

lemma write_file_result:
  assumes "length data < 2 ^ 62" and "current_lba s = of_nat lba" and "lba + file_sectors data + 1 < 2 ^ 64"
  shows "write_file (of_nat (length data)) data name s =
    s\<lparr>out_file := out_file s @ file_rec (if lba = 0 then 0 else lba + 1 + file_sectors data) name data,
      current_lba := of_nat (if lba = 0 then 0 else lba + 1 + file_sectors data)\<rparr>"
proof -
  let ?n = "of_nat (length data) :: u64"
  have n: "unat ?n = length data" using assms(1) by (simp add: unat_of_nat)
  have "unat (?n div 512) = length data div 512" by (simp add: unat_div_distrib n)
  then have sc: "?n div 512 + 1 = of_nat (file_sectors data)"
    unfolding file_sectors_def by (metis of_nat_1 of_nat_add of_nat_unat unsigned_ucast_eq ucast_id)
  have d: "length data < file_sectors data * 512" "file_sectors data * 512 < 2 ^ 64"
    using assms(1) unfolding file_sectors_def by simp_all
  have "of_nat (file_sectors data) * 512 - ?n = of_nat (file_sectors data * 512 - length data)"
    using d(1) by (subst of_nat_diff) simp_all
  moreover have "file_sectors data * 512 - length data < 2 ^ LENGTH(64)" using d(2) by simp
  ultimately have al: "unat (of_nat (file_sectors data) * 512 - ?n :: u64) = file_sectors data * 512 - length data"
    by (simp only: unat_of_nat mod_less)
  have nz: "0 < k \<Longrightarrow> k < 2 ^ 64 \<Longrightarrow> (of_nat k :: u64) \<noteq> 0" for k
    using of_nat_Suc_neq_0 [of "k - 1", where 'a = 64] by simp
  have "lba \<noteq> 0 \<Longrightarrow> (of_nat lba :: u64) \<noteq> 0" "(of_nat lba + 1 :: u64) \<noteq> 0 \<or> lba = 0"
    "lba \<noteq> 0 \<Longrightarrow> (of_nat lba + 1 + of_nat (file_sectors data) :: u64) \<noteq> 0"
    using assms(3) nz [of lba] nz [of "Suc lba"] nz [of "Suc (lba + file_sectors data)"]
    by (auto simp: algebra_simps)
  note nz = this
  show ?thesis
  proof (cases "lba = 0")
    case True
    show ?thesis unfolding write_file_def Let_def sc
      by (rule img_t.equality) (use True assms(2) al n in \<open>simp_all add: file_rec_def padded_def\<close>)
  next
    case False
    show ?thesis unfolding write_file_def Let_def sc
      by (rule img_t.equality) (use False assms(2) nz al n in \<open>simp_all add: file_rec_def padded_def ac_simps\<close>)
  qed
qed

definition file_list :: "(string \<Rightarrow> u8 list option) \<Rightarrow> string list \<Rightarrow> (u8 list \<times> u8 list) list" where
  "file_list fopen args =
     map (\<lambda>a. (map of_char (basename a), the (fopen a))) (filter (\<lambda>a. arg_kind a = FileArg) args)"

definition files_ok :: "(string \<Rightarrow> u8 list option) \<Rightarrow> string list \<Rightarrow> bool" where
  "files_ok fopen args \<longleftrightarrow>
     (\<forall>a \<in> set args. arg_kind a = FileArg \<longrightarrow> (\<exists>d. fopen a = Some d \<and> length d < 2 ^ 62))"

text \<open>
  The layout for any order of the arguments: only a file that is the last argument of all ends the chain,
  so \<open>e\<close> says whether the last header names no sector or the one behind its file.
\<close>

fun img_layout :: "bool \<Rightarrow> nat \<Rightarrow> (u8 list \<times> u8 list) list \<Rightarrow> u8 list" where
  "img_layout e lba [] = []"
| "img_layout e lba ((name, data) # fs) =
     file_rec (if fs = [] \<and> e then 0 else lba + 1 + file_sectors data) name data @
     img_layout e (lba + 1 + file_sectors data) fs"

lemma img_layout_closed: "img_layout True lba fs = img_recs lba fs"
  by (induction lba fs rule: img_recs.induct) simp_all

definition ends_with_file :: "string list \<Rightarrow> bool" where
  "ends_with_file args \<longleftrightarrow> args \<noteq> [] \<and> arg_kind (last args) = FileArg"

lemma write_files_result:
  assumes "files_ok fopen args" and "current_lba s = of_nat lba" and "0 < lba" and "lba + img_sectors (file_list fopen args) < 2 ^ 64"
  shows "\<exists>l. write_files fopen args s =
    (True, s\<lparr>out_file := out_file s @ img_layout (ends_with_file args) lba (file_list fopen args), current_lba := l\<rparr>)"
  using assms
proof (induction args arbitrary: s lba)
  case Nil
  then show ?case by (auto simp: file_list_def intro: exI [of _ "current_lba s"])
next
  case (Cons a args)
  show ?case
  proof (cases "arg_kind a = FileArg")
    case False
    have "img_layout (ends_with_file (a # args)) lba (file_list fopen args) =
        img_layout (ends_with_file args) lba (file_list fopen args)"
      by (cases args) (simp_all add: ends_with_file_def file_list_def)
    with Cons.IH [of s lba] Cons.prems False show ?thesis
      by (auto simp: file_list_def files_ok_def split: if_splits)
  next
    case True
    with Cons.prems obtain d where d: "fopen a = Some d" "length d < 2 ^ 62" by (auto simp: files_ok_def)
    let ?f = "(map of_char (basename a), d)" and ?next = "lba + 1 + file_sectors d"
    have fl: "file_list fopen (a # args) = ?f # file_list fopen args" using True d by (simp add: file_list_def)
    have b: "lba + file_sectors d + 1 < 2 ^ 64" "?next + img_sectors (file_list fopen args) < 2 ^ 64"
      using Cons.prems(4) fl by simp_all
    show ?thesis
    proof (cases "args = []")
      case True
      have "file_list fopen [] = []" by (simp add: file_list_def)
      then show ?thesis using True \<open>arg_kind a = FileArg\<close> d fl b
        write_file_result [of d "s\<lparr>current_lba := 0\<rparr>" 0 "map of_char (basename a)"]
        by (auto simp: ends_with_file_def intro!: exI [of _ 0])
    next
      case False
      have ne: "file_list fopen args \<noteq> []" if "ends_with_file args"
        using that last_in_set [OF False] by (auto simp: ends_with_file_def file_list_def filter_empty_conv)
      have e: "ends_with_file (a # args) = ends_with_file args" using False by (simp add: ends_with_file_def)
      have "files_ok fopen args" using Cons.prems(1) by (simp add: files_ok_def)
      from Cons.IH [OF this, of "write_file (of_nat (length d)) d (map of_char (basename a)) s" ?next]
      show ?thesis using False True d fl b ne write_file_result [OF d(2) Cons.prems(2) b(1)] Cons.prems(3)
        by (cases "ends_with_file args") (simp_all add: ac_simps e)
    qed
  qed
qed

lemma main_layout:
  assumes "parse_args args None None = Some (bs_path, of_path)" and "creatable (case_option ''out.img'' id of_path)"
    and "boot_sector fopen bs_path = Some boot" and "files_ok fopen args"
    and "img_sectors (file_list fopen args) < 2 ^ 63"
  shows "main fopen creatable args = (0, Some (case_option ''out.img'' id of_path,
    boot @ img_layout (ends_with_file args) 1 (file_list fopen args) @ replicate (2048 * 512) 0)) \<and> length boot = 512"
proof -
  have "length boot = 512"
    using assms(3) by (auto simp: boot_sector_def split: option.splits bind_splits if_splits)
  moreover obtain l where "write_files fopen args \<lparr>out_file = boot, current_lba = 1\<rparr> =
      (True, \<lparr>out_file = boot @ img_layout (ends_with_file args) 1 (file_list fopen args), current_lba = l\<rparr>)"
    using write_files_result [of fopen args "\<lparr>out_file = boot, current_lba = 1\<rparr>" 1] assms by auto
  ultimately show ?thesis using assms(1-3) by (cases of_path) (simp_all add: main_def)
qed

lemma main_image:
  assumes "parse_args args None None = Some (bs_path, of_path)" and "creatable (case_option ''out.img'' id of_path)"
    and "boot_sector fopen bs_path = Some boot" and "files_ok fopen args"
    and "args \<noteq> []" and "arg_kind (last args) = FileArg"
    and "img_sectors (file_list fopen args) < 2 ^ 63"
  shows "main fopen creatable args = (0, Some (case_option ''out.img'' id of_path,
    boot @ img_recs 1 (file_list fopen args) @ replicate (2048 * 512) 0)) \<and> length boot = 512"
proof -
  have e: "ends_with_file args" using assms(5,6) by (simp add: ends_with_file_def)
  from main_layout [where creatable = creatable and fopen = fopen, OF assms(1-4,7)] show ?thesis by (simp only: e img_layout_closed)
qed

text \<open>An exit status of 0 means that every file was found, so the image has this layout.\<close>

lemma write_files_success:
  "fst (write_files fopen args s) \<Longrightarrow> a \<in> set args \<Longrightarrow> arg_kind a = FileArg \<Longrightarrow> \<exists>d. fopen a = Some d"
  by (induction args arbitrary: s) (auto simp: Let_def split: if_splits option.splits)

lemma file_list_sectors:
  assumes "a \<in> set args" and "arg_kind a = FileArg" and "fopen a = Some d"
  shows "file_sectors d \<le> img_sectors (file_list fopen args)"
  using assms by (induction args) (auto simp: file_list_def trans_le_add2)

lemma main_success:
  assumes run: "main fopen creatable args = (0, Some (path, disk))" and "args \<noteq> []" and last: "arg_kind (last args) = FileArg"
    and small: "img_sectors (file_list fopen args) < 2 ^ 48"
  shows "\<exists>boot. disk = boot @ img_recs 1 (file_list fopen args) @ replicate (2048 * 512) 0 \<and> length boot = 512 \<and>
    file_list fopen args \<noteq> []"
proof -
  from run obtain bs of_path boot where
    a: "parse_args args None None = Some (bs, of_path)" "creatable (case_option ''out.img'' id of_path)"
      "boot_sector fopen bs = Some boot" and w: "fst (write_files fopen args \<lparr>out_file = boot, current_lba = 1\<rparr>)"
    by (auto simp: main_def Let_def case_prod_beta split: option.splits if_splits)
  have ok: "files_ok fopen args" unfolding files_ok_def
  proof (intro ballI impI)
    fix x assume x: "x \<in> set args" "arg_kind x = FileArg"
    from write_files_success [where fopen = fopen, OF w x] obtain d where d: "fopen x = Some d" by blast
    have "length d < file_sectors d * 512" by (simp add: file_sectors_def)
    moreover have "file_sectors d < 2 ^ 48" using file_list_sectors [where fopen = fopen, OF x d] small by simp
    ultimately have "length d < 2 ^ 62" by simp
    with d show "\<exists>d. fopen x = Some d \<and> length d < 2 ^ 62" by blast
  qed
  have "img_sectors (file_list fopen args) < 2 ^ 63" using small by simp
  note img = main_image [where fopen = fopen and creatable = creatable and args = args, OF a ok \<open>args \<noteq> []\<close> last this]
  have "last args \<in> set (filter (\<lambda>a. arg_kind a = FileArg) args)" using \<open>args \<noteq> []\<close> last by simp
  then have "file_list fopen args \<noteq> []" by (auto simp: file_list_def filter_empty_conv)
  with img run show ?thesis by auto
qed

section \<open>Properties\<close>

text \<open>
  C16 When the options parse, the output can be created, the boot program fits and every file can be
  read, \<^verbatim>\<open>main\<close> succeeds and writes the boot sector, then each file with its header, and 2048 empty sectors.  Each
  header names the sector of the next header.  The header of the last file names none if that file is the last
  argument; if an option comes after it, the header names the sector behind the file, the first of the empty ones.
\<close>

theorem main_image_layout:
  assumes "parse_args args None None = Some (bs_path, of_path)" and "creatable (case_option ''out.img'' id of_path)"
    and "boot_sector fopen bs_path = Some boot" and "files_ok fopen args"
    and "img_sectors (file_list fopen args) < 2 ^ 63"
  shows "main fopen creatable args = (0, Some (case_option ''out.img'' id of_path,
    boot @ img_layout (args \<noteq> [] \<and> arg_kind (last args) = FileArg) 1 (file_list fopen args) @ replicate (2048 * 512) 0)) \<and>
    length boot = 512"
  using main_layout [where fopen = fopen and creatable = creatable, OF assms] by (simp only: ends_with_file_def)

definition sample_files :: "string \<Rightarrow> u8 list option" where
  "sample_files p = (if p = ''d/kernel.elf'' then Some [1, 2, 3] else if p = ''font'' then Some [4] else None)"

lemmas sample_files_simps = sample_files_def arg_kind_def files_ok_def file_list_def basename_def

theorem main_image_layout_witness:
  "main sample_files (\<lambda>_. True) [''-oimg'', ''d/kernel.elf'', ''font''] =
     (0, Some (''img'', replicate 512 0 @
        file_rec 3 (map of_char ''kernel.elf'') [1, 2, 3] @ file_rec 0 (map of_char ''font'') [4] @
        replicate (2048 * 512) 0)) \<and>
   main sample_files (\<lambda>_. True) [''d/kernel.elf'', ''-oimg''] =
     (0, Some (''img'', replicate 512 0 @ file_rec 3 (map of_char ''kernel.elf'') [1, 2, 3] @ replicate (2048 * 512) 0))"
proof -
  have fl: "file_list sample_files [''-oimg'', ''d/kernel.elf'', ''font''] =
      [(map of_char ''kernel.elf'', [1, 2, 3]), (map of_char ''font'', [4])]"
    "file_list sample_files [''d/kernel.elf'', ''-oimg''] = [(map of_char ''kernel.elf'', [1, 2, 3])]"
    by (simp_all add: sample_files_simps)
  have p: "parse_args [''-oimg'', ''d/kernel.elf'', ''font''] None None = Some (None, Some ''img'')"
    "parse_args [''d/kernel.elf'', ''-oimg''] None None = Some (None, Some ''img'')" by (simp_all add: arg_kind_def)
  have boot: "boot_sector sample_files None = Some (replicate 512 0)" by (simp add: boot_sector_def)
  have ok: "files_ok sample_files [''-oimg'', ''d/kernel.elf'', ''font'']" "files_ok sample_files [''d/kernel.elf'', ''-oimg'']"
    by (simp_all add: sample_files_simps)
  have k: "arg_kind ''font'' = FileArg" "arg_kind ''-oimg'' \<noteq> FileArg" by (simp_all add: arg_kind_def)
  have "img_sectors (file_list sample_files [''-oimg'', ''d/kernel.elf'', ''font'']) < 2 ^ 63"
    "img_sectors (file_list sample_files [''d/kernel.elf'', ''-oimg'']) < 2 ^ 63" by (simp_all add: fl file_sectors_def)
  note main_image_layout [OF p(1) _ boot ok(1) this(1), of "\<lambda>_. True"]
    main_image_layout [OF p(2) _ boot ok(2) this(2), of "\<lambda>_. True"]
  then show ?thesis by (simp add: fl k file_sectors_def) (simp only: numeral_3_eq_3 simp_thms)
qed

end
