(* ===== verification/Libk_Memory.thy ===== *)
theory Libk_Memory
  imports Prelude
begin

text \<open>
  The string and memory routines of \<^verbatim>\<open>libk/memory.c\<close> and \<^verbatim>\<open>libk/memory.h\<close> on the byte-addressed
  memory.  \<^verbatim>\<open>strlen\<close> may run through a memory that holds no zero byte for ever, so it is a partial
  function; every other loop counts down a 32-bit counter.  The inline \<^verbatim>\<open>rep movs\<close>/\<^verbatim>\<open>rep stos\<close>
  instructions run upwards (the direction flag is clear).  The lemmas show when the forward copy
  of \<^verbatim>\<open>mmove8\<close> is a copy, what it does to regions that overlap the other way, and what
  \<^verbatim>\<open>strneq\<close> and \<^verbatim>\<open>strlen\<close> compute.
\<close>

section \<open>Definitions\<close>

definition store16 :: "mem \<Rightarrow> addr \<Rightarrow> u16 \<Rightarrow> mem" where
  "store16 m a v = m(a := ucast v, a + 1 := ucast (drop_bit 8 v))"

definition store32 :: "mem \<Rightarrow> addr \<Rightarrow> u32 \<Rightarrow> mem" where
  "store32 m a v = store16 (store16 m a (ucast v)) (a + 2) (ucast (drop_bit 16 v))"

partial_function (option) strlen_loop :: "mem \<Rightarrow> addr \<Rightarrow> addr \<Rightarrow> u32 option" where
  "strlen_loop m str it =
     (if m it = 0 then Some ((it + 1) - str - 1) else strlen_loop m str (it + 1))"

definition strlen :: "mem \<Rightarrow> addr \<Rightarrow> u32 option" where
  "strlen m str = strlen_loop m str str"

function strneq_loop :: "mem \<Rightarrow> addr \<Rightarrow> addr \<Rightarrow> u32 \<Rightarrow> u32 \<Rightarrow> u8" where
  "strneq_loop m str1 str2 i maxlen =
     (if i < maxlen then
        if m (str1 + i) \<noteq> m (str2 + i) then 0
        else if m (str1 + i) = 0 then 1
        else strneq_loop m str1 str2 (i + 1) maxlen
      else 1)"
  by pat_completeness auto
termination
  by (relation "measure (\<lambda>(m, a, b, i, n). unat n - unat i)")
    (auto simp: unat_succ_less, simp add: word_less_nat_alt)

definition strneq :: "mem \<Rightarrow> addr \<Rightarrow> addr \<Rightarrow> u32 \<Rightarrow> u8" where
  "strneq m str1 str2 maxlen = strneq_loop m str1 str2 0 maxlen"

function mmove8_loop :: "mem \<Rightarrow> addr \<Rightarrow> addr \<Rightarrow> u32 \<Rightarrow> mem" where
  "mmove8_loop m d_it s_it count =
     (if count = 0 then m else mmove8_loop (m(d_it := m s_it)) (d_it + 1) (s_it + 1) (count - 1))"
  by pat_completeness auto
termination
  by (relation "measure (\<lambda>(m, d, s, n). unat n)") (auto simp: unat_minus_one unat_gt_0)

definition mmove8 :: "mem \<Rightarrow> addr \<Rightarrow> addr \<Rightarrow> u32 \<Rightarrow> mem" where
  "mmove8 m dst src count = mmove8_loop m dst src count"

function mmove16_loop :: "mem \<Rightarrow> addr \<Rightarrow> addr \<Rightarrow> u32 \<Rightarrow> mem" where
  "mmove16_loop m d_it s_it count =
     (if count = 0 then m
      else mmove16_loop (store16 m d_it (load16 m s_it)) (d_it + 2) (s_it + 2) (count - 1))"
  by pat_completeness auto
termination
  by (relation "measure (\<lambda>(m, d, s, n). unat n)") (auto simp: unat_minus_one unat_gt_0)

definition mmove16 :: "mem \<Rightarrow> addr \<Rightarrow> addr \<Rightarrow> u32 \<Rightarrow> mem" where
  "mmove16 m dst src count = mmove16_loop m dst src count"

function mmove32_loop :: "mem \<Rightarrow> addr \<Rightarrow> addr \<Rightarrow> u32 \<Rightarrow> mem" where
  "mmove32_loop m d_it s_it count =
     (if count = 0 then m
      else mmove32_loop (store32 m d_it (load32 m s_it)) (d_it + 4) (s_it + 4) (count - 1))"
  by pat_completeness auto
termination
  by (relation "measure (\<lambda>(m, d, s, n). unat n)") (auto simp: unat_minus_one unat_gt_0)

definition mmove32 :: "mem \<Rightarrow> addr \<Rightarrow> addr \<Rightarrow> u32 \<Rightarrow> mem" where
  "mmove32 m dst src count = mmove32_loop m dst src count"

function meq8_loop :: "mem \<Rightarrow> addr \<Rightarrow> addr \<Rightarrow> u32 \<Rightarrow> u8" where
  "meq8_loop m it1 it2 bytes =
     (if bytes = 0 then 1
      else if m it1 \<noteq> m it2 then 0
      else meq8_loop m (it1 + 1) (it2 + 1) (bytes - 1))"
  by pat_completeness auto
termination
  by (relation "measure (\<lambda>(m, a, b, n). unat n)") (auto simp: unat_minus_one unat_gt_0)

definition meq8 :: "mem \<Rightarrow> addr \<Rightarrow> addr \<Rightarrow> u32 \<Rightarrow> u8" where
  "meq8 m p1 p2 bytes = meq8_loop m p1 p2 bytes"

definition mcpy8 :: "mem \<Rightarrow> addr \<Rightarrow> addr \<Rightarrow> usz \<Rightarrow> mem" where
  "mcpy8 m dst src count = mmove8_loop m dst src count"

definition mcpy16 :: "mem \<Rightarrow> addr \<Rightarrow> addr \<Rightarrow> usz \<Rightarrow> mem" where
  "mcpy16 m dst src count = mmove16_loop m dst src count"

definition mcpy32 :: "mem \<Rightarrow> addr \<Rightarrow> addr \<Rightarrow> usz \<Rightarrow> mem" where
  "mcpy32 m dst src count = mmove32_loop m dst src count"

definition mset8 :: "mem \<Rightarrow> addr \<Rightarrow> u8 \<Rightarrow> u32 \<Rightarrow> mem" where
  "mset8 m dst val count = store_bytes m dst (replicate (unat count) val)"

definition mset16 :: "mem \<Rightarrow> addr \<Rightarrow> u16 \<Rightarrow> u32 \<Rightarrow> mem" where
  "mset16 m dst val count =
     store_bytes m dst (concat (replicate (unat count) [ucast val, ucast (drop_bit 8 val)]))"

definition mset32 :: "mem \<Rightarrow> addr \<Rightarrow> u32 \<Rightarrow> u32 \<Rightarrow> mem" where
  "mset32 m dst val count =
     store_bytes m dst (concat (replicate (unat count)
       [ucast val, ucast (drop_bit 8 val), ucast (drop_bit 16 val), ucast (drop_bit 24 val)]))"

declare strneq_loop.simps [simp del] mmove8_loop.simps [simp del] mmove16_loop.simps [simp del]
  mmove32_loop.simps [simp del] meq8_loop.simps [simp del]

section \<open>Forward copies\<close>

lemma mmove8_loop_Suc:
  "Suc n < 2 ^ 32 \<Longrightarrow>
   mmove8_loop m d s (of_nat (Suc n)) = mmove8_loop (m(d := m s)) (d + 1) (s + 1) (of_nat n)"
  using of_nat_Suc_neq_0 [of n, where 'a = 32]
  by (subst mmove8_loop.simps) simp

lemma mmove8_loop_0 [simp]: "mmove8_loop m d s 0 = m"
  by (simp add: mmove8_loop.simps)

lemma mmove8_loop_apply:
  assumes "d = s \<or> n \<le> unat (d - s)" "n < 2 ^ 32"
  shows "mmove8_loop m d s (of_nat n) a = (if unat (a - d) < n then m (s + (a - d)) else m a)"
  using assms
proof (induction n arbitrary: m d s)
  case (Suc n)
  have IH: "mmove8_loop (m(d := m s)) (d + 1) (s + 1) (of_nat n) a =
      (if unat (a - d - 1) < n then (m(d := m s)) (s + (a - d)) else (m(d := m s)) a)"
  proof -
    have "d + 1 = s + 1 \<or> n \<le> unat (d + 1 - (s + 1))" using Suc.prems(1) by auto
    moreover have "s + 1 + (a - (d + 1)) = s + (a - d)" "a - (d + 1) = a - d - 1" by simp_all
    ultimately show ?thesis
      using Suc.IH [of "d + 1" "s + 1" "m(d := m s)"] Suc.prems(2) by (simp only:)
  qed
  show ?case
  proof (cases "a = d")
    case True
    then have "\<not> unat (a - d - 1) < n" using Suc.prems(2) by simp
    with True show ?thesis using IH Suc.prems(2) by (simp only: mmove8_loop_Suc) simp
  next
    case False
    then have "unat (a - d - 1) = unat (a - d) - 1" "0 < unat (a - d)"
      by (simp_all add: unat_minus_one unat_gt_0)
    moreover have "s + (a - d) \<noteq> d" if "unat (a - d) < Suc n"
    proof
      assume "s + (a - d) = d"
      then have "a - d = d - s" by (metis add_diff_cancel_left')
      with that Suc.prems(1) False show False by auto
    qed
    ultimately show ?thesis
      using IH Suc.prems(2) False by (simp only: mmove8_loop_Suc) auto
  qed
qed simp

lemma mmove8_loop_smear:
  "n < 2 ^ 32 \<Longrightarrow> mmove8_loop m (s + 1) s (of_nat n) a = (if unat (a - s) \<le> n then m s else m a)"
proof (induction n arbitrary: m s)
  case 0
  then show ?case by (auto simp: unat_eq_zero)
next
  case (Suc n)
  let ?m = "m(s + 1 := m s)"
  have IH: "mmove8_loop ?m (s + 1 + 1) (s + 1) (of_nat n) a =
      (if unat (a - (s + 1)) \<le> n then ?m (s + 1) else ?m a)"
    by (rule Suc.IH) (use Suc.prems in simp)
  show ?case
  proof (cases "a = s")
    case True
    with IH Suc.prems show ?thesis by (simp only: mmove8_loop_Suc) simp
  next
    case False
    then have "unat (a - (s + 1)) = unat (a - s) - 1" "0 < unat (a - s)"
      using unat_minus_one [of "a - s"] by (simp_all add: unat_gt_0 diff_diff_eq)
    moreover have "unat (a - (s + 1)) \<le> n" if "a = s + 1" using that by simp
    ultimately show ?thesis
      using IH Suc.prems by (simp only: mmove8_loop_Suc) auto
  qed
qed

text \<open>
  \<^verbatim>\<open>mmove8\<close> copies the \<open>count\<close> bytes at \<open>src\<close> to \<open>dst\<close> and leaves every other byte alone,
  provided the destination does not start strictly inside the source region: then the forward
  loop never overwrites a byte it has still to read.
\<close>

lemma mmove8_copies:
  assumes "dst = src \<or> unat count \<le> unat (dst - src)"
  shows "load_bytes (mmove8 m dst src count) dst (unat count) = load_bytes m src (unat count) \<and>
    (\<forall>a. unat count \<le> unat (a - dst) \<longrightarrow> mmove8 m dst src count a = m a)"
proof -
  have "mmove8 m dst src count a =
      (if unat (a - dst) < unat count then m (src + (a - dst)) else m a)" for a
    using mmove8_loop_apply [of dst src "unat count" m a] assms by (simp add: mmove8_def)
  then show ?thesis
    by (auto simp: load_bytes_eq_map unat_of_nat mod_less [OF less_trans [OF _ unat_bound32]])
qed

lemma mmove8_copies_witness:
  "load_bytes (mmove8 (\<lambda>a. ucast a) 1 5 3) 1 3 = [5, 6, 7]"
proof -
  have "(1::addr) = 5 \<or> unat (3::u32) \<le> unat ((1::addr) - 5)" by simp
  from mmove8_copies [OF this, of "\<lambda>a. ucast a"] show ?thesis
    by (simp add: load_bytes_eq_map upt_rec)
qed

text \<open>
  Copying one byte upwards within a region smears its first byte over the whole destination:
  \<^verbatim>\<open>mmove8\<close> is not a \<^verbatim>\<open>memmove\<close>.
\<close>

lemma mmove8_overlap_smears:
  "load_bytes (mmove8 m (src + 1) src count) src (unat count) = replicate (unat count) (m src)"
proof -
  have "mmove8 m (src + 1) src count a = (if unat (a - src) \<le> unat count then m src else m a)" for a
    using mmove8_loop_smear [of "unat count" m src a] by (simp add: mmove8_def)
  then show ?thesis
    by (auto simp: load_bytes_eq_map unat_of_nat list_eq_iff_nth_eq
        mod_less [OF less_trans [OF _ unat_bound32]])
qed

section \<open>Strings\<close>

lemma strneq_loop_iff:
  "strneq_loop m a b i n = 1 \<longleftrightarrow>
     takeWhile (\<lambda>c. c \<noteq> 0) (load_bytes m (a + i) (unat n - unat i)) =
     takeWhile (\<lambda>c. c \<noteq> 0) (load_bytes m (b + i) (unat n - unat i))"
proof (induction m a b i n rule: strneq_loop.induct)
  case (1 m a b i n)
  show ?case
  proof (cases "i < n")
    case True
    then have "unat n - unat i = Suc (unat n - unat (i + 1))"
      by (simp add: unat_succ_less) (simp add: word_less_nat_alt Suc_diff_Suc)
    with True "1.IH" show ?thesis
      by (subst strneq_loop.simps) (auto simp: algebra_simps)
  next
    case False
    then show ?thesis by (subst strneq_loop.simps) (simp add: word_less_nat_alt)
  qed
qed

lemma strlen_loop_terminates:
  assumes "m (it + of_nat k) = 0" and "\<And>j. j < k \<Longrightarrow> m (it + of_nat j) \<noteq> 0"
  shows "strlen_loop m str it = Some (it + of_nat k - str)"
  using assms
proof (induction k arbitrary: it)
  case 0
  then show ?case by (simp add: strlen_loop.simps)
next
  case (Suc k)
  have "m it \<noteq> 0" using Suc.prems(2) [of 0] by simp
  moreover have "strlen_loop m str (it + 1) = Some (it + 1 + of_nat k - str)"
    using Suc.prems by (intro Suc.IH) (force simp: algebra_simps)+
  ultimately show ?case by (subst strlen_loop.simps) (simp add: algebra_simps)
qed

lemma strneq_loop_bool: "strneq_loop m a b i n = 0 \<or> strneq_loop m a b i n = 1"
  by (induction m a b i n rule: strneq_loop.induct) (subst (1 2) strneq_loop.simps, simp)

text \<open>
  \<^verbatim>\<open>strneq\<close> returns 1 exactly when the two strings, cut at their terminating zero or at
  \<open>maxlen\<close> bytes, are equal, and 0 otherwise.
\<close>

lemma strneq_bounded_equal:
  "strneq m str1 str2 maxlen =
     (if takeWhile (\<lambda>c. c \<noteq> 0) (load_bytes m str1 (unat maxlen)) =
         takeWhile (\<lambda>c. c \<noteq> 0) (load_bytes m str2 (unat maxlen)) then 1 else 0)"
  using strneq_loop_iff [of m str1 str2 0 maxlen] strneq_loop_bool [of m str1 str2 0 maxlen]
  by (auto simp: strneq_def)

text \<open>
  \<^verbatim>\<open>strlen\<close> returns on every terminated string, with the number of bytes before the first zero.
\<close>

lemma strlen_first_zero:
  assumes "m (str + of_nat k) = 0" and "\<And>j. j < k \<Longrightarrow> m (str + of_nat j) \<noteq> 0"
  shows "strlen m str = Some (of_nat k)"
  using strlen_loop_terminates [of m str k str] assms by (simp add: strlen_def)

lemma strlen_first_zero_witness: "strlen (\<lambda>a. if a = 13 then 0 else 65) 10 = Some 3"
proof -
  have "\<And>j. j < 3 \<Longrightarrow> (if (10::addr) + of_nat j = 13 then 0 else 65 :: u8) \<noteq> 0"
    by (auto simp: less_Suc_eq numeral_3_eq_3)
  then show ?thesis
    using strlen_first_zero [of "\<lambda>a. if a = 13 then 0 else 65" 10 3] by simp
qed

section \<open>Stores and loads apart from each other\<close>

lemma load16_slice:
  fixes v :: "'a::len word"
  assumes "m a = ucast (drop_bit k v)" and "m (a + 1) = ucast (drop_bit (k + 8) v)"
  shows "load16 m a = ucast (drop_bit k v)"
  by (rule bit_word_eqI) (auto simp: load16_def assms bit_simps)

lemma load32_slice:
  fixes v :: "'a::len word"
  assumes "load16 m a = ucast (drop_bit k v)" and "load16 m (a + 2) = ucast (drop_bit (k + 16) v)"
  shows "load32 m a = ucast (drop_bit k v)"
  by (rule bit_word_eqI) (auto simp: load32_def assms bit_simps)

text \<open>The \<open>k\<close> bytes at \<open>b\<close> lie outside the \<open>n\<close> bytes at \<open>a\<close>.\<close>

definition away :: "addr \<Rightarrow> nat \<Rightarrow> addr \<Rightarrow> nat \<Rightarrow> bool" where
  "away a n b k \<longleftrightarrow> (\<forall>i<k. n \<le> unat (b + of_nat i - a))"

lemma store_bytes_away:
  assumes "away a (length bs) b k" and "length bs \<le> 2 ^ 32" and "i < k"
  shows "store_bytes m a bs (b + of_nat i) = m (b + of_nat i)"
proof -
  have "\<not> unat (b + of_nat i - a) < length bs" using assms(1,3) by (simp add: away_def not_less)
  then show ?thesis by (simp add: store_bytes_apply [OF assms(2)])
qed

lemma load_bytes_away:
  assumes "away a (length bs) b k" and "length bs \<le> 2 ^ 32"
  shows "load_bytes (store_bytes m a bs) b k = load_bytes m b k"
  unfolding load_bytes_eq_map using store_bytes_away [OF assms] by simp

lemma load32_cong:
  assumes "\<forall>i<4. m (a + of_nat i) = m' (a + of_nat i)"
  shows "load32 m a = load32 m' a"
  using assms [rule_format, of 0] assms [rule_format, of 1] assms [rule_format, of 2] assms [rule_format, of 3]
  by (simp add: load32_def load16_def add.commute)

lemma load64_cong:
  assumes "\<forall>i<8. m (a + of_nat i) = m' (a + of_nat i)"
  shows "load64 m a = load64 m' a"
proof -
  have "load32 m a = load32 m' a" by (rule load32_cong) (use assms in simp)
  moreover have "load32 m (a + 4) = load32 m' (a + 4)"
  proof (rule load32_cong, intro allI impI)
    fix i :: nat assume "i < 4"
    then show "m (a + 4 + of_nat i) = m' (a + 4 + of_nat i)"
      using assms [rule_format, of "i + 4"] by (simp add: algebra_simps)
  qed
  ultimately show ?thesis by (simp add: load64_def)
qed

lemma store32_bytes:
  "store32 m a v = store_bytes m a [ucast v, ucast (drop_bit 8 v), ucast (drop_bit 16 v), ucast (drop_bit 24 v)]"
proof -
  have "ucast (ucast v :: u16) = (ucast v :: u8)" "ucast (drop_bit 8 (ucast v :: u16)) = (ucast (drop_bit 8 v) :: u8)"
    "ucast (ucast (drop_bit 16 v) :: u16) = (ucast (drop_bit 16 v) :: u8)"
    "ucast (drop_bit 8 (ucast (drop_bit 16 v) :: u16)) = (ucast (drop_bit 24 v) :: u8)"
    by (rule bit_word_eqI, auto simp: bit_simps)+
  then show ?thesis by (simp add: store32_def store16_def add.assoc)
qed

lemma store32_away:
  assumes "away a 4 b k" and "i < k"
  shows "store32 m a v (b + of_nat i) = m (b + of_nat i)"
proof -
  let ?bs = "[ucast v, ucast (drop_bit 8 v), ucast (drop_bit 16 v), ucast (drop_bit 24 v)] :: u8 list"
  have "length ?bs = 4" by simp
  then have "away a (length ?bs) b k" using assms(1) by (simp only:)
  from store_bytes_away [OF this _ assms(2)] show ?thesis by (simp add: store32_bytes)
qed

lemma load32_store32: "load32 (store32 m a v) a = v"
proof -
  let ?m = "store32 m a v"
  have "?m a = ucast v" "?m (a + 1) = ucast (drop_bit 8 v)" "?m (a + 2) = ucast (drop_bit 16 v)"
    "?m (a + 2 + 1) = ucast (drop_bit 24 v)" unfolding store32_bytes by simp_all
  then have "load16 ?m a = ucast (drop_bit 0 v)" "load16 ?m (a + 2) = ucast (drop_bit (0 + 16) v)"
    using load16_slice [of ?m a 0 v] load16_slice [of ?m "a + 2" 16 v] by simp_all
  from load32_slice [OF this] show ?thesis by simp
qed

text \<open>The elements of an array of double words do not overlap.\<close>

lemma dwords_away:
  assumes "i < n" and "k < n" and "i \<noteq> k" and "4 * n \<le> 2 ^ 32"
  shows "away (a + 4 * of_nat i) 4 (a + 4 * of_nat k) 4"
  unfolding away_def
proof (intro allI impI)
  fix j :: nat assume j: "j < 4"
  show "4 \<le> unat (a + 4 * of_nat k + of_nat j - (a + 4 * of_nat i))"
  proof (cases "i < k")
    case True
    then have "4 * of_nat k + of_nat j - 4 * of_nat i = (of_nat (4 * k + j - 4 * i) :: addr)"
      by (subst of_nat_diff) simp_all
    then have eq: "a + 4 * of_nat k + of_nat j - (a + 4 * of_nat i) = (of_nat (4 * k + j - 4 * i) :: addr)"
      by (simp add: algebra_simps)
    have "4 * k + j - 4 * i < 4294967296" "4 \<le> 4 * k + j - 4 * i" using True assms j by simp_all
    then show ?thesis unfolding eq by (simp only: unat_of_nat_small)
  next
    case False
    then have ki: "k < i" using assms(3) by simp
    have "(of_nat (4294967296 + (4 * k + j) - 4 * i) :: addr) = of_nat (4294967296 + (4 * k + j)) - of_nat (4 * i)"
      using assms by (subst of_nat_diff) simp_all
    moreover have "(4294967296 :: addr) = 0" by simp
    ultimately have eq: "a + 4 * of_nat k + of_nat j - (a + 4 * of_nat i) =
        (of_nat (4294967296 + (4 * k + j) - 4 * i) :: addr)"
      by (simp add: algebra_simps)
    have "4294967296 + (4 * k + j) - 4 * i < 4294967296" "4 \<le> 4294967296 + (4 * k + j) - 4 * i"
      using ki j assms by simp_all
    then show ?thesis unfolding eq by (simp only: unat_of_nat_small)
  qed
qed

fun store_dwords :: "mem \<Rightarrow> addr \<Rightarrow> u32 list \<Rightarrow> mem" where
  "store_dwords m a [] = m"
| "store_dwords m a (v # vs) = store_dwords (store32 m a v) (a + 4) vs"

lemma store_dwords_load:
  assumes "i + length vs \<le> n" and "k < n" and "4 * n \<le> 2 ^ 32"
  shows "load32 (store_dwords m (a + 4 * of_nat i) vs) (a + 4 * of_nat k) =
    (if i \<le> k \<and> k < i + length vs then vs ! (k - i) else load32 m (a + 4 * of_nat k))"
  using assms
proof (induction vs arbitrary: i m)
  case (Cons v vs)
  let ?m = "store32 m (a + 4 * of_nat i) v"
  have step: "a + 4 * of_nat i + 4 = a + 4 * of_nat (Suc i)" by (simp add: algebra_simps)
  have "load32 ?m (a + 4 * of_nat k) = (if k = i then v else load32 m (a + 4 * of_nat k))"
  proof (cases "k = i")
    case False
    have "away (a + 4 * of_nat i) 4 (a + 4 * of_nat k) 4"
      by (rule dwords_away [of _ n]) (use Cons.prems False in simp_all)
    then have "load32 ?m (a + 4 * of_nat k) = load32 m (a + 4 * of_nat k)"
      by (intro load32_cong allI impI store32_away)
    with False show ?thesis by simp
  qed (simp add: load32_store32)
  moreover have "load32 (store_dwords ?m (a + 4 * of_nat (Suc i)) vs) (a + 4 * of_nat k) =
      (if Suc i \<le> k \<and> k < Suc i + length vs then vs ! (k - Suc i) else load32 ?m (a + 4 * of_nat k))"
    by (rule Cons.IH) (use Cons.prems in simp_all)
  ultimately show ?case by (auto simp: step nth_Cons' Suc_diff_Suc)
qed auto

lemma store_dwords_away:
  assumes "\<forall>i<n. away (a + 4 * of_nat i) 4 b l" and "i + length vs \<le> n" and "j < l"
  shows "store_dwords m (a + 4 * of_nat i) vs (b + of_nat j) = m (b + of_nat j)"
  using assms
proof (induction vs arbitrary: i m)
  case (Cons v vs)
  have step: "a + 4 * of_nat i + 4 = a + 4 * of_nat (Suc i)" by (simp add: algebra_simps)
  have "store32 m (a + 4 * of_nat i) v (b + of_nat j) = m (b + of_nat j)"
    by (rule store32_away [of _ _ l]) (use Cons.prems in simp_all)
  moreover have "store_dwords (store32 m (a + 4 * of_nat i) v) (a + 4 * of_nat (Suc i)) vs (b + of_nat j) =
      store32 m (a + 4 * of_nat i) v (b + of_nat j)"
    by (rule Cons.IH) (use Cons.prems in simp_all)
  ultimately show ?case by (simp add: step)
qed simp

text \<open>An address outside an array of double words.\<close>

lemma dword_outside:
  fixes x a :: addr
  assumes "4 * n \<le> unat (x - a)" and "j < n"
  shows "4 \<le> unat (x - (a + 4 * of_nat j))"
proof -
  have j: "4 * j + 4 \<le> unat (x - a)" using assms by simp
  then have "unat (of_nat (4 * j) :: addr) = 4 * j"
    using unat_bound32 [of "x - a"] by (intro unat_of_nat_small) (simp del: unat_bound32)
  then have "unat (x - a - of_nat (4 * j)) = unat (x - a) - 4 * j"
    using j by (simp add: unat_sub_if' del: of_nat_mult)
  with j show ?thesis by (simp add: algebra_simps)
qed

lemma store_dwords_outside:
  assumes "4 * n \<le> unat (x - a)" and "i + length vs \<le> n"
  shows "store_dwords m (a + 4 * of_nat i) vs x = m x"
  using store_dwords_away [of n a x 1 i vs 0 m] dword_outside [OF assms(1)] assms(2) by (simp add: away_def)

lemma store_bytes_append:
  "store_bytes m a (xs @ ys) = store_bytes (store_bytes m a xs) (a + of_nat (length xs)) ys"
  by (induction xs arbitrary: m a) (simp_all add: algebra_simps)

lemma mset32_dwords: "mset32 m a v n = store_dwords m a (replicate (unat n) v)"
proof -
  let ?bs = "[ucast v, ucast (drop_bit 8 v), ucast (drop_bit 16 v), ucast (drop_bit 24 v)] :: u8 list"
  have l: "of_nat (length ?bs) = (4 :: addr)" by simp
  have "store_bytes m a (concat (replicate k ?bs)) = store_dwords m a (replicate k v)" for k
  proof (induction k arbitrary: m a)
    case (Suc k)
    show ?case unfolding replicate_Suc concat.simps store_bytes_append l store32_bytes [symmetric] Suc
      by simp
  qed simp
  then show ?thesis by (simp add: mset32_def)
qed

end
