(* ===== verification/Io.thy ===== *)
theory Io
  imports Libk_Memory
begin

text \<open>
  The formatted output of \<^verbatim>\<open>libk/io.c\<close>.  The callback every function writes through is a parameter
  that takes the bytes it is given and the state of the receiver, and returns its result and the new
  state.  A variadic argument list is the sequence of 32-bit stack slots of the i386 calling
  convention, so a 64-bit argument takes two of them, low word first; reading past its end is
  \<^term>\<open>None\<close>, as is a store outside the 32-byte buffers of the number printers.

  The lemmas show that the number printers stay inside their buffers and write the decimal and
  hexadecimal digits of their argument, and that \<^verbatim>\<open>io_vprintf\<close> formats every well-formed format
  string.
\<close>

section \<open>Number printers\<close>

type_synonym 'w io_callback = "u8 list \<Rightarrow> 'w \<Rightarrow> usz \<times> 'w"

abbreviation chr :: "char \<Rightarrow> u8" where "chr c \<equiv> of_char c"

function io_printuq_loop :: "u64 \<Rightarrow> usz \<Rightarrow> u8 list \<Rightarrow> (u64 \<times> usz \<times> u8 list) option" where
  "io_printuq_loop n it buf =
     (if n \<ge> 10 then
        do { buf \<leftarrow> arr_set buf it (ucast (n mod 10) + chr CHR ''0'');
             io_printuq_loop (n div 10) (it - 1) buf }
      else Some (n, it, buf))"
  by pat_completeness auto
termination
  by (relation "measure (\<lambda>(n, it, buf). unat n)")
    (auto simp: unat_div_distrib word_le_nat_alt)

definition io_printuq :: "'w io_callback \<Rightarrow> u64 \<Rightarrow> 'w \<Rightarrow> (usz \<times> 'w) option" where
  "io_printuq callb n w =
     do { (n, it, buf) \<leftarrow> io_printuq_loop n 31 (replicate 32 0);
          buf \<leftarrow> arr_set buf it (ucast n + chr CHR ''0'');
          let len = 31 - it;
          Some (callb (take (unat (len + 1)) (drop (unat it) buf)) w) }"

definition io_printiq :: "'w io_callback \<Rightarrow> i64 \<Rightarrow> 'w \<Rightarrow> (usz \<times> 'w) option" where
  "io_printiq callb n w =
     (if sint n < 0 then
        let n = - n;
            (_, w) = callb [chr CHR ''-''] w
        in do { (r, w) \<leftarrow> io_printuq callb n w; Some (r + 1, w) }
      else do { (r, w) \<leftarrow> io_printuq callb n w; Some (r + 0, w) })"

definition io_hex_char :: "u8 list" where
  "io_hex_char = map chr ''0123456789ABCDEF''"

function io_printhq_loop :: "u64 \<Rightarrow> usz \<Rightarrow> u8 list \<Rightarrow> (u64 \<times> usz \<times> u8 list) option" where
  "io_printhq_loop n it buf =
     (if n > 0x0F then
        do { buf \<leftarrow> arr_set buf it (io_hex_char ! unat (n AND 0x0F));
             io_printhq_loop (drop_bit 4 n) (it - 1) buf }
      else Some (n, it, buf))"
  by pat_completeness auto
termination
  by (relation "measure (\<lambda>(n, it, buf). unat n)")
    (auto simp: unat_drop_bit word_less_nat_alt)

definition io_printhq :: "'w io_callback \<Rightarrow> u64 \<Rightarrow> 'w \<Rightarrow> (usz \<times> 'w) option" where
  "io_printhq callb n w =
     do { (n, it, buf) \<leftarrow> io_printhq_loop n 31 (replicate 32 0);
          buf \<leftarrow> arr_set buf it (io_hex_char ! unat n);
          let len = 31 - it;
          Some (callb (take (unat (len + 1)) (drop (unat it) buf)) w) }"

declare io_printuq_loop.simps [simp del] io_printhq_loop.simps [simp del]

section \<open>Format strings\<close>

text \<open>The literal run of a format string: \<^verbatim>\<open>while (*it && *it != '%') ++it;\<close>\<close>

partial_function (option) io_scan :: "mem \<Rightarrow> addr \<Rightarrow> addr option" where
  "io_scan m it = (if m it \<noteq> 0 \<and> m it \<noteq> chr CHR ''%'' then io_scan m (it + 1) else Some it)"

text \<open>
  The argument of an integer conversion, by the size character: \<^verbatim>\<open>q\<close> reads an \<^verbatim>\<open>i64\<close>, \<^verbatim>\<open>d\<close> an
  \<^verbatim>\<open>i32\<close>, \<^verbatim>\<open>z\<close> a \<^verbatim>\<open>usz\<close>, each converted to the \<^verbatim>\<open>i64\<close> variable \<^verbatim>\<open>val\<close>.  The inner \<^term>\<open>None\<close> is
  \<^verbatim>\<open>goto inval\<close>.
\<close>

fun io_int_arg :: "u8 \<Rightarrow> u32 list \<Rightarrow> (i64 \<times> u32 list) option option" where
  "io_int_arg c args =
     (if c = chr CHR ''q'' then
        case args of lo # hi # rest \<Rightarrow> Some (Some (ucast lo OR push_bit 32 (ucast hi), rest)) | _ \<Rightarrow> None
      else if c = chr CHR ''d'' then
        case args of a # rest \<Rightarrow> Some (Some (scast a, rest)) | _ \<Rightarrow> None
      else if c = chr CHR ''z'' then
        case args of a # rest \<Rightarrow> Some (Some (ucast a, rest)) | _ \<Rightarrow> None
      else Some None)"

declare io_int_arg.simps [simp del]

definition io_int_conv ::
    "('w io_callback \<Rightarrow> i64 \<Rightarrow> 'w \<Rightarrow> (usz \<times> 'w) option) \<Rightarrow> 'w io_callback \<Rightarrow> mem \<Rightarrow> addr \<Rightarrow> addr \<Rightarrow>
     u32 list \<Rightarrow> 'w \<Rightarrow> (addr \<times> u32 list \<times> 'w) option" where
  "io_int_conv printer callb m start it args w =
     do { r \<leftarrow> io_int_arg (m it) args;
          let it = it + 1;
          case r of
            None \<Rightarrow> let (_, w) = callb (load_bytes m start (unat (it - start))) w in Some (it, args, w)
          | Some (val, args) \<Rightarrow> do { (_, w) \<leftarrow> printer callb val w; Some (it, args, w) } }"

text \<open>One round of the loop of \<^verbatim>\<open>io_vprintf\<close>: a literal run or one conversion.\<close>

definition io_vprintf_item ::
    "'w io_callback \<Rightarrow> mem \<Rightarrow> addr \<Rightarrow> u32 list \<Rightarrow> 'w \<Rightarrow> (addr \<times> u32 list \<times> 'w) option" where
  "io_vprintf_item callb m start args w =
     (if m start \<noteq> chr CHR ''%'' then
        do { it \<leftarrow> io_scan m start;
             let (_, w) = callb (load_bytes m start (unat (it - start))) w;
             Some (it, args, w) }
      else
        let c = m (start + 1); it = start + 2
        in if c = chr CHR ''s'' then
             case args of
               val # args \<Rightarrow>
                 do { len \<leftarrow> strlen m val;
                      let (_, w) = callb (load_bytes m val (unat len)) w;
                      Some (it, args, w) }
             | [] \<Rightarrow> None
           else if c = chr CHR ''c'' then
             case args of
               val # args \<Rightarrow> let (_, w) = callb [ucast val] w in Some (it, args, w)
             | [] \<Rightarrow> None
           else if c = chr CHR ''%'' then
             let (_, w) = callb [m (it - 1)] w in Some (it, args, w)
           else if c = chr CHR ''i'' then io_int_conv io_printiq callb m start it args w
           else if c = chr CHR ''u'' then io_int_conv io_printuq callb m start it args w
           else if c = chr CHR ''h'' then io_int_conv io_printhq callb m start it args w
           else let (_, w) = callb (load_bytes m start (unat (it - start))) w in Some (it, args, w))"

partial_function (option) io_vprintf_loop ::
    "'w io_callback \<Rightarrow> mem \<Rightarrow> addr \<Rightarrow> u32 list \<Rightarrow> 'w \<Rightarrow> 'w option" where
  "io_vprintf_loop callb m it args w =
     (if m it = 0 then Some w
      else do { (it, args, w) \<leftarrow> io_vprintf_item callb m it args w;
                io_vprintf_loop callb m it args w })"

definition io_vprintf :: "'w io_callback \<Rightarrow> mem \<Rightarrow> addr \<Rightarrow> u32 list \<Rightarrow> 'w \<Rightarrow> 'w option" where
  "io_vprintf callb m fmt argl w = io_vprintf_loop callb m fmt argl w"

definition io_printf :: "'w io_callback \<Rightarrow> mem \<Rightarrow> addr \<Rightarrow> u32 list \<Rightarrow> 'w \<Rightarrow> 'w option" where
  "io_printf callb m fmt argl w = io_vprintf callb m fmt argl w"

section \<open>Digits\<close>

function digits :: "nat \<Rightarrow> nat \<Rightarrow> nat list" where
  "digits b n = (if 1 < b \<and> b \<le> n then digits b (n div b) @ [n mod b] else [n])"
  by pat_completeness auto
termination
  by (relation "measure (\<lambda>(b, n). n)") auto

declare digits.simps [simp del]

lemma digits_value: "1 < b \<Longrightarrow> foldl (\<lambda>v d. v * b + d) 0 (digits b n) = n"
  by (induction b n rule: digits.induct) (subst digits.simps, auto)

lemma digits_less: "1 < b \<Longrightarrow> d \<in> set (digits b n) \<Longrightarrow> d < b"
  by (induction b n rule: digits.induct) (subst (asm) (2) digits.simps, auto split: if_splits)

lemma length_digits: "1 < b \<Longrightarrow> n < b ^ Suc k \<Longrightarrow> length (digits b n) \<le> Suc k"
proof (induction k arbitrary: n)
  case 0
  then show ?case by (subst digits.simps) simp
next
  case (Suc k)
  show ?case
  proof (cases "b \<le> n")
    case True
    from Suc.prems have "n div b < b ^ Suc k"
      by (simp add: less_mult_imp_div_less mult.commute)
    with Suc.IH Suc.prems True show ?thesis by (subst digits.simps) simp
  next
    case False
    then show ?thesis by (subst digits.simps) simp
  qed
qed

lemma digits_nonempty [simp]: "digits b n \<noteq> []"
  by (subst digits.simps) simp

lemma length_digits_pos [simp]: "0 < length (digits b n)"
  by (subst digits.simps) simp

text \<open>
  The two number printers fill a buffer backwards with the digits of a number, for a base and a
  character for each digit.
\<close>

locale digit_printer =
  fixes base :: nat and digit :: "nat \<Rightarrow> u8"
    and fill :: "u64 \<Rightarrow> usz \<Rightarrow> u8 list \<Rightarrow> (u64 \<times> usz \<times> u8 list) option"
  assumes base: "1 < base" "base < 2 ^ 64"
    and fill_more: "base \<le> unat n \<Longrightarrow> fill n it buf =
      do { buf \<leftarrow> arr_set buf it (digit (unat n mod base)); fill (of_nat (unat n div base)) (it - 1) buf }"
    and fill_done: "unat n < base \<Longrightarrow> fill n it buf = Some (n, it, buf)"
begin

lemma fill_digits:
  assumes "length (digits base (unat n)) \<le> Suc (unat it)" and "unat it < length buf"
  shows "\<exists>n' it' buf'. fill n it buf = Some (n', it', buf') \<and> length buf' = length buf \<and>
    unat it' + length (digits base (unat n)) = Suc (unat it) \<and> unat n' < base \<and>
    drop (unat it') (buf'[unat it' := digit (unat n')]) =
      map digit (digits base (unat n)) @ drop (Suc (unat it)) buf"
  using assms
proof (induction "unat n" arbitrary: n it buf rule: less_induct)
  case less
  show ?case
  proof (cases "base \<le> unat n")
    case False
    have "digits base (unat n) = [unat n]" by (subst digits.simps) (use False in simp)
    with False fill_done [of n it buf] less.prems(2) show ?thesis
      by (simp add: Cons_nth_drop_Suc [symmetric] drop_update_cancel)
  next
    case True
    let ?m = "of_nat (unat n div base) :: u64" and ?buf = "buf[unat it := digit (unat n mod base)]"
    have "unat n div base < 2 ^ 64"
      by (rule le_less_trans [OF div_le_dividend]) (use unsigned_less [of n, where 'a = nat] in simp)
    then have m: "unat ?m = unat n div base" by (simp add: unat_of_nat)
    have d: "digits base (unat n) = digits base (unat n div base) @ [unat n mod base]"
      by (subst digits.simps) (use True base in simp)
    have "it \<noteq> 0" using less.prems(1) d length_digits_pos [of base "unat n div base"] by (auto simp: Suc_le_eq)
    then have it: "unat (it - 1) = unat it - 1" "0 < unat it" by (simp_all add: unat_minus_one unat_gt_0)
    have "unat ?m < unat n" "unat (it - 1) < length ?buf"
      "length (digits base (unat ?m)) \<le> Suc (unat (it - 1))"
      using True base less.prems d it m by simp_all
    from less.hyps [OF this(1,3,2)] obtain n' it' buf' where
      r: "fill ?m (it - 1) ?buf = Some (n', it', buf')" "length buf' = length buf"
        "unat it' + length (digits base (unat n div base)) = Suc (unat (it - 1))" "unat n' < base"
        "drop (unat it') (buf'[unat it' := digit (unat n')]) =
          map digit (digits base (unat n div base)) @ drop (Suc (unat (it - 1))) ?buf"
      unfolding m by auto
    have "drop (unat it) ?buf = digit (unat n mod base) # drop (Suc (unat it)) buf"
      using less.prems(2) by (simp add: Cons_nth_drop_Suc [symmetric])
    with r it d fill_more [OF True, of it buf] less.prems(2) show ?thesis by auto
  qed
qed

lemma fill_buffer:
  assumes "length (digits base (unat n)) \<le> 32"
  shows "\<exists>n' it buf. fill n 31 (replicate 32 0) = Some (n', it, buf) \<and> unat it < length buf \<and> unat n' < base \<and>
    unat (31 - it + 1) = length (digits base (unat n)) \<and>
    take (length (digits base (unat n))) (drop (unat it) (buf[unat it := digit (unat n')])) =
      map digit (digits base (unat n))"
proof -
  from fill_digits [of n 31 "replicate 32 0"] assms obtain n' it buf where
    r: "fill n 31 (replicate 32 0) = Some (n', it, buf)" "length buf = 32" "unat n' < base"
      "unat it + length (digits base (unat n)) = 32"
      "drop (unat it) (buf[unat it := digit (unat n')]) = map digit (digits base (unat n))"
    by auto
  have "unat it \<le> 31" using r(4) length_digits_pos [of base "unat n"] by linarith
  then have "it \<le> 31" by (simp add: word_le_nat_alt)
  then have "unat (31 - it + 1) = 32 - unat it"
    by (simp add: unat_word_ariths unat_sub word_le_nat_alt)
  with r \<open>unat it \<le> 31\<close> show ?thesis by auto
qed

end

lemma of_nat_unat_div: "of_nat (unat n div 10) = (n div 10 :: u64)"
  "of_nat (unat n div 16) = (drop_bit 4 n :: u64)"
proof -
  have "unat (n div 10) = unat n div 10" by (simp add: unat_div_distrib)
  from arg_cong [OF this, of "of_nat :: nat \<Rightarrow> u64"] show "of_nat (unat n div 10) = (n div 10 :: u64)" by simp
  have "unat (drop_bit 4 n) = unat n div 16" by (simp add: unat_drop_bit)
  from arg_cong [OF this, of "of_nat :: nat \<Rightarrow> u64"] show "of_nat (unat n div 16) = (drop_bit 4 n :: u64)" by simp
qed

lemma digit_words: "ucast (n mod 10 :: u64) = (of_nat (unat n mod 10) :: u8)"
  "unat (n AND 0xF :: u64) = unat n mod 16"
proof -
  have "unat (n mod 10) = unat n mod 10" by (simp add: unat_mod_distrib)
  from arg_cong [OF this, of "of_nat :: nat \<Rightarrow> u8"]
  show "ucast (n mod 10 :: u64) = (of_nat (unat n mod 10) :: u8)" by simp
  show "unat (n AND 0xF :: u64) = unat n mod 16"
    using unat_and_mask [of n 4] by (simp add: mask_eq_exp_minus_1)
qed

interpretation dec: digit_printer 10 "\<lambda>d. of_nat d + chr CHR ''0''" io_printuq_loop
proof
  fix n it buf
  show "10 \<le> unat n \<Longrightarrow> io_printuq_loop n it buf =
      do { buf \<leftarrow> arr_set buf it (of_nat (unat n mod 10) + chr CHR ''0'');
           io_printuq_loop (of_nat (unat n div 10)) (it - 1) buf }"
    by (subst io_printuq_loop.simps) (simp add: word_le_nat_alt of_nat_unat_div digit_words)
  show "unat n < 10 \<Longrightarrow> io_printuq_loop n it buf = Some (n, it, buf)"
    by (subst io_printuq_loop.simps) (simp add: word_le_nat_alt)
qed simp_all

interpretation hex: digit_printer 16 "\<lambda>d. io_hex_char ! d" io_printhq_loop
proof
  fix n it buf
  show "16 \<le> unat n \<Longrightarrow> io_printhq_loop n it buf =
      do { buf \<leftarrow> arr_set buf it (io_hex_char ! (unat n mod 16));
           io_printhq_loop (of_nat (unat n div 16)) (it - 1) buf }"
    by (subst io_printhq_loop.simps) (simp add: word_less_nat_alt of_nat_unat_div digit_words)
  show "unat n < 16 \<Longrightarrow> io_printhq_loop n it buf = Some (n, it, buf)"
    by (subst io_printhq_loop.simps) (simp add: word_less_nat_alt)
qed simp_all

definition dec_str :: "nat \<Rightarrow> u8 list" where
  "dec_str n = map (\<lambda>d. of_nat d + chr CHR ''0'') (digits 10 n)"

definition hex_str :: "nat \<Rightarrow> u8 list" where
  "hex_str n = map (\<lambda>d. io_hex_char ! d) (digits 16 n)"

definition signed_str :: "int \<Rightarrow> u8 list" where
  "signed_str i = (if i < 0 then chr CHR ''-'' # dec_str (nat (- i)) else dec_str (nat i))"

lemma length_digits_u64:
  "length (digits 10 (unat (n :: u64))) \<le> 20" "length (digits 16 (unat n)) \<le> 16"
  using unsigned_less [of n, where 'a = nat] length_digits [of 10 "unat n" 19] length_digits [of 16 "unat n" 15]
  by simp_all

lemma io_printuq_result: "io_printuq callb n w = Some (callb (dec_str (unat n)) w)"
proof -
  from dec.fill_buffer [of n] length_digits_u64(1) [of n] obtain n' it buf where
    r: "io_printuq_loop n 31 (replicate 32 0) = Some (n', it, buf)" "unat it < length buf"
      "unat (31 - it + 1) = length (digits 10 (unat n))"
      "take (length (digits 10 (unat n))) (drop (unat it) (buf[unat it := of_nat (unat n') + chr CHR ''0''])) =
        dec_str (unat n)"
    unfolding dec_str_def by fastforce
  then show ?thesis by (simp add: io_printuq_def del: of_char_of)
qed

lemma io_printhq_result: "io_printhq callb n w = Some (callb (hex_str (unat n)) w)"
proof -
  from hex.fill_buffer [of n] length_digits_u64(2) [of n] obtain n' it buf where
    r: "io_printhq_loop n 31 (replicate 32 0) = Some (n', it, buf)" "unat it < length buf"
      "unat (31 - it + 1) = length (digits 16 (unat n))"
      "take (length (digits 16 (unat n))) (drop (unat it) (buf[unat it := io_hex_char ! unat n'])) =
        hex_str (unat n)"
    unfolding hex_str_def by fastforce
  then show ?thesis by (simp add: io_printhq_def)
qed

lemma unat_uminus_signed:
  fixes n :: i64
  assumes "sint n < 0"
  shows "unat (- n) = nat (- sint n)"
proof -
  have "- n = word_of_int (- sint n)" by simp
  moreover have "- sint n \<le> 2 ^ 63" using sint_greater_eq [of n] by simp
  ultimately have "uint (- n) = - sint n" using assms by (simp only: uint_word_of_int) simp
  then show ?thesis by (simp flip: nat_uint_eq)
qed

lemma io_printiq_result:
  "io_printiq callb n w =
     Some (if sint n < 0
           then let (_, w) = callb [chr CHR ''-''] w; (r, w) = callb (dec_str (nat (- sint n))) w in (r + 1, w)
           else callb (dec_str (nat (sint n))) w)"
proof (cases "sint n < 0")
  case True
  then show ?thesis
    by (simp add: io_printiq_def io_printuq_result unat_uminus_signed Let_def split: prod.splits)
next
  case False
  have "uint n = uint (word_of_int (sint n) :: i64)" by simp
  moreover have "sint n < 2 ^ 63" using sint_less [of n] by simp
  ultimately have "uint n = sint n" using False by (simp only: uint_word_of_int) simp
  then have "unat n = nat (sint n)" by (simp flip: nat_uint_eq)
  with False show ?thesis
    by (simp add: io_printiq_def io_printuq_result split: prod.splits)
qed

section \<open>Well-formed format strings\<close>

text \<open>
  A format string as a list of items, each with the arguments it takes: literal text, \<^verbatim>\<open>%%\<close>, \<^verbatim>\<open>%s\<close>,
  \<^verbatim>\<open>%c\<close> and the integer conversions.  \<open>fmt_bytes\<close> is its text, \<open>fmt_args\<close> its stack slots and \<open>fmt_out\<close>
  what it stands for.
\<close>

datatype num_conv = Signed | Unsigned | Hex
datatype num_arg = Q u64 | D u32 | Z u32
datatype fmt_item = Lit "u8 list" | Percent | Str addr "u8 list" | Chr u32 | Num num_conv num_arg

fun num_val :: "num_arg \<Rightarrow> i64" where
  "num_val (Q v) = v"
| "num_val (D v) = scast v"
| "num_val (Z v) = ucast v"

fun num_size :: "num_arg \<Rightarrow> u8" where
  "num_size (Q v) = chr CHR ''q''"
| "num_size (D v) = chr CHR ''d''"
| "num_size (Z v) = chr CHR ''z''"

fun num_slots :: "num_arg \<Rightarrow> u32 list" where
  "num_slots (Q v) = [ucast v, ucast (drop_bit 32 v)]"
| "num_slots (D v) = [v]"
| "num_slots (Z v) = [v]"

fun conv_char :: "num_conv \<Rightarrow> u8" where
  "conv_char Signed = chr CHR ''i''"
| "conv_char Unsigned = chr CHR ''u''"
| "conv_char Hex = chr CHR ''h''"

fun conv_out :: "num_conv \<Rightarrow> i64 \<Rightarrow> u8 list" where
  "conv_out Signed v = signed_str (sint v)"
| "conv_out Unsigned v = dec_str (unat v)"
| "conv_out Hex v = hex_str (unat v)"

fun fmt_bytes :: "fmt_item \<Rightarrow> u8 list" where
  "fmt_bytes (Lit bs) = bs"
| "fmt_bytes Percent = [chr CHR ''%'', chr CHR ''%'']"
| "fmt_bytes (Str a bs) = [chr CHR ''%'', chr CHR ''s'']"
| "fmt_bytes (Chr v) = [chr CHR ''%'', chr CHR ''c'']"
| "fmt_bytes (Num c v) = [chr CHR ''%'', conv_char c, num_size v]"

fun fmt_args :: "fmt_item \<Rightarrow> u32 list" where
  "fmt_args (Str a bs) = [a]"
| "fmt_args (Chr v) = [v]"
| "fmt_args (Num c v) = num_slots v"
| "fmt_args _ = []"

fun fmt_out :: "fmt_item \<Rightarrow> u8 list" where
  "fmt_out (Lit bs) = bs"
| "fmt_out Percent = [chr CHR ''%'']"
| "fmt_out (Str a bs) = bs"
| "fmt_out (Chr v) = [ucast v]"
| "fmt_out (Num c v) = conv_out c (num_val v)"

fun is_lit :: "fmt_item \<Rightarrow> bool" where
  "is_lit (Lit bs) = True"
| "is_lit _ = False"

text \<open>A literal is not empty, has no terminator and no \<^verbatim>\<open>%\<close>, and no literal follows another; the
  argument of \<^verbatim>\<open>%s\<close> points to the zero-terminated string it names.\<close>

fun fmt_ok :: "mem \<Rightarrow> fmt_item list \<Rightarrow> bool" where
  "fmt_ok m [] = True"
| "fmt_ok m (Lit bs # items) = (bs \<noteq> [] \<and> length bs < 2 ^ 32 \<and> 0 \<notin> set bs \<and> chr CHR ''%'' \<notin> set bs \<and>
     (items = [] \<or> \<not> is_lit (hd items)) \<and> fmt_ok m items)"
| "fmt_ok m (Str a bs # items) = (bytes_at m a (bs @ [0]) \<and> 0 \<notin> set bs \<and> length bs < 2 ^ 32 \<and> fmt_ok m items)"
| "fmt_ok m (_ # items) = fmt_ok m items"

text \<open>The callback that appends what it is given to a buffer.\<close>

definition append_out :: "u8 list io_callback" where
  "append_out bs w = (of_nat (length bs), w @ bs)"

lemma io_scan_run:
  assumes "bytes_at m a (bs @ [c])" and "0 \<notin> set bs" and "chr CHR ''%'' \<notin> set bs"
    and "c = 0 \<or> c = chr CHR ''%''"
  shows "io_scan m a = Some (a + of_nat (length bs))"
  using assms
proof (induction bs arbitrary: a)
  case Nil
  then show ?case by (subst io_scan.simps) auto
next
  case (Cons b bs)
  then show ?case by (subst io_scan.simps) (auto simp: algebra_simps)
qed

lemma strlen_bytes_at:
  assumes "bytes_at m a (bs @ [0])" and "0 \<notin> set bs"
  shows "strlen m a = Some (of_nat (length bs))"
proof -
  have "m (a + of_nat (length bs)) = 0" using assms(1) by (simp add: bytes_at_append)
  moreover have "m (a + of_nat j) \<noteq> 0" if "j < length bs" for j
    using bytes_at_nth [of m a bs j] assms that nth_mem [OF that] by (metis bytes_at_append)
  ultimately show ?thesis using strlen_loop_terminates [of m a "length bs" a] by (simp add: strlen_def)
qed

lemma io_int_arg_slots: "io_int_arg (num_size v) (num_slots v @ args) = Some (Some (num_val v, args))"
proof (cases v)
  case (Q x)
  have "ucast (ucast x :: u32) OR push_bit 32 (ucast (ucast (drop_bit 32 x) :: u32)) = x"
    by (rule bit_word_eqI) (auto simp: bit_simps)
  with Q show ?thesis by (simp add: io_int_arg.simps)
qed (simp_all add: io_int_arg.simps)

lemma io_int_conv_result:
  assumes "m it = num_size v"
  shows "io_int_conv printer callb m start it (num_slots v @ args) w =
    do { (_, w) \<leftarrow> printer callb (num_val v) w; Some (it + 1, args, w) }"
  by (simp add: io_int_conv_def assms io_int_arg_slots)

section \<open>Receivers\<close>

text \<open>
  What the printers need of the callback: from a good state of the receiver it leads to a good state, in which
  the bytes have been delivered, and it makes no difference whether bytes are delivered at once or in pieces.
\<close>

locale receiver =
  fixes callb :: "'w io_callback" and good :: "'w \<Rightarrow> bool" and received :: "'w \<Rightarrow> 'h" and deliver :: "u8 list \<Rightarrow> 'h \<Rightarrow> 'h"
  assumes deliver_Nil: "deliver [] h = h"
    and deliver_append: "deliver (bs @ cs) h = deliver cs (deliver bs h)"
    and receives: "good w \<Longrightarrow> good (snd (callb bs w)) \<and> received (snd (callb bs w)) = deliver bs (received w)"
begin

lemma received:
  assumes "good w" and "callb bs w = (r, w')"
  shows "good w'" "received w' = deliver bs (received w)"
  using receives [OF assms(1), of bs] assms(2) by simp_all

lemma signed_printed:
  assumes "good w"
  shows "\<exists>r w'. io_printiq callb n w = Some (r, w') \<and> good w' \<and> received w' = deliver (signed_str (sint n)) (received w)"
proof (cases "sint n < 0")
  case True
  obtain r1 w1 where c1: "callb [45] w = (r1, w1)" by (cases "callb [45] w")
  obtain r2 w2 where c2: "callb (dec_str (nat (- sint n))) w1 = (r2, w2)" by (cases "callb (dec_str (nat (- sint n))) w1")
  from received [OF assms c1] have w1: "good w1" "received w1 = deliver [45] (received w)" .
  from received [OF w1(1) c2] w1(2) have "good w2" "received w2 = deliver (signed_str (sint n)) (received w)"
    using True deliver_append [of "[45]" "dec_str (nat (- sint n))"] by (simp_all add: signed_str_def)
  then show ?thesis using True by (simp add: io_printiq_result c1 c2)
next
  case False
  obtain r w' where c: "callb (dec_str (nat (sint n))) w = (r, w')" by (cases "callb (dec_str (nat (sint n))) w")
  from received [OF assms c] show ?thesis using False by (simp add: io_printiq_result c signed_str_def)
qed

lemma number_printed:
  assumes "good w"
  shows "\<exists>r w'. (case conv of Signed \<Rightarrow> io_printiq | Unsigned \<Rightarrow> io_printuq | Hex \<Rightarrow> io_printhq) callb n w = Some (r, w') \<and>
    good w' \<and> received w' = deliver (conv_out conv n) (received w)"
proof (cases conv)
  case Signed
  with signed_printed [OF assms, of n] show ?thesis by simp
next
  case Unsigned
  obtain r w' where c: "callb (dec_str (unat n)) w = (r, w')" by (cases "callb (dec_str (unat n)) w")
  from received [OF assms c] Unsigned show ?thesis by (simp add: io_printuq_result c)
next
  case Hex
  obtain r w' where c: "callb (hex_str (unat n)) w = (r, w')" by (cases "callb (hex_str (unat n)) w")
  from received [OF assms c] Hex show ?thesis by (simp add: io_printhq_result c)
qed

text \<open>One round of the loop, on a conversion and on literal text.\<close>

lemma item_conv:
  assumes "bytes_at m it (fmt_bytes i)" and "fmt_ok m [i]" and "\<not> is_lit i" and "good w"
  shows "\<exists>w'. io_vprintf_item callb m it (fmt_args i @ args) w = Some (it + of_nat (length (fmt_bytes i)), args, w') \<and>
    good w' \<and> received w' = deliver (fmt_out i) (received w)"
proof (cases i)
  case (Str a bs)
  with assms have s: "strlen m a = Some (of_nat (length bs))" "unat (of_nat (length bs) :: u32) = length bs"
    "load_bytes m a (length bs) = bs"
    by (auto simp: strlen_bytes_at bytes_at_append bytes_at_load unat_of_nat)
  obtain r w' where c: "callb bs w = (r, w')" by (cases "callb bs w")
  from received [OF assms(4) c] Str assms(1) s show ?thesis by (simp add: io_vprintf_item_def c)
next
  case (Num cv v)
  from assms Num have m: "m it = chr CHR ''%''" "m (it + 1) = conv_char cv" "m (it + 2) = num_size v"
    by (simp_all add: add.commute)
  from number_printed [OF assms(4), of cv "num_val v"] m Num show ?thesis
    by (cases cv) (auto simp: io_vprintf_item_def io_int_conv_result)
next
  case Percent
  with assms(1) have m: "m it = chr CHR ''%''" "m (1 + it) = chr CHR ''%''" "m (it + 1) = chr CHR ''%''"
    by (simp_all add: add.commute)
  obtain r w' where c: "callb [37] w = (r, w')" by (cases "callb [37] w")
  from received [OF assms(4) c] m Percent show ?thesis by (simp add: io_vprintf_item_def c)
next
  case (Chr v)
  with assms(1) have m: "m it = chr CHR ''%''" "m (it + 1) = chr CHR ''c''" by simp_all
  obtain r w' where c: "callb [ucast v] w = (r, w')" by (cases "callb [ucast v] w")
  from received [OF assms(4) c] m Chr show ?thesis by (simp add: io_vprintf_item_def c)
qed (use assms(3) in simp)

lemma item_lit:
  assumes "bytes_at m it (bs @ [c])" and "fmt_ok m [Lit bs]" and "c = 0 \<or> c = chr CHR ''%''" and "good w"
  shows "\<exists>w'. io_vprintf_item callb m it args w = Some (it + of_nat (length bs), args, w') \<and> good w' \<and>
    received w' = deliver bs (received w)"
proof -
  have "io_scan m it = Some (it + of_nat (length bs))"
    using io_scan_run [OF assms(1)] assms(2,3) by simp
  moreover have "unat (of_nat (length bs) :: u32) = length bs" using assms(2) by (simp add: unat_of_nat)
  moreover have "load_bytes m it (length bs) = bs" using assms(1) by (simp add: bytes_at_append bytes_at_load)
  moreover have "m it \<noteq> chr CHR ''%''" using assms(1,2) by (cases bs) auto
  moreover obtain r w' where c: "callb bs w = (r, w')" by (cases "callb bs w")
  ultimately show ?thesis using received [OF assms(4) c] by (simp add: io_vprintf_item_def c)
qed

lemma formatted:
  assumes "bytes_at m it (concat (map fmt_bytes items) @ [0])" and "fmt_ok m items" and "good w"
  shows "\<exists>w'. io_vprintf callb m it (concat (map fmt_args items)) w = Some w' \<and> good w' \<and>
    received w' = deliver (concat (map fmt_out items)) (received w)"
  unfolding io_vprintf_def
  using assms
proof (induction items arbitrary: it w)
  case Nil
  then show ?case by (subst io_vprintf_loop.simps) (simp add: deliver_Nil)
next
  case (Cons i items)
  let ?next = "it + of_nat (length (fmt_bytes i))"
  have b: "bytes_at m it (fmt_bytes i)" "bytes_at m ?next (concat (map fmt_bytes items) @ [0])"
    using Cons.prems(1) by (simp_all add: bytes_at_append add.assoc)
  have ok: "fmt_ok m [i]" "fmt_ok m items" using Cons.prems(2) by (cases i; simp)+
  have "\<exists>w'. io_vprintf_item callb m it (fmt_args i @ concat (map fmt_args items)) w =
      Some (?next, concat (map fmt_args items), w') \<and> good w' \<and> received w' = deliver (fmt_out i) (received w)"
  proof (cases "is_lit i")
    case False
    with b ok Cons.prems(3) show ?thesis by (intro item_conv)
  next
    case True
    then obtain bs where i: "i = Lit bs" by (cases i) auto
    have "\<exists>c cs. concat (map fmt_bytes items) @ [0] = c # cs \<and> (c = 0 \<or> c = chr CHR ''%'')"
      using Cons.prems(2) i by (cases items; cases "hd items") auto
    then obtain c where "m ?next = c" "c = 0 \<or> c = chr CHR ''%''" using b(2) by auto
    with b(1) i item_lit [of m it bs c w] ok Cons.prems(3) show ?thesis by (simp add: bytes_at_append)
  qed
  then obtain w1 where step: "io_vprintf_item callb m it (fmt_args i @ concat (map fmt_args items)) w =
      Some (?next, concat (map fmt_args items), w1)" and w1: "good w1" "received w1 = deliver (fmt_out i) (received w)" by blast
  have "m it \<noteq> 0" using b(1) ok(1) by (cases i) (auto simp: neq_Nil_conv)
  with step Cons.IH [OF b(2) ok(2) w1(1)] w1(2) show ?case
    by (subst io_vprintf_loop.simps) (auto simp: deliver_append)
qed

end

interpretation buffer: receiver append_out "\<lambda>_. True" "\<lambda>w. w" "\<lambda>bs w. w @ bs"
  by unfold_locales (simp_all add: append_out_def)

section \<open>Properties\<close>

text \<open>
  \<^verbatim>\<open>io_printuq\<close> never leaves its buffer and passes the callback the decimal notation of its
  argument: at most 20 digits, no superfluous leading zero, and reading them back gives the number.
\<close>

lemma io_printuq_decimal:
  "\<exists>ds. io_printuq callb n w = Some (callb (map (\<lambda>d. of_nat d + chr CHR ''0'') ds) w) \<and>
     set ds \<subseteq> {..<10} \<and> length ds \<le> 20 \<and> (hd ds = 0 \<longleftrightarrow> n = 0) \<and>
     foldl (\<lambda>v d. v * 10 + d) 0 ds = unat n"
proof (intro exI conjI)
  show "io_printuq callb n w = Some (callb (map (\<lambda>d. of_nat d + chr CHR ''0'') (digits 10 (unat n))) w)"
    by (simp add: io_printuq_result dec_str_def)
  have "hd (digits 10 k) = 0 \<longleftrightarrow> k = 0" for k
    by (induction "10::nat" k rule: digits.induct) (subst digits.simps, auto simp: hd_append)
  then show "hd (digits 10 (unat n)) = 0 \<longleftrightarrow> n = 0" by (simp add: unat_eq_zero)
qed (use digits_less [of 10] length_digits_u64 in \<open>auto simp: digits_value\<close>)

text \<open>
  \<^verbatim>\<open>io_printhq\<close> never leaves its buffer and passes the callback the hexadecimal notation of its
  argument in upper case: at most 16 digits, and reading them back gives the number.
\<close>

lemma io_printhq_hexadecimal:
  "\<exists>ds. io_printhq callb n w = Some (callb (map (\<lambda>d. io_hex_char ! d) ds) w) \<and>
     set ds \<subseteq> {..<16} \<and> length ds \<le> 16 \<and> foldl (\<lambda>v d. v * 16 + d) 0 ds = unat n"
proof (intro exI conjI)
  show "io_printhq callb n w = Some (callb (map (\<lambda>d. io_hex_char ! d) (digits 16 (unat n))) w)"
    by (simp add: io_printhq_result hex_str_def)
qed (use digits_less [of 16] length_digits_u64 in \<open>auto simp: digits_value\<close>)

text \<open>
  \<^verbatim>\<open>io_vprintf\<close> returns on every well-formed format string with matching arguments, and the bytes
  it passes on are the literal text with each conversion replaced by the string, the character or the
  number it stands for.
\<close>

lemma io_vprintf_formats:
  assumes "bytes_at m fmt (concat (map fmt_bytes items) @ [0])" and "fmt_ok m items"
  shows "io_vprintf append_out m fmt (concat (map fmt_args items)) w =
    Some (w @ concat (map fmt_out items))"
  using buffer.formatted [OF assms] by auto

definition sample_fmt :: "fmt_item list" where
  "sample_fmt = [Lit [chr CHR ''x''], Num Hex (D 0xBEEF), Percent, Str 100 [chr CHR ''o'', chr CHR ''k'']]"

definition sample_fmt_mem :: mem where
  "sample_fmt_mem = store_bytes (store_bytes (\<lambda>_. 0) 10 (map chr ''x%hd%%%s'')) 100 (map chr ''ok'')"

lemma sample_fmt_result:
  "bytes_at sample_fmt_mem 10 (concat (map fmt_bytes sample_fmt) @ [0])" "fmt_ok sample_fmt_mem sample_fmt"
  "concat (map fmt_args sample_fmt) = [0xBEEF, 100]" "concat (map fmt_out sample_fmt) = map chr ''xBEEF%ok''"
proof -
  have "hex_str 0xBEEF = map chr ''BEEF''" by (simp add: hex_str_def digits.simps io_hex_char_def)
  moreover have "unat (scast (0xBEEF :: u32) :: i64) = 0xBEEF" by simp
  ultimately show "concat (map fmt_out sample_fmt) = map chr ''xBEEF%ok''" by (simp add: sample_fmt_def)
qed (simp_all add: sample_fmt_def sample_fmt_mem_def)

lemma io_vprintf_formats_witness:
  "io_vprintf append_out sample_fmt_mem 10 [0xBEEF, 100] [] = Some (map chr ''xBEEF%ok'')"
  using io_vprintf_formats [OF sample_fmt_result(1,2), of "[]"] by (simp add: sample_fmt_result(3,4))

lemma mod_neg_small:
  assumes "- n \<le> x" and "x < (0::int)"
  shows "x mod n = x + n"
proof -
  have "(x + n) mod n = x + n" using assms by (intro mod_pos_pos_trivial) simp_all
  then show ?thesis by simp
qed

lemma sign_extension:
  assumes "2 ^ 31 \<le> unat (v :: u32)"
  shows "unat (scast v :: i64) = unat v + (2 ^ 64 - 2 ^ 32)"
proof -
  have "uint v = uint (word_of_int (sint v) :: u32)" by simp
  then have u: "uint v = sint v mod 2 ^ 32" by (simp only: uint_word_of_int) simp
  have r: "- (2 ^ 31) \<le> sint v" "sint v < 2 ^ 31" using sint_greater_eq [of v] sint_less [of v] by simp_all
  have "2 ^ 31 \<le> uint v" using assms by (simp flip: nat_uint_eq)
  with u r have neg: "sint v < 0" by (cases "sint v < 0") simp_all
  with u r have v: "uint v = sint v + 2 ^ 32" by (simp add: mod_neg_small)
  have "uint (scast v :: i64) = uint (word_of_int (sint v) :: i64)" by simp
  then have "uint (scast v :: i64) = sint v + 2 ^ 64" using neg r by (simp only: uint_word_of_int) (simp add: mod_neg_small)
  then have "uint (scast v :: i64) = uint v + (2 ^ 64 - 2 ^ 32)" using v by simp
  then show ?thesis by (simp add: unat_eq_nat_uint nat_add_distrib del: nat_uint_eq)
qed

text \<open>
  C32 The unsigned conversions \<^verbatim>\<open>%ud\<close> and \<^verbatim>\<open>%hd\<close> read an \<^verbatim>\<open>i32\<close> and so extend the sign: an argument
  of \<open>2\<^sup>3\<^sup>1\<close> or more is printed, in decimal or in hexadecimal digits, as the 64-bit number with its upper half set.
\<close>

theorem io_unsigned_sign_extends:
  assumes "2 ^ 31 \<le> unat v" and "bytes_at m ud [chr CHR ''%'', chr CHR ''u'', chr CHR ''d'', 0]"
    and "bytes_at m hex [chr CHR ''%'', chr CHR ''h'', chr CHR ''d'', 0]"
  shows "io_vprintf append_out m ud [v] w = Some (w @ dec_str (unat v + (2 ^ 64 - 2 ^ 32))) \<and>
    io_vprintf append_out m hex [v] w = Some (w @ hex_str (unat v + (2 ^ 64 - 2 ^ 32)))"
  using buffer.formatted [of m ud "[Num Unsigned (D v)]" w] buffer.formatted [of m hex "[Num Hex (D v)]" w]
    sign_extension [OF assms(1)] assms(2,3) by simp

text \<open>
  A format string that ends in a single \<^verbatim>\<open>%\<close> is not terminated: its terminator is taken for a
  conversion, printed, and the bytes that follow it in memory are formatted too.
\<close>

lemma io_vprintf_trailing_percent:
  assumes "bytes_at m fmt [chr CHR ''%'', 0, chr CHR ''!'', 0]"
  shows "io_vprintf append_out m fmt [] w = Some (w @ [chr CHR ''%'', 0, chr CHR ''!''])"
proof -
  have "fmt + 1 + 1 = fmt + 2" "fmt + 2 + 1 = fmt + 3" by simp_all
  with assms have m: "m fmt = 37" "m (fmt + 1) = 0" "m (fmt + 2) = 33" "m (fmt + 3) = 0"
    by (auto simp: add.assoc)
  have lb: "load_bytes m fmt 2 = [37, 0]" using m by (simp add: numeral_2_eq_2)
  have "io_vprintf_item append_out m fmt [] w = Some (fmt + 2, [], w @ [37, 0])"
    using m lb by (simp add: io_vprintf_item_def append_out_def)
  moreover have "io_vprintf_item append_out m (fmt + 2) [] (w @ [37, 0]) = Some (fmt + 3, [], w @ [37, 0, 33])"
    using buffer.item_lit [of m "fmt + 2" "[33]" 0] m by (simp add: add.commute [of 3])
  ultimately show ?thesis using m by (simp add: io_vprintf_def io_vprintf_loop.simps)
qed

theorem io_unsigned_sign_extends_witness:
  "io_vprintf append_out (store_bytes (store_bytes (\<lambda>_. 0) 10 (map chr ''%ud'')) 20 (map chr ''%hd'')) 20 [0xFFFFFFFF] [] =
     Some (hex_str (unat (0xFFFFFFFF :: u32) + (2 ^ 64 - 2 ^ 32)))"
  using io_unsigned_sign_extends [where v = "0xFFFFFFFF" and ud = 10 and hex = 20 and w = "[]" and
    m = "store_bytes (store_bytes (\<lambda>_. 0) 10 (map chr ''%ud'')) 20 (map chr ''%hd'')"] by simp

lemma io_vprintf_trailing_percent_witness:
  "io_vprintf append_out (store_bytes (\<lambda>_. 0) 10 [chr CHR ''%'', 0, chr CHR ''!'']) 10 [] [] =
     Some [chr CHR ''%'', 0, chr CHR ''!'']"
  using io_vprintf_trailing_percent [of "store_bytes (\<lambda>_. 0) 10 [chr CHR ''%'', 0, chr CHR ''!'']" 10 "[]"] by simp

end
