(* ===== verification/Ppm.thy ===== *)
theory Ppm
  imports Io
begin

text \<open>
  The image loader \<^verbatim>\<open>libk/ppm.c\<close> on the byte-addressed memory.  The parser moves a pointer towards the
  end of the data; its two loops stop at the end.  \<^verbatim>\<open>ppm_load\<close> returns the error code, the image
  record if it was written, and the memory with the decoded pixels.

  The lemmas show that a binary PPM file with a plain header decodes to its pixels, that the loader
  reads nothing outside the file when the size of the image does not overflow, and what happens when
  it does.
\<close>

section \<open>Definitions\<close>

definition PPM_MAGIC :: u16 where "PPM_MAGIC = 0x3650"

record img_t =
  img_width :: u32
  img_height :: u32
  img_px_count :: usz
  img_px_data :: addr

definition isspace :: "u8 \<Rightarrow> u8" where
  "isspace c = (if c = chr CHR '' '' \<or> c = 9 \<or> c = 13 \<or> c = 10 then 1 else 0)"

definition isdigit :: "u8 \<Rightarrow> u8" where
  "isdigit c = (if c \<ge> chr CHR ''0'' \<and> c \<le> chr CHR ''9'' then 1 else 0)"

function consume_comment :: "mem \<Rightarrow> addr \<Rightarrow> addr \<Rightarrow> addr" where
  "consume_comment m it e = (if it < e \<and> m it \<noteq> 10 then consume_comment m (it + 1) e else it)"
  by pat_completeness auto
termination
  by (relation "measure (\<lambda>(m, it, e). unat e - unat it)")
    (auto simp: unat_succ_less, simp add: word_less_nat_alt)

declare consume_comment.simps [simp del]

lemma consume_comment_le: "unat it \<le> unat (consume_comment m it e)"
proof (induction m it e rule: consume_comment.induct)
  case (1 m it e)
  then show ?case by (subst consume_comment.simps) (auto simp: unat_succ_less)
qed

lemma consume_comment_progress:
  assumes "it < e" and "m it \<noteq> 10"
  shows "unat it < unat (consume_comment m it e)"
  using consume_comment_le [of "it + 1" m e] assms
  by (subst consume_comment.simps) (simp add: unat_succ_less)

function consume_whitespace_loop :: "mem \<Rightarrow> addr \<Rightarrow> addr \<Rightarrow> u8 \<Rightarrow> u8 \<times> addr" where
  "consume_whitespace_loop m it e success =
     (if it < e then
        if isspace (m it) \<noteq> 0 then consume_whitespace_loop m (it + 1) e 1
        else if m it = chr CHR ''#'' then consume_whitespace_loop m (consume_comment m it e) e 1
        else (success, it)
      else (success, it))"
  by pat_completeness auto
termination
proof (relation "measure (\<lambda>(m, it, e, s). unat e - unat it)")
  fix m :: mem and it e :: addr and s :: u8
  assume "it < e"
  then show "((m, it + 1, e, 1), m, it, e, s) \<in> measure (\<lambda>(m, it, e, s). unat e - unat it)"
    by (simp add: unat_succ_less) (simp add: word_less_nat_alt)
  assume "m it = chr CHR ''#''"
  with consume_comment_progress [OF \<open>it < e\<close>, of m] \<open>it < e\<close>
  show "((m, consume_comment m it e, e, 1), m, it, e, s) \<in> measure (\<lambda>(m, it, e, s). unat e - unat it)"
    by (simp add: word_less_nat_alt)
qed simp

definition consume_whitespace :: "mem \<Rightarrow> addr \<Rightarrow> addr \<Rightarrow> u8 \<times> addr" where
  "consume_whitespace m it e = consume_whitespace_loop m it e 0"

function consume_value_loop :: "mem \<Rightarrow> addr \<Rightarrow> addr \<Rightarrow> addr \<Rightarrow> usz \<times> addr" where
  "consume_value_loop m start it e =
     (if it < e then
        if isdigit (m it) = 0 then (it - start, it)
        else consume_value_loop m start (it + 1) e
      else (it - start, it))"
  by pat_completeness auto
termination
  by (relation "measure (\<lambda>(m, start, it, e). unat e - unat it)")
    (auto simp: unat_succ_less, simp add: word_less_nat_alt)

definition consume_value :: "mem \<Rightarrow> addr \<Rightarrow> addr \<Rightarrow> usz \<times> addr" where
  "consume_value m it e = consume_value_loop m it it e"

function parse_uint32_loop :: "mem \<Rightarrow> addr \<Rightarrow> usz \<Rightarrow> usz \<Rightarrow> u32 \<Rightarrow> u32" where
  "parse_uint32_loop m str i len val =
     (if i < len then
        let val = val * 10; val = val + (ucast (m (str + i)) - 48)
        in parse_uint32_loop m str (i + 1) len val
      else val)"
  by pat_completeness auto
termination
  by (relation "measure (\<lambda>(m, str, i, len, val). unat len - unat i)")
    (auto simp: unat_succ_less, simp add: word_less_nat_alt)

definition parse_uint32 :: "mem \<Rightarrow> addr \<Rightarrow> usz \<Rightarrow> u32" where
  "parse_uint32 m str len = parse_uint32_loop m str 0 len 0"

declare consume_whitespace_loop.simps [simp del] consume_value_loop.simps [simp del]
  parse_uint32_loop.simps [simp del]

text \<open>A number followed by white space; \<^term>\<open>None\<close> is \<^verbatim>\<open>return ERR_FMTINVAL\<close>.\<close>

definition ppm_field :: "mem \<Rightarrow> addr \<Rightarrow> addr \<Rightarrow> (u32 \<times> addr) option" where
  "ppm_field m it e =
     (let str = it; (len, it) = consume_value m it e
      in if len = 0 then None
         else let (ok, it) = consume_whitespace m it e
              in if ok = 0 then None else Some (parse_uint32 m str len, it))"

text \<open>The header: width, height and where the pixels start.\<close>

definition ppm_header :: "mem \<Rightarrow> addr \<Rightarrow> usz \<Rightarrow> (u32 \<times> u32 \<times> addr) option" where
  "ppm_header m data len =
     (let it = data; e = it + len
      in if it + 2 > e \<or> load16 m it \<noteq> PPM_MAGIC then None
         else let it = it + 2; (ok, it) = consume_whitespace m it e
              in if ok = 0 then None
                 else do { (w, it) \<leftarrow> ppm_field m it e;
                           (h, it) \<leftarrow> ppm_field m it e;
                           (clrmax, it) \<leftarrow> ppm_field m it e;
                           if clrmax \<noteq> 255 then None
                           else if it + w * h * 3 > e then None
                           else Some (w, h, it) })"

definition ppm_pixel :: "u8 \<Rightarrow> u8 \<Rightarrow> u8 \<Rightarrow> u32" where
  "ppm_pixel r g b = push_bit 24 0xFF OR push_bit 16 (ucast r) OR push_bit 8 (ucast g) OR ucast b"

definition ppm_pixels :: "addr \<Rightarrow> usz \<Rightarrow> addr \<times> mem \<Rightarrow> (addr \<times> mem) option" where
  "ppm_pixels out_data px_count s =
     for_range 0 px_count
       (\<lambda>i (it, m). Some (it + 3,
          store32 m (out_data + 4 * i) (ppm_pixel (m it) (m (it + 1)) (m (it + 2))))) s"

definition ppm_load :: "mem \<Rightarrow> addr \<Rightarrow> usz \<Rightarrow> addr \<Rightarrow> (err_t \<times> img_t option \<times> mem) option" where
  "ppm_load m data len out_data =
     (case ppm_header m data len of
        None \<Rightarrow> Some (ERR_FMTINVAL, None, m)
      | Some (w, h, it) \<Rightarrow>
          let px_count = w * h;
              img = \<lparr>img_width = w, img_height = h, img_px_count = px_count, img_px_data = out_data\<rparr>
          in if out_data = 0 then Some (OK, Some img, m)
             else do { (it, m) \<leftarrow> ppm_pixels out_data px_count (it, m);
                       Some (OK, Some img, m) })"

section \<open>Parsing\<close>

text \<open>The bytes \<open>bs\<close> lie at \<open>it\<close>, before the end \<open>e\<close> of the data.\<close>

definition span :: "mem \<Rightarrow> addr \<Rightarrow> addr \<Rightarrow> u8 list \<Rightarrow> bool" where
  "span m it e bs \<longleftrightarrow> bytes_at m it bs \<and> unat it + length bs = unat e"

lemma span_Nil [simp]: "span m it e [] \<longleftrightarrow> it = e"
  by (auto simp: span_def word_unat_eq_iff)

lemma span_Cons: "span m it e (b # bs) \<longleftrightarrow> it < e \<and> m it = b \<and> span m (it + 1) e bs"
proof -
  have "unat it + Suc (length bs) = unat e \<longleftrightarrow> it < e \<and> unat (it + 1) + length bs = unat e"
  proof (cases "it < e")
    case True
    then show ?thesis by (simp add: unat_succ_less)
  next
    case False
    then show ?thesis by (auto simp: word_less_nat_alt)
  qed
  then show ?thesis by (auto simp: span_def)
qed

lemma span_append: "span m it e (xs @ ys) \<Longrightarrow> span m (it + of_nat (length xs)) e ys \<and> bytes_at m it xs"
proof (induction xs arbitrary: it)
  case (Cons x xs)
  from Cons.prems Cons.IH [of "it + 1"] show ?case by (simp add: span_Cons add.assoc)
qed simp

lemma consume_whitespace_span:
  assumes "span m it e (ws @ rest)" and "\<forall>c \<in> set ws. isspace c \<noteq> 0"
    and "rest = [] \<or> isspace (hd rest) = 0 \<and> hd rest \<noteq> chr CHR ''#''"
  shows "consume_whitespace_loop m it e s = (if ws = [] then s else 1, it + of_nat (length ws))"
  using assms
proof (induction ws arbitrary: it s)
  case Nil
  then show ?case by (cases rest) (subst consume_whitespace_loop.simps; simp add: span_Cons)+
next
  case (Cons c ws)
  then show ?case by (subst consume_whitespace_loop.simps) (simp add: span_Cons algebra_simps)
qed

lemma consume_value_span:
  assumes "span m it e (ds @ rest)" and "\<forall>c \<in> set ds. isdigit c \<noteq> 0"
    and "rest = [] \<or> isdigit (hd rest) = 0"
  shows "consume_value_loop m start it e = (it + of_nat (length ds) - start, it + of_nat (length ds))"
  using assms
proof (induction ds arbitrary: it)
  case Nil
  then show ?case by (cases rest) (subst consume_value_loop.simps; simp add: span_Cons)+
next
  case (Cons c ds)
  then show ?case by (subst consume_value_loop.simps) (simp add: span_Cons algebra_simps)
qed

lemma parse_uint32_loop_foldl:
  "parse_uint32_loop m str i len val =
     foldl (\<lambda>v b. v * 10 + (ucast b - 48)) val (load_bytes m (str + i) (unat len - unat i))"
proof (induction m str i len val rule: parse_uint32_loop.induct)
  case (1 m str i len val)
  show ?case
  proof (cases "i < len")
    case True
    then have "unat len - unat i = Suc (unat len - unat (i + 1))"
      by (simp add: unat_succ_less) (simp add: word_less_nat_alt Suc_diff_Suc)
    with True "1.IH" show ?thesis by (subst parse_uint32_loop.simps) (simp add: algebra_simps)
  next
    case False
    then show ?thesis by (subst parse_uint32_loop.simps) (simp add: word_less_nat_alt)
  qed
qed

lemma digit_value:
  assumes "d < 10"
  shows "ucast (of_nat d + chr CHR ''0'') - 48 = (of_nat d :: u32)" "isdigit (of_nat d + chr CHR ''0'') = 1"
proof -
  have "d \<in> {0..<10}" using assms by simp
  then have "d = 0 \<or> d = 1 \<or> d = 2 \<or> d = 3 \<or> d = 4 \<or> d = 5 \<or> d = 6 \<or> d = 7 \<or> d = 8 \<or> d = 9" by auto
  then show "ucast (of_nat d + chr CHR ''0'') - 48 = (of_nat d :: u32)" "isdigit (of_nat d + chr CHR ''0'') = 1"
    by (elim disjE; simp add: isdigit_def)+
qed

lemma foldl_digits:
  assumes "\<forall>d \<in> set ds. d < 10"
  shows "foldl (\<lambda>v b. v * 10 + (ucast b - 48)) (of_nat v :: u32) (map (\<lambda>d. of_nat d + chr CHR ''0'') ds) =
    of_nat (foldl (\<lambda>v d. v * 10 + d) v ds)"
  using assms
proof (induction ds arbitrary: v)
  case (Cons d ds)
  from Cons.IH [of "v * 10 + d"] Cons.prems show ?case
    using digit_value(1) [of d] by simp
qed simp

lemma parse_dec_str:
  assumes "bytes_at m str (dec_str n)" and "length (dec_str n) < 2 ^ 32"
  shows "parse_uint32 m str (of_nat (length (dec_str n))) = of_nat n"
proof -
  have "unat (of_nat (length (dec_str n)) :: u32) = length (dec_str n)" using assms(2) by (simp add: unat_of_nat)
  then have "parse_uint32 m str (of_nat (length (dec_str n))) =
      foldl (\<lambda>v b. v * 10 + (ucast b - 48)) (of_nat 0) (dec_str n)"
    unfolding parse_uint32_def parse_uint32_loop_foldl using bytes_at_load [OF assms(1)] by simp
  also have "\<dots> = of_nat n"
    unfolding dec_str_def by (subst foldl_digits) (auto simp: digits_less digits_value)
  finally show ?thesis .
qed

section \<open>The header and the pixels\<close>

definition spaces :: "u8 list \<Rightarrow> bool" where
  "spaces ws \<longleftrightarrow> ws \<noteq> [] \<and> (\<forall>c \<in> set ws. isspace c \<noteq> 0)"

definition no_space :: "u8 list \<Rightarrow> bool" where
  "no_space rest \<longleftrightarrow> rest = [] \<or> isspace (hd rest) = 0 \<and> hd rest \<noteq> chr CHR ''#''"

lemma digit_not_space: "isdigit c \<noteq> 0 \<Longrightarrow> isspace c = 0" "isdigit c \<noteq> 0 \<Longrightarrow> c \<noteq> chr CHR ''#''"
  by (auto simp: isdigit_def isspace_def)

lemma dec_str_digits: "c \<in> set (dec_str n) \<Longrightarrow> isdigit c = 1"
  using digit_value(2) digits_less [of 10 _ n] by (auto simp: dec_str_def)

lemma dec_str_nonempty [simp]: "dec_str n \<noteq> []"
  by (simp add: dec_str_def)

lemma no_space_dec: "no_space (dec_str n @ rest)"
  using digit_not_space [of "hd (dec_str n)"] dec_str_digits [of "hd (dec_str n)" n]
  by (simp add: no_space_def)

lemma ppm_field_span:
  assumes S: "span m it e (dec_str n @ ws @ rest)" and ws: "spaces ws" "no_space rest"
  shows "ppm_field m it e = Some (of_nat n, it + of_nat (length (dec_str n @ ws))) \<and>
    span m (it + of_nat (length (dec_str n @ ws))) e rest"
proof -
  let ?d = "dec_str n" and ?it = "it + of_nat (length (dec_str n))"
  have len: "length ?d < 2 ^ 32" "0 < length ?d"
    using S unat_bound32 [of e] by (auto simp: span_def simp del: unat_bound32)
  have "isdigit (hd (ws @ rest)) = 0" using ws(1) digit_not_space(1) [of "hd ws"] by (auto simp: spaces_def)
  then have v: "consume_value m it e = (of_nat (length ?d), ?it)"
    using consume_value_span [OF S, of it] dec_str_digits [of _ n] ws(1) by (auto simp: consume_value_def spaces_def)
  have nz: "(of_nat (length ?d) :: u32) \<noteq> 0"
    using of_nat_Suc_neq_0 [of "length ?d - 1", where 'a = 32] len by simp
  have S': "span m ?it e (ws @ rest)" and b: "bytes_at m it ?d" using span_append [OF S] by simp_all
  have w: "consume_whitespace m ?it e = (1, ?it + of_nat (length ws))"
    using consume_whitespace_span [OF S', of 0] ws by (simp add: consume_whitespace_def spaces_def no_space_def)
  have "ppm_field m it e = Some (of_nat n, ?it + of_nat (length ws))"
    using v w nz parse_dec_str [OF b len(1)] by (simp add: ppm_field_def)
  with span_append [OF S'] show ?thesis by (simp add: add.assoc)
qed

definition ppm_file :: "nat \<Rightarrow> nat \<Rightarrow> u8 list \<Rightarrow> u8 list \<Rightarrow> u8 list \<Rightarrow> u8 list \<Rightarrow> u8 list \<Rightarrow> u8 list" where
  "ppm_file w h ws1 ws2 ws3 ws4 px =
     [chr CHR ''P'', chr CHR ''6''] @ ws1 @ dec_str w @ ws2 @ dec_str h @ ws3 @ dec_str 255 @ ws4 @ px"

lemma ppm_header_fields:
  assumes S: "span m data (data + len) (ppm_file w h ws1 ws2 ws3 ws4 px)"
    and ws: "spaces ws1" "spaces ws2" "spaces ws3" "spaces ws4" "no_space px"
  shows "\<exists>it. ppm_header m data len =
      (if it + of_nat w * of_nat h * 3 > data + len then None else Some (of_nat w, of_nat h, it)) \<and>
    span m it (data + len) px"
proof -
  let ?e = "data + len"
  have S0: "span m (data + 1 + 1) ?e (ws1 @ dec_str w @ ws2 @ dec_str h @ ws3 @ dec_str 255 @ ws4 @ px)"
    and mg: "m data = 0x50" "m (data + 1) = 0x36" "data < ?e" "data + 1 < ?e"
    using S by (simp_all add: ppm_file_def span_Cons)
  have le: "\<not> ?e < data + 2" using mg(4) unat_succ_less [OF mg(4)] by (simp add: word_less_nat_alt add.commute)
  have mag: "load16 m data = PPM_MAGIC" using mg(1,2) by (simp add: load16_def PPM_MAGIC_def)
  let ?i1 = "data + 1 + 1 + of_nat (length ws1)"
  have w1: "consume_whitespace m (data + 1 + 1) ?e = (1, ?i1)"
    using consume_whitespace_span [OF S0, of 0] ws(1) no_space_dec [of w]
    by (auto simp: consume_whitespace_def spaces_def no_space_def)
  from span_append [OF S0] have S1: "span m ?i1 ?e (dec_str w @ ws2 @ dec_str h @ ws3 @ dec_str 255 @ ws4 @ px)" by simp
  from ppm_field_span [OF S1 ws(2)] no_space_dec [of h] obtain i2 where
    f1: "ppm_field m ?i1 ?e = Some (of_nat w, i2)" and S2: "span m i2 ?e (dec_str h @ ws3 @ dec_str 255 @ ws4 @ px)" by simp
  from ppm_field_span [OF S2 ws(3)] no_space_dec [of 255] obtain i3 where
    f2: "ppm_field m i2 ?e = Some (of_nat h, i3)" and S3: "span m i3 ?e (dec_str 255 @ ws4 @ px)" by simp
  from ppm_field_span [OF S3 ws(4,5)] obtain i4 where
    f3: "ppm_field m i3 ?e = Some (255, i4)" and S4: "span m i4 ?e px" by auto
  have "data + 1 + 1 = data + 2" by simp
  note w1 [unfolded this] f1 [unfolded this]
  then have "ppm_header m data len =
      (if ?e < i4 + of_nat w * of_nat h * 3 then None else Some (of_nat w, of_nat h, i4))"
    using le mag f2 f3 by (simp add: ppm_header_def Let_def)
  with S4 show ?thesis by blast
qed

lemma span_end:
  assumes "span m it e bs"
  shows "it + of_nat (length bs) = e"
proof -
  have "unat it + length bs = unat e" using assms by (simp add: span_def)
  from arg_cong [OF this, of "of_nat :: nat \<Rightarrow> addr"] show ?thesis by simp
qed

lemma ppm_header_span:
  assumes S: "span m data (data + len) (ppm_file w h ws1 ws2 ws3 ws4 px)"
    and ws: "spaces ws1" "spaces ws2" "spaces ws3" "spaces ws4" "no_space px"
    and px: "length px = 3 * (w * h)"
  shows "\<exists>it. ppm_header m data len = Some (of_nat w, of_nat h, it) \<and> span m it (data + len) px"
proof -
  from ppm_header_fields [OF S ws] obtain it where
    h: "ppm_header m data len =
      (if it + of_nat w * of_nat h * 3 > data + len then None else Some (of_nat w, of_nat h, it))"
    and it: "span m it (data + len) px" by blast
  have "(of_nat w * of_nat h * 3 :: u32) = of_nat (length px)" by (simp add: px)
  with span_end [OF it] have "it + of_nat w * of_nat h * 3 = data + len" by simp
  with h it show ?thesis by auto
qed

lemma ppm_pixels_decode:
  assumes S: "bytes_at m src px" and len: "length px = 3 * n" "n < 2 ^ 30"
    and A: "\<forall>i<n. away (out + 4 * of_nat i) 4 src (3 * n)"
  shows "\<exists>it m'. ppm_pixels out (of_nat n) (src, m) = Some (it, m') \<and>
    (\<forall>k<n. load32 m' (out + 4 * of_nat k) = ppm_pixel (px ! (3 * k)) (px ! (3 * k + 1)) (px ! (3 * k + 2)))"
proof -
  let ?pix = "\<lambda>k. ppm_pixel (px ! (3 * k)) (px ! (3 * k + 1)) (px ! (3 * k + 2))"
  let ?P = "\<lambda>i (it, m'). it = src + 3 * i \<and> (\<forall>j < 3 * n. m' (src + of_nat j) = px ! j) \<and>
    (\<forall>k < unat i. load32 m' (out + 4 * of_nat k) = ?pix k)"
  have n: "unat (of_nat n :: usz) = n" using len(2) by (simp add: unat_of_nat)
  have "\<exists>s'. ppm_pixels out (of_nat n) (src, m) = Some s' \<and> ?P (of_nat n) s'"
    unfolding ppm_pixels_def
  proof (rule for_range_rule)
    show "?P 0 (src, m)" using bytes_at_nth [OF S] len(1) by simp
  next
    fix i :: usz and s assume i: "i < of_nat n" and P: "?P i s"
    obtain it m' where s: "s = (it, m')" by (cases s)
    have un: "unat i < n" using i n by (simp add: word_less_nat_alt)
    have ii: "i = of_nat (unat i)" by simp
    have rd: "m' (src + of_nat j) = px ! j" if "j < 3 * n" for j using P s that by simp
    have b: "m' it = px ! (3 * unat i)" "m' (it + 1) = px ! (3 * unat i + 1)" "m' (it + 2) = px ! (3 * unat i + 2)"
    proof -
      have "src + of_nat (3 * unat i) = it" "src + of_nat (3 * unat i + 1) = it + 1"
        "src + of_nat (3 * unat i + 2) = it + 2" using P s by simp_all
      note eq = this
      show "m' it = px ! (3 * unat i)" "m' (it + 1) = px ! (3 * unat i + 1)" "m' (it + 2) = px ! (3 * unat i + 2)"
        using rd [of "3 * unat i", unfolded eq] rd [of "3 * unat i + 1", unfolded eq]
          rd [of "3 * unat i + 2", unfolded eq] un by simp_all
    qed
    let ?m = "store32 m' (out + 4 * i) (?pix (unat i))"
    have "?m (src + of_nat j) = px ! j" if "j < 3 * n" for j
      using store32_away [OF A [rule_format, OF un] that, of m' "?pix (unat i)"] rd [OF that] by simp
    moreover have "load32 ?m (out + 4 * of_nat k) = ?pix k" if "k < Suc (unat i)" for k
    proof (cases "k = unat i")
      case True
      then show ?thesis using load32_store32 [of m' "out + 4 * i"] by simp
    next
      case False
      with that have k: "k < unat i" by simp
      have "away (out + 4 * of_nat (unat i)) 4 (out + 4 * of_nat k) 4"
        by (rule dwords_away [of _ n]) (use un k len(2) in simp_all)
      then have "\<forall>j<4. ?m (out + 4 * of_nat k + of_nat j) = m' (out + 4 * of_nat k + of_nat j)"
        using store32_away [of "out + 4 * i" "out + 4 * of_nat k" 4] by simp
      from load32_cong [OF this] show ?thesis using P s k by simp
    qed
    ultimately show "\<exists>s'. (case s of (it, m) \<Rightarrow> Some (it + 3,
        store32 m (out + 4 * i) (ppm_pixel (m it) (m (it + 1)) (m (it + 2))))) = Some s' \<and> ?P (i + 1) s'"
      using s P b unat_succ_less [OF i] by (simp add: algebra_simps)
  qed (simp add: word_le_nat_alt)
  then show ?thesis using n by auto
qed

lemma away_sub:
  assumes "away a n b l" and "off + k \<le> l"
  shows "away a n (b + of_nat off) k"
  using assms(1) unfolding away_def
  by (metis (no_types, lifting) add.assoc add.commute add_less_cancel_left assms(2) less_le_trans of_nat_add)

section \<open>Properties\<close>

text \<open>
  C33 A binary PPM file with a plain header and fewer than \<open>2\<^sup>3\<^sup>0\<close> pixels, whose pixel data does not begin with a
  white space character or \<^verbatim>\<open>#\<close>, loads to a destination apart from the file: the width and height are those of the header, and every pixel of the
  destination is opaque with the red, green and blue bytes of the file.
\<close>

theorem ppm_load_decodes:
  assumes "span m data (data + len) (ppm_file w h ws1 ws2 ws3 ws4 px)"
    and "spaces ws1" "spaces ws2" "spaces ws3" "spaces ws4" and "no_space px"
    and "length px = 3 * (w * h)" and "w * h < 2 ^ 30" and "out \<noteq> 0"
    and "\<forall>i < w * h. away (out + 4 * of_nat i) 4 data (unat len)"
  shows "\<exists>m'. ppm_load m data len out =
      Some (OK, Some \<lparr>img_width = of_nat w, img_height = of_nat h, img_px_count = of_nat (w * h), img_px_data = out\<rparr>, m') \<and>
    (\<forall>k < w * h. load32 m' (out + 4 * of_nat k) = ppm_pixel (px ! (3 * k)) (px ! (3 * k + 1)) (px ! (3 * k + 2)))"
proof -
  let ?file = "ppm_file w h ws1 ws2 ws3 ws4 px" and ?n = "w * h"
  from ppm_header_span [OF assms(1-7)] obtain it where
    h: "ppm_header m data len = Some (of_nat w, of_nat h, it)" and it: "span m it (data + len) px" by blast
  have "length px \<le> length ?file" by (simp add: ppm_file_def)
  moreover have "data + of_nat (length ?file) = data + len" by (rule span_end [OF assms(1)])
  then have "len = of_nat (length ?file)" by simp
  moreover have "length ?file < 4294967296"
    using assms(1) unat_bound32 [of "data + len"] by (simp add: span_def del: unat_bound32)
  ultimately have len: "unat len = length ?file" by (simp only: unat_of_nat_small)
  define off where "off = length ?file - length px"
  have off: "off + 3 * ?n = unat len" using \<open>length px \<le> length ?file\<close> len assms(7) by (simp add: off_def)
  have "data + of_nat (length ?file) = it + of_nat (length px)"
    using span_end [OF assms(1)] span_end [OF it] by simp
  then have "it = data + of_nat off" using \<open>length px \<le> length ?file\<close> by (simp add: off_def algebra_simps)
  then have "\<forall>i<?n. away (out + 4 * of_nat i) 4 it (3 * ?n)"
    using assms(10) away_sub [of _ 4 data "unat len" off "3 * ?n"] off by simp
  from ppm_pixels_decode [OF _ assms(7,8) this, of m] it show ?thesis
    using h assms(9) by (auto simp: ppm_load_def span_def)
qed

definition sample_ppm :: "u8 list" where
  "sample_ppm = ppm_file 1 2 [10] [32] [10] [10] [1, 2, 3, 4, 5, 6]"

theorem ppm_load_decodes_witness:
  "\<exists>m'. ppm_load (store_bytes (\<lambda>_. 0) 0x1000 sample_ppm) 0x1000 (of_nat (length sample_ppm)) 0x100 =
      Some (OK, Some \<lparr>img_width = 1, img_height = 2, img_px_count = 2, img_px_data = 0x100\<rparr>, m') \<and>
    load32 m' 0x104 = 0xFF040506"
proof -
  let ?m = "store_bytes (\<lambda>_. 0) 0x1000 sample_ppm" and ?len = "of_nat (length sample_ppm) :: usz"
  have d: "dec_str (Suc 0) = [49]" "dec_str 2 = [50]" "dec_str 255 = [50, 53, 53]"
    by (simp_all add: dec_str_def digits.simps)
  have l: "length sample_ppm = 17" by (simp add: sample_ppm_def ppm_file_def d)
  have "bytes_at ?m 0x1000 sample_ppm" unfolding bytes_at_def by (rule load_store_bytes) (simp add: l)
  then have S: "span ?m 0x1000 (0x1000 + ?len) (ppm_file 1 2 [10] [32] [10] [10] [1, 2, 3, 4, 5, 6])"
    unfolding sample_ppm_def [symmetric] using l by (simp add: span_def)
  have u: "unat (0xF00 + of_nat j :: addr) = 0xF00 + j" "unat (0xEFC + of_nat j :: addr) = 0xEFC + j" if "j < 18" for j
    using that by (simp_all add: unat_word_ariths unat_of_nat)
  have A: "away (0x100 + 4 * of_nat i) 4 0x1000 (unat ?len)" if "i < 1 * 2" for i
  proof -
    have "i = 0 \<or> i = 1" using that by auto
    then show ?thesis by (auto simp: away_def l u)
  qed
  from ppm_load_decodes [OF S, of "0x100"] obtain m' where
    "ppm_load ?m 0x1000 ?len 0x100 =
      Some (OK, Some \<lparr>img_width = of_nat 1, img_height = of_nat 2, img_px_count = of_nat (1 * 2), img_px_data = 0x100\<rparr>, m')"
    "\<forall>k < 1 * 2. load32 m' (0x100 + 4 * of_nat k) = ppm_pixel ([1, 2, 3, 4, 5, 6] ! (3 * k))
       ([1, 2, 3, 4, 5, 6] ! (3 * k + 1)) ([1, 2, 3, 4, 5, 6] ! (3 * k + 2))"
    using A by (auto simp: spaces_def no_space_def isspace_def)
  moreover from this(2) [rule_format, of 1] have "load32 m' 0x104 = 0xFF040506" by (simp add: ppm_pixel_def)
  ultimately show ?thesis by auto
qed

text \<open>
  The white space and the comments after the maximum value are skipped greedily, so a valid file whose first pixel
  byte is a space is rejected: the byte is taken for white space and the pixels come up short.
\<close>

lemma ppm_load_swallows_pixel:
  assumes "span m data (data + len) (ppm_file w h ws1 ws2 ws3 ws4 (chr CHR '' '' # px))"
    and "spaces ws1" "spaces ws2" "spaces ws3" "spaces ws4" and "no_space px"
    and "Suc (length px) = 3 * (w * h)" and "unat (data + len) < 4294967295"
  shows "ppm_load m data len out = Some (ERR_FMTINVAL, None, m)"
proof -
  have "ppm_file w h ws1 ws2 ws3 ws4 (chr CHR '' '' # px) = ppm_file w h ws1 ws2 ws3 (ws4 @ [chr CHR '' '']) px"
    by (simp add: ppm_file_def)
  moreover have "spaces (ws4 @ [chr CHR '' ''])" using assms(5) by (auto simp: spaces_def isspace_def)
  ultimately obtain it where
    h: "ppm_header m data len =
      (if it + of_nat w * of_nat h * 3 > data + len then None else Some (of_nat w, of_nat h, it))"
    and it: "span m it (data + len) px"
    using ppm_header_fields [of m data len w h ws1 ws2 ws3 "ws4 @ [chr CHR '' '']" px] assms by auto
  have "(of_nat w * of_nat h * 3 :: u32) = of_nat (3 * (w * h))" by simp
  also have "\<dots> = of_nat (length px) + 1" by (simp flip: assms(7))
  finally have "it + of_nat w * of_nat h * 3 = data + len + 1" using span_end [OF it] by (simp add: algebra_simps)
  moreover have "data + len < data + len + 1"
    using assms(8) by (simp add: word_less_nat_alt unat_word_ariths)
  ultimately show ?thesis using h by (simp add: ppm_load_def)
qed

lemma ppm_load_swallows_pixel_witness:
  "ppm_load (store_bytes (\<lambda>_. 0) 0x1000 (map chr ''P6 1 1 255  ab'')) 0x1000 14 0x100 =
     Some (ERR_FMTINVAL, None, store_bytes (\<lambda>_. 0) 0x1000 (map chr ''P6 1 1 255  ab''))"
proof -
  let ?m = "store_bytes (\<lambda>_. 0) 0x1000 (map chr ''P6 1 1 255  ab'')"
  have f: "ppm_file (Suc 0) (Suc 0) [32] [32] [32] [32] (chr CHR '' '' # map chr ''ab'') = map chr ''P6 1 1 255  ab''"
    by (simp add: ppm_file_def dec_str_def digits.simps)
  have b: "bytes_at ?m 0x1000 (map chr ''P6 1 1 255  ab'')" unfolding bytes_at_def by (rule load_store_bytes) simp
  have "span ?m 0x1000 (0x1000 + 14) (ppm_file (Suc 0) (Suc 0) [32] [32] [32] [32] (chr CHR '' '' # map chr ''ab''))"
    unfolding f span_def using b by (simp del: bytes_at_simps store_bytes.simps)
  from ppm_load_swallows_pixel [OF this, of "0x100"] show ?thesis
    by (simp add: spaces_def no_space_def isspace_def del: store_bytes.simps)
qed

text \<open>
  The number of pixels and the number of pixel bytes are computed in 32 bits.  A file that names an
  image of 65536 by 65536 pixels and holds none of them is accepted.
\<close>

lemma ppm_load_overflow:
  assumes "span m data (data + len) (ppm_file 65536 65536 ws1 ws2 ws3 ws4 [])"
    and "spaces ws1" "spaces ws2" "spaces ws3" "spaces ws4"
  shows "ppm_load m data len out =
    Some (OK, Some \<lparr>img_width = 65536, img_height = 65536, img_px_count = 0, img_px_data = out\<rparr>, m)"
proof -
  obtain it where "ppm_header m data len = (if it + of_nat 65536 * of_nat 65536 * 3 > data + len then None
      else Some (of_nat 65536, of_nat 65536, it))" "span m it (data + len) []"
    using ppm_header_fields [OF assms] by (auto simp: no_space_def)
  moreover have "(12884901888 :: u32) = 0" by simp
  ultimately have h: "ppm_header m data len = Some (65536, 65536, it)" by simp
  have z: "(65536 :: u32) * 65536 = 0" by simp
  show ?thesis unfolding ppm_load_def h option.case prod.case z Let_def ppm_pixels_def by simp
qed

lemma ppm_load_overflow_witness:
  "\<exists>m. ppm_load m 0x1000 19 0 =
     Some (OK, Some \<lparr>img_width = 65536, img_height = 65536, img_px_count = 0, img_px_data = 0\<rparr>, m)"
proof -
  let ?m = "store_bytes (\<lambda>_. 0) 0x1000 (map chr ''P6 65536 65536 255 '')"
  have f: "ppm_file 65536 65536 [32] [32] [32] [32] [] = map chr ''P6 65536 65536 255 ''"
    by (simp add: ppm_file_def dec_str_def digits.simps)
  have b: "bytes_at ?m 0x1000 (map chr ''P6 65536 65536 255 '')" unfolding bytes_at_def by (rule load_store_bytes) simp
  have "span ?m 0x1000 (0x1000 + 19) (ppm_file 65536 65536 [32] [32] [32] [32] [])"
    unfolding f span_def using b by (simp del: bytes_at_simps store_bytes.simps)
  from ppm_load_overflow [OF this, of 0] show ?thesis
    by (intro exI [of _ ?m]) (simp add: spaces_def isspace_def del: store_bytes.simps)
qed

end
