(* ===== verification/Psf.thy ===== *)
theory Psf
  imports Libk_Memory
begin

text \<open>
  The font loader \<^verbatim>\<open>libk/psf.c\<close>: the table that expands a byte of a bitmap font into eight pixels, and
  the decoder of PSF1 and PSF2 fonts on the byte-addressed memory.

  The lemmas show that the table is the bit expansion it stands for, and that fonts whose width is a
  multiple of 8 decode to the pixels of their bitmap.
\<close>

section \<open>The expansion table\<close>

text \<open>The rows 0 to 127 and 128 to 255 of \<^verbatim>\<open>precomp_tab\<close>; \<open>FF\<close> is the macro \<^verbatim>\<open>X\<close>, 0 the macro \<^verbatim>\<open>_\<close>.\<close>

abbreviation FF :: u32 where "FF \<equiv> 0xFFFFFFFF"

definition precomp_tab_low :: "u32 list list" where
  "precomp_tab_low =
  [[0, 0, 0, 0, 0, 0, 0, 0], [0, 0, 0, 0, 0, 0, 0, FF], [0, 0, 0, 0, 0, 0, FF, 0], [0, 0, 0, 0, 0, 0, FF, FF],
   [0, 0, 0, 0, 0, FF, 0, 0], [0, 0, 0, 0, 0, FF, 0, FF], [0, 0, 0, 0, 0, FF, FF, 0], [0, 0, 0, 0, 0, FF, FF, FF],
   [0, 0, 0, 0, FF, 0, 0, 0], [0, 0, 0, 0, FF, 0, 0, FF], [0, 0, 0, 0, FF, 0, FF, 0], [0, 0, 0, 0, FF, 0, FF, FF],
   [0, 0, 0, 0, FF, FF, 0, 0], [0, 0, 0, 0, FF, FF, 0, FF], [0, 0, 0, 0, FF, FF, FF, 0], [0, 0, 0, 0, FF, FF, FF, FF],
   [0, 0, 0, FF, 0, 0, 0, 0], [0, 0, 0, FF, 0, 0, 0, FF], [0, 0, 0, FF, 0, 0, FF, 0], [0, 0, 0, FF, 0, 0, FF, FF],
   [0, 0, 0, FF, 0, FF, 0, 0], [0, 0, 0, FF, 0, FF, 0, FF], [0, 0, 0, FF, 0, FF, FF, 0], [0, 0, 0, FF, 0, FF, FF, FF],
   [0, 0, 0, FF, FF, 0, 0, 0], [0, 0, 0, FF, FF, 0, 0, FF], [0, 0, 0, FF, FF, 0, FF, 0], [0, 0, 0, FF, FF, 0, FF, FF],
   [0, 0, 0, FF, FF, FF, 0, 0], [0, 0, 0, FF, FF, FF, 0, FF], [0, 0, 0, FF, FF, FF, FF, 0], [0, 0, 0, FF, FF, FF, FF, FF],
   [0, 0, FF, 0, 0, 0, 0, 0], [0, 0, FF, 0, 0, 0, 0, FF], [0, 0, FF, 0, 0, 0, FF, 0], [0, 0, FF, 0, 0, 0, FF, FF],
   [0, 0, FF, 0, 0, FF, 0, 0], [0, 0, FF, 0, 0, FF, 0, FF], [0, 0, FF, 0, 0, FF, FF, 0], [0, 0, FF, 0, 0, FF, FF, FF],
   [0, 0, FF, 0, FF, 0, 0, 0], [0, 0, FF, 0, FF, 0, 0, FF], [0, 0, FF, 0, FF, 0, FF, 0], [0, 0, FF, 0, FF, 0, FF, FF],
   [0, 0, FF, 0, FF, FF, 0, 0], [0, 0, FF, 0, FF, FF, 0, FF], [0, 0, FF, 0, FF, FF, FF, 0], [0, 0, FF, 0, FF, FF, FF, FF],
   [0, 0, FF, FF, 0, 0, 0, 0], [0, 0, FF, FF, 0, 0, 0, FF], [0, 0, FF, FF, 0, 0, FF, 0], [0, 0, FF, FF, 0, 0, FF, FF],
   [0, 0, FF, FF, 0, FF, 0, 0], [0, 0, FF, FF, 0, FF, 0, FF], [0, 0, FF, FF, 0, FF, FF, 0], [0, 0, FF, FF, 0, FF, FF, FF],
   [0, 0, FF, FF, FF, 0, 0, 0], [0, 0, FF, FF, FF, 0, 0, FF], [0, 0, FF, FF, FF, 0, FF, 0], [0, 0, FF, FF, FF, 0, FF, FF],
   [0, 0, FF, FF, FF, FF, 0, 0], [0, 0, FF, FF, FF, FF, 0, FF], [0, 0, FF, FF, FF, FF, FF, 0], [0, 0, FF, FF, FF, FF, FF, FF],
   [0, FF, 0, 0, 0, 0, 0, 0], [0, FF, 0, 0, 0, 0, 0, FF], [0, FF, 0, 0, 0, 0, FF, 0], [0, FF, 0, 0, 0, 0, FF, FF],
   [0, FF, 0, 0, 0, FF, 0, 0], [0, FF, 0, 0, 0, FF, 0, FF], [0, FF, 0, 0, 0, FF, FF, 0], [0, FF, 0, 0, 0, FF, FF, FF],
   [0, FF, 0, 0, FF, 0, 0, 0], [0, FF, 0, 0, FF, 0, 0, FF], [0, FF, 0, 0, FF, 0, FF, 0], [0, FF, 0, 0, FF, 0, FF, FF],
   [0, FF, 0, 0, FF, FF, 0, 0], [0, FF, 0, 0, FF, FF, 0, FF], [0, FF, 0, 0, FF, FF, FF, 0], [0, FF, 0, 0, FF, FF, FF, FF],
   [0, FF, 0, FF, 0, 0, 0, 0], [0, FF, 0, FF, 0, 0, 0, FF], [0, FF, 0, FF, 0, 0, FF, 0], [0, FF, 0, FF, 0, 0, FF, FF],
   [0, FF, 0, FF, 0, FF, 0, 0], [0, FF, 0, FF, 0, FF, 0, FF], [0, FF, 0, FF, 0, FF, FF, 0], [0, FF, 0, FF, 0, FF, FF, FF],
   [0, FF, 0, FF, FF, 0, 0, 0], [0, FF, 0, FF, FF, 0, 0, FF], [0, FF, 0, FF, FF, 0, FF, 0], [0, FF, 0, FF, FF, 0, FF, FF],
   [0, FF, 0, FF, FF, FF, 0, 0], [0, FF, 0, FF, FF, FF, 0, FF], [0, FF, 0, FF, FF, FF, FF, 0], [0, FF, 0, FF, FF, FF, FF, FF],
   [0, FF, FF, 0, 0, 0, 0, 0], [0, FF, FF, 0, 0, 0, 0, FF], [0, FF, FF, 0, 0, 0, FF, 0], [0, FF, FF, 0, 0, 0, FF, FF],
   [0, FF, FF, 0, 0, FF, 0, 0], [0, FF, FF, 0, 0, FF, 0, FF], [0, FF, FF, 0, 0, FF, FF, 0], [0, FF, FF, 0, 0, FF, FF, FF],
   [0, FF, FF, 0, FF, 0, 0, 0], [0, FF, FF, 0, FF, 0, 0, FF], [0, FF, FF, 0, FF, 0, FF, 0], [0, FF, FF, 0, FF, 0, FF, FF],
   [0, FF, FF, 0, FF, FF, 0, 0], [0, FF, FF, 0, FF, FF, 0, FF], [0, FF, FF, 0, FF, FF, FF, 0], [0, FF, FF, 0, FF, FF, FF, FF],
   [0, FF, FF, FF, 0, 0, 0, 0], [0, FF, FF, FF, 0, 0, 0, FF], [0, FF, FF, FF, 0, 0, FF, 0], [0, FF, FF, FF, 0, 0, FF, FF],
   [0, FF, FF, FF, 0, FF, 0, 0], [0, FF, FF, FF, 0, FF, 0, FF], [0, FF, FF, FF, 0, FF, FF, 0], [0, FF, FF, FF, 0, FF, FF, FF],
   [0, FF, FF, FF, FF, 0, 0, 0], [0, FF, FF, FF, FF, 0, 0, FF], [0, FF, FF, FF, FF, 0, FF, 0], [0, FF, FF, FF, FF, 0, FF, FF],
   [0, FF, FF, FF, FF, FF, 0, 0], [0, FF, FF, FF, FF, FF, 0, FF], [0, FF, FF, FF, FF, FF, FF, 0], [0, FF, FF, FF, FF, FF, FF, FF]]"

definition precomp_tab_high :: "u32 list list" where
  "precomp_tab_high =
  [[FF, 0, 0, 0, 0, 0, 0, 0], [FF, 0, 0, 0, 0, 0, 0, FF], [FF, 0, 0, 0, 0, 0, FF, 0], [FF, 0, 0, 0, 0, 0, FF, FF],
   [FF, 0, 0, 0, 0, FF, 0, 0], [FF, 0, 0, 0, 0, FF, 0, FF], [FF, 0, 0, 0, 0, FF, FF, 0], [FF, 0, 0, 0, 0, FF, FF, FF],
   [FF, 0, 0, 0, FF, 0, 0, 0], [FF, 0, 0, 0, FF, 0, 0, FF], [FF, 0, 0, 0, FF, 0, FF, 0], [FF, 0, 0, 0, FF, 0, FF, FF],
   [FF, 0, 0, 0, FF, FF, 0, 0], [FF, 0, 0, 0, FF, FF, 0, FF], [FF, 0, 0, 0, FF, FF, FF, 0], [FF, 0, 0, 0, FF, FF, FF, FF],
   [FF, 0, 0, FF, 0, 0, 0, 0], [FF, 0, 0, FF, 0, 0, 0, FF], [FF, 0, 0, FF, 0, 0, FF, 0], [FF, 0, 0, FF, 0, 0, FF, FF],
   [FF, 0, 0, FF, 0, FF, 0, 0], [FF, 0, 0, FF, 0, FF, 0, FF], [FF, 0, 0, FF, 0, FF, FF, 0], [FF, 0, 0, FF, 0, FF, FF, FF],
   [FF, 0, 0, FF, FF, 0, 0, 0], [FF, 0, 0, FF, FF, 0, 0, FF], [FF, 0, 0, FF, FF, 0, FF, 0], [FF, 0, 0, FF, FF, 0, FF, FF],
   [FF, 0, 0, FF, FF, FF, 0, 0], [FF, 0, 0, FF, FF, FF, 0, FF], [FF, 0, 0, FF, FF, FF, FF, 0], [FF, 0, 0, FF, FF, FF, FF, FF],
   [FF, 0, FF, 0, 0, 0, 0, 0], [FF, 0, FF, 0, 0, 0, 0, FF], [FF, 0, FF, 0, 0, 0, FF, 0], [FF, 0, FF, 0, 0, 0, FF, FF],
   [FF, 0, FF, 0, 0, FF, 0, 0], [FF, 0, FF, 0, 0, FF, 0, FF], [FF, 0, FF, 0, 0, FF, FF, 0], [FF, 0, FF, 0, 0, FF, FF, FF],
   [FF, 0, FF, 0, FF, 0, 0, 0], [FF, 0, FF, 0, FF, 0, 0, FF], [FF, 0, FF, 0, FF, 0, FF, 0], [FF, 0, FF, 0, FF, 0, FF, FF],
   [FF, 0, FF, 0, FF, FF, 0, 0], [FF, 0, FF, 0, FF, FF, 0, FF], [FF, 0, FF, 0, FF, FF, FF, 0], [FF, 0, FF, 0, FF, FF, FF, FF],
   [FF, 0, FF, FF, 0, 0, 0, 0], [FF, 0, FF, FF, 0, 0, 0, FF], [FF, 0, FF, FF, 0, 0, FF, 0], [FF, 0, FF, FF, 0, 0, FF, FF],
   [FF, 0, FF, FF, 0, FF, 0, 0], [FF, 0, FF, FF, 0, FF, 0, FF], [FF, 0, FF, FF, 0, FF, FF, 0], [FF, 0, FF, FF, 0, FF, FF, FF],
   [FF, 0, FF, FF, FF, 0, 0, 0], [FF, 0, FF, FF, FF, 0, 0, FF], [FF, 0, FF, FF, FF, 0, FF, 0], [FF, 0, FF, FF, FF, 0, FF, FF],
   [FF, 0, FF, FF, FF, FF, 0, 0], [FF, 0, FF, FF, FF, FF, 0, FF], [FF, 0, FF, FF, FF, FF, FF, 0], [FF, 0, FF, FF, FF, FF, FF, FF],
   [FF, FF, 0, 0, 0, 0, 0, 0], [FF, FF, 0, 0, 0, 0, 0, FF], [FF, FF, 0, 0, 0, 0, FF, 0], [FF, FF, 0, 0, 0, 0, FF, FF],
   [FF, FF, 0, 0, 0, FF, 0, 0], [FF, FF, 0, 0, 0, FF, 0, FF], [FF, FF, 0, 0, 0, FF, FF, 0], [FF, FF, 0, 0, 0, FF, FF, FF],
   [FF, FF, 0, 0, FF, 0, 0, 0], [FF, FF, 0, 0, FF, 0, 0, FF], [FF, FF, 0, 0, FF, 0, FF, 0], [FF, FF, 0, 0, FF, 0, FF, FF],
   [FF, FF, 0, 0, FF, FF, 0, 0], [FF, FF, 0, 0, FF, FF, 0, FF], [FF, FF, 0, 0, FF, FF, FF, 0], [FF, FF, 0, 0, FF, FF, FF, FF],
   [FF, FF, 0, FF, 0, 0, 0, 0], [FF, FF, 0, FF, 0, 0, 0, FF], [FF, FF, 0, FF, 0, 0, FF, 0], [FF, FF, 0, FF, 0, 0, FF, FF],
   [FF, FF, 0, FF, 0, FF, 0, 0], [FF, FF, 0, FF, 0, FF, 0, FF], [FF, FF, 0, FF, 0, FF, FF, 0], [FF, FF, 0, FF, 0, FF, FF, FF],
   [FF, FF, 0, FF, FF, 0, 0, 0], [FF, FF, 0, FF, FF, 0, 0, FF], [FF, FF, 0, FF, FF, 0, FF, 0], [FF, FF, 0, FF, FF, 0, FF, FF],
   [FF, FF, 0, FF, FF, FF, 0, 0], [FF, FF, 0, FF, FF, FF, 0, FF], [FF, FF, 0, FF, FF, FF, FF, 0], [FF, FF, 0, FF, FF, FF, FF, FF],
   [FF, FF, FF, 0, 0, 0, 0, 0], [FF, FF, FF, 0, 0, 0, 0, FF], [FF, FF, FF, 0, 0, 0, FF, 0], [FF, FF, FF, 0, 0, 0, FF, FF],
   [FF, FF, FF, 0, 0, FF, 0, 0], [FF, FF, FF, 0, 0, FF, 0, FF], [FF, FF, FF, 0, 0, FF, FF, 0], [FF, FF, FF, 0, 0, FF, FF, FF],
   [FF, FF, FF, 0, FF, 0, 0, 0], [FF, FF, FF, 0, FF, 0, 0, FF], [FF, FF, FF, 0, FF, 0, FF, 0], [FF, FF, FF, 0, FF, 0, FF, FF],
   [FF, FF, FF, 0, FF, FF, 0, 0], [FF, FF, FF, 0, FF, FF, 0, FF], [FF, FF, FF, 0, FF, FF, FF, 0], [FF, FF, FF, 0, FF, FF, FF, FF],
   [FF, FF, FF, FF, 0, 0, 0, 0], [FF, FF, FF, FF, 0, 0, 0, FF], [FF, FF, FF, FF, 0, 0, FF, 0], [FF, FF, FF, FF, 0, 0, FF, FF],
   [FF, FF, FF, FF, 0, FF, 0, 0], [FF, FF, FF, FF, 0, FF, 0, FF], [FF, FF, FF, FF, 0, FF, FF, 0], [FF, FF, FF, FF, 0, FF, FF, FF],
   [FF, FF, FF, FF, FF, 0, 0, 0], [FF, FF, FF, FF, FF, 0, 0, FF], [FF, FF, FF, FF, FF, 0, FF, 0], [FF, FF, FF, FF, FF, 0, FF, FF],
   [FF, FF, FF, FF, FF, FF, 0, 0], [FF, FF, FF, FF, FF, FF, 0, FF], [FF, FF, FF, FF, FF, FF, FF, 0], [FF, FF, FF, FF, FF, FF, FF, FF]]"

definition precomp_tab :: "u32 list list" where
  "precomp_tab = precomp_tab_low @ precomp_tab_high"

section \<open>The loader\<close>

definition PSF1_MAGIC :: u16 where "PSF1_MAGIC = 0x0436"
definition PSF2_MAGIC :: u32 where "PSF2_MAGIC = 0x864ab572"
definition PSF1_MODE512 :: u8 where "PSF1_MODE512 = 1"

record psf1_header_t =
  psf1_magic :: u16
  psf1_mode :: u8
  psf1_height :: u8

record psf2_header_t =
  psf2_magic :: u32
  psf2_version :: u32
  psf2_header_size :: u32
  psf2_flags :: u32
  psf2_glyph_count :: u32
  psf2_glyph_bytes :: u32
  psf2_height :: u32
  psf2_width :: u32

record font_t =
  glyph_width :: u16
  glyph_height :: u16
  glyph_count :: u32
  px_per_glyph :: usz
  glyph_data :: addr

definition psf1_header :: "mem \<Rightarrow> addr \<Rightarrow> psf1_header_t" where
  "psf1_header m a = \<lparr>psf1_magic = load16 m a, psf1_mode = m (a + 2), psf1_height = m (a + 3)\<rparr>"

definition psf2_header :: "mem \<Rightarrow> addr \<Rightarrow> psf2_header_t" where
  "psf2_header m a =
     \<lparr>psf2_magic = load32 m a, psf2_version = load32 m (a + 4), psf2_header_size = load32 m (a + 8),
      psf2_flags = load32 m (a + 12), psf2_glyph_count = load32 m (a + 16),
      psf2_glyph_bytes = load32 m (a + 20), psf2_height = load32 m (a + 24), psf2_width = load32 m (a + 28)\<rparr>"

text \<open>The width, the height, the number of glyphs and the address of the bitmap; \<^term>\<open>None\<close> is
  \<^verbatim>\<open>return ERR_FMTINVAL\<close>.\<close>

definition psf_header :: "mem \<Rightarrow> addr \<Rightarrow> usz \<Rightarrow> (u32 \<times> u32 \<times> u32 \<times> addr) option" where
  "psf_header m data len =
     (if len < 4 then None
      else if load16 m data = PSF1_MAGIC then
        let head = psf1_header m data
        in if len < 4 \<or> psf1_height head = 0 then None
           else Some (8, ucast (psf1_height head),
             if psf1_mode head AND PSF1_MODE512 \<noteq> 0 then 512 else 256, data + 4)
      else if load32 m data = PSF2_MAGIC then
        let head = psf2_header m data
        in if len < 32 \<or> psf2_version head \<noteq> 0 then None
           else let glyphtab_size = psf2_glyph_count head * psf2_glyph_bytes head
                in if len < psf2_header_size head + glyphtab_size \<or> psf2_width head = 0 \<or> psf2_height head = 0
                   then None
                   else Some (psf2_width head, psf2_height head, psf2_glyph_count head,
                     data + psf2_header_size head)
      else None)"

text \<open>
  One row of a glyph: the inner \<^verbatim>\<open>while (bits > 0)\<close>.  The \<^verbatim>\<open>i32\<close> \<open>bits\<close> is an integer, since it only
  goes down from the width to at least \<open>-6\<close>.  The copy of \<^verbatim>\<open>left\<close> pixels stores as many double words.
\<close>

function psf_row :: "int \<Rightarrow> addr \<times> addr \<times> mem \<Rightarrow> addr \<times> addr \<times> mem" where
  "psf_row bits (it, out, m) =
     (if bits > 0 then
        let left = (if bits < 8 then 8 - bits else 8);
            m' = store_dwords m out (take (nat left) (precomp_tab ! unat (m it)))
        in psf_row (bits - left) (it + 1, out + 4 * of_int left, m')
      else (it, out, m))"
  by pat_completeness auto
termination
  by (relation "measure (\<lambda>(bits, s). nat bits)") (auto simp: Let_def)

declare psf_row.simps [simp del]

definition psf_glyphs :: "u32 \<Rightarrow> u32 \<Rightarrow> u32 \<Rightarrow> addr \<times> addr \<times> mem \<Rightarrow> (addr \<times> addr \<times> mem) option" where
  "psf_glyphs w h cnt s =
     for_range 0 cnt (\<lambda>i s. for_range 0 h (\<lambda>j s. Some (psf_row (sint w) s)) s) s"

definition psf_load :: "mem \<Rightarrow> addr \<Rightarrow> usz \<Rightarrow> addr \<Rightarrow> (err_t \<times> font_t option \<times> mem) option" where
  "psf_load m data len out_data =
     (case psf_header m data len of
        None \<Rightarrow> Some (ERR_FMTINVAL, None, m)
      | Some (w, h, cnt, it) \<Rightarrow>
          let fnt = \<lparr>glyph_width = ucast w, glyph_height = ucast h, glyph_count = cnt,
                     px_per_glyph = w * h, glyph_data = out_data\<rparr>
          in if out_data = 0 then Some (OK, Some fnt, m)
             else do { (it, out, m) \<leftarrow> psf_glyphs w h cnt (it, out_data, m);
                       Some (OK, Some fnt, m) })"

section \<open>The table as bits\<close>

fun bit_rows :: "nat \<Rightarrow> u32 list list" where
  "bit_rows 0 = [[]]"
| "bit_rows (Suc n) = map (\<lambda>r. 0 # r) (bit_rows n) @ map (\<lambda>r. FF # r) (bit_rows n)"

lemma precomp_tab_rows: "precomp_tab = bit_rows 8"
  by (simp add: precomp_tab_def precomp_tab_low_def precomp_tab_high_def numeral_eq_Suc)

lemma length_bit_rows [simp]: "length (bit_rows n) = 2 ^ n"
  by (induction n) auto

lemma bit_rows_nth:
  "i < 2 ^ n \<Longrightarrow> bit_rows n ! i = map (\<lambda>j. if odd (i div 2 ^ (n - 1 - j)) then FF else 0) [0..<n]"
proof (induction n arbitrary: i)
  case (Suc n)
  have up: "map f [0..<Suc n] = f 0 # map (\<lambda>j. f (Suc j)) [0..<n]" for f :: "nat \<Rightarrow> u32"
    by (simp only: upt_conv_Cons [OF zero_less_Suc] list.map map_Suc_upt [symmetric] map_map comp_def)
  show ?case
  proof (cases "i < 2 ^ n")
    case True
    then show ?thesis using Suc.IH [OF True] unfolding up by (simp add: nth_append)
  next
    case False
    let ?k = "i - 2 ^ n"
    have k: "?k < 2 ^ n" "i = 2 ^ n + ?k" using False Suc.prems by auto
    have "i div 2 ^ n = 1" using k by (simp add: div_nat_eqI)
    moreover have "odd (i div 2 ^ (n - 1 - j)) = odd (?k div 2 ^ (n - 1 - j))" if "j < n" for j
    proof -
      have e: "(2::nat) ^ n = 2 ^ (n - 1 - j) * (2 * 2 ^ j)"
        using that by (simp flip: power_Suc power_add)
      have "i div 2 ^ (n - 1 - j) = 2 * 2 ^ j + ?k div 2 ^ (n - 1 - j)"
        by (subst k(2), subst e) (simp add: div_mult_self1 flip: add.commute)
      then show ?thesis by simp
    qed
    ultimately show ?thesis using Suc.IH [OF k(1)] k unfolding up by (simp add: nth_append)
  qed
qed simp

definition psf_pixel :: "u8 \<Rightarrow> nat \<Rightarrow> u32" where
  "psf_pixel b x = (if bit b (7 - x) then FF else 0)"

lemma precomp_tab_pixels: "precomp_tab ! unat b = map (psf_pixel b) [0..<8]"
proof -
  have "unat b < 2 ^ 8" using unsigned_less [of b, where 'a = nat] by simp
  moreover have "odd (unat b div 2 ^ k) \<longleftrightarrow> bit b k" for k
    using bit_iff_odd [of "unat b" k] by (simp add: bit_unsigned_iff)
  ultimately show ?thesis
    unfolding precomp_tab_rows by (simp add: bit_rows_nth psf_pixel_def)
qed

section \<open>Decoding\<close>

text \<open>The bitmap has \<open>n\<close> bytes at \<open>src\<close>, and the first \<open>b\<close> of them are decoded to \<open>out\<close>.\<close>

definition decoded :: "mem \<Rightarrow> addr \<Rightarrow> addr \<Rightarrow> nat \<Rightarrow> nat \<Rightarrow> addr \<times> addr \<times> mem \<Rightarrow> bool" where
  "decoded m src out n b s \<longleftrightarrow> (case s of (it, o', m') \<Rightarrow>
     it = src + of_nat b \<and> o' = out + 4 * of_nat (8 * b) \<and>
     (\<forall>j<n. m' (src + of_nat j) = m (src + of_nat j)) \<and>
     (\<forall>j<b. \<forall>x<8. load32 m' (out + 4 * of_nat (8 * j + x)) = psf_pixel (m (src + of_nat j)) x))"

definition bitmap_apart :: "addr \<Rightarrow> addr \<Rightarrow> nat \<Rightarrow> bool" where
  "bitmap_apart src out n \<longleftrightarrow> 32 * n \<le> 2 ^ 32 \<and> (\<forall>i < 8 * n. away (out + 4 * of_nat i) 4 src n)"

lemma psf_byte_decoded:
  assumes D: "decoded m src out n b (it, o', m')" and A: "bitmap_apart src out n" and b: "b < n"
  shows "decoded m src out n (Suc b)
    (it + 1, o' + 4 * 8, store_dwords m' o' (take 8 (precomp_tab ! unat (m' it))))"
proof -
  let ?vs = "map (psf_pixel (m (src + of_nat b))) [0..<8]"
  have s: "it = src + of_nat b" "o' = out + 4 * of_nat (8 * b)" "m' it = m (src + of_nat b)"
    using D b by (auto simp: decoded_def)
  have row: "take 8 (precomp_tab ! unat (m' it)) = ?vs" by (simp add: precomp_tab_pixels s(3))
  let ?m = "store_dwords m' (out + 4 * of_nat (8 * b)) ?vs"
  have "?m (src + of_nat j) = m (src + of_nat j)" if "j < n" for j
  proof -
    have "?m (src + of_nat j) = m' (src + of_nat j)"
      by (rule store_dwords_away [of "8 * n" _ _ n]) (use A b that in \<open>auto simp: bitmap_apart_def\<close>)
    then show ?thesis using D that by (simp add: decoded_def)
  qed
  moreover have "load32 ?m (out + 4 * of_nat (8 * j + x)) = psf_pixel (m (src + of_nat j)) x"
    if "j < Suc b" "x < 8" for j x
  proof -
    have "load32 ?m (out + 4 * of_nat (8 * j + x)) =
        (if 8 * b \<le> 8 * j + x \<and> 8 * j + x < 8 * b + length ?vs then ?vs ! (8 * j + x - 8 * b)
         else load32 m' (out + 4 * of_nat (8 * j + x)))"
      by (rule store_dwords_load [of _ _ "8 * n"]) (use A b that in \<open>auto simp: bitmap_apart_def\<close>)
    also have "\<dots> = psf_pixel (m (src + of_nat j)) x"
      using D that by (cases "j = b") (auto simp: decoded_def)
    finally show ?thesis .
  qed
  ultimately show ?thesis unfolding row unfolding s(1,2) decoded_def by (simp add: algebra_simps)
qed

lemma psf_row_decoded:
  assumes "decoded m src out n b s" and A: "bitmap_apart src out n" and "b + k \<le> n"
  shows "decoded m src out n (b + k) (psf_row (int (8 * k)) s)"
  using assms
proof (induction k arbitrary: b s)
  case 0
  obtain it o' m' where "s = (it, o', m')" by (cases s)
  with 0 show ?case by (simp add: psf_row.simps)
next
  case (Suc k)
  obtain it o' m' where s: "s = (it, o', m')" by (cases s)
  have "decoded m src out n (Suc b) (it + 1, o' + 4 * 8, store_dwords m' o' (take 8 (precomp_tab ! unat (m' it))))"
    by (rule psf_byte_decoded) (use Suc.prems s in auto)
  from Suc.IH [OF this A] Suc.prems(3) show ?case
    by (subst s, subst psf_row.simps) (simp add: Let_def)
qed

lemma psf_glyphs_decoded:
  assumes A: "bitmap_apart src out (unat cnt * (unat h * k))" and w: "sint w = int (8 * k)"
  shows "\<exists>s. psf_glyphs w h cnt (src, out, m) = Some s \<and>
    decoded m src out (unat cnt * (unat h * k)) (unat cnt * (unat h * k)) s"
proof -
  let ?n = "unat cnt * (unat h * k)"
  have row: "\<exists>s'. for_range 0 h (\<lambda>j s. Some (psf_row (sint w) s)) s = Some s' \<and>
      decoded m src out ?n (b + unat h * k) s'" if "decoded m src out ?n b s" "b + unat h * k \<le> ?n" for b s
  proof (rule for_range_rule [where P = "\<lambda>j s. decoded m src out ?n (b + unat j * k) s"])
    fix j :: usz and s' assume j: "j < h" and D: "decoded m src out ?n (b + unat j * k) s'"
    have "Suc (unat j) * k \<le> unat h * k" using j by (intro mult_le_mono1) (simp add: word_less_nat_alt)
    with unat_succ_less [OF j] psf_row_decoded [OF D A, of k] that(2) show "\<exists>s''. Some (psf_row (sint w) s') = Some s'' \<and>
        decoded m src out ?n (b + unat (j + 1) * k) s''" unfolding w by (simp add: algebra_simps)
  qed (use that in auto)
  show ?thesis unfolding psf_glyphs_def
  proof (rule for_range_rule [where P = "\<lambda>i s. decoded m src out ?n (unat i * (unat h * k)) s"])
    fix i :: usz and s assume i: "i < cnt" and D: "decoded m src out ?n (unat i * (unat h * k)) s"
    have "Suc (unat i) * (unat h * k) \<le> ?n" using i by (intro mult_le_mono1) (simp add: word_less_nat_alt Suc_le_eq)
    with row [OF D] show "\<exists>s'. for_range 0 h (\<lambda>j s. Some (psf_row (sint w) s)) s = Some s' \<and>
        decoded m src out ?n (unat (i + 1) * (unat h * k)) s'"
      unfolding unat_succ_less [OF i] by (simp add: algebra_simps)
  qed (simp_all add: decoded_def)
qed

section \<open>Properties\<close>

text \<open>
  C34 A font whose width is a multiple of 8 decodes completely to a destination apart from its bitmap: \<^verbatim>\<open>psf_load\<close> returns OK with the dimensions of
  the header, and pixel \<open>x\<close> of every byte of the bitmap is white or black as bit \<open>7 - x\<close> of that byte
  is set or not.
\<close>

theorem psf_load_decodes:
  assumes "psf_header m data len = Some (w, h, cnt, src)" and "sint w = int (8 * k)" and "out \<noteq> 0"
    and "bitmap_apart src out (unat cnt * (unat h * k))"
  shows "\<exists>m'. psf_load m data len out =
      Some (OK, Some \<lparr>glyph_width = ucast w, glyph_height = ucast h, glyph_count = cnt,
                     px_per_glyph = w * h, glyph_data = out\<rparr>, m') \<and>
    (\<forall>j < unat cnt * (unat h * k). \<forall>x<8.
       load32 m' (out + 4 * of_nat (8 * j + x)) = (if bit (m (src + of_nat j)) (7 - x) then 0xFFFFFFFF else 0))"
proof -
  from psf_glyphs_decoded [OF assms(4,2), of m] obtain it o' m' where
    "psf_glyphs w h cnt (src, out, m) = Some (it, o', m')"
    "decoded m src out (unat cnt * (unat h * k)) (unat cnt * (unat h * k)) (it, o', m')" by auto
  with assms(1,3) show ?thesis by (simp add: psf_load_def decoded_def psf_pixel_def)
qed

text \<open>A PSF2 font with one glyph of 8 by 1 pixels.\<close>

definition sample_psf :: mem where
  "sample_psf = store_bytes (\<lambda>_. 0) 0x1000
     [0x72, 0xb5, 0x4a, 0x86, 0, 0, 0, 0, 32, 0, 0, 0, 0, 0, 0, 0, 1, 0, 0, 0, 1, 0, 0, 0, 1, 0, 0, 0, 8, 0, 0, 0, 0xA0]"

theorem psf_load_decodes_witness:
  "\<exists>m'. psf_load sample_psf 0x1000 33 0x100 =
      Some (OK, Some \<lparr>glyph_width = 8, glyph_height = 1, glyph_count = 1, px_per_glyph = 8, glyph_data = 0x100\<rparr>, m') \<and>
    load32 m' 0x100 = 0xFFFFFFFF \<and> load32 m' 0x104 = 0"
proof -
  have h: "psf_header sample_psf 0x1000 33 = Some (8, 1, 1, 0x1020)"
    by (simp add: psf_header_def psf2_header_def sample_psf_def load32_def load16_def PSF1_MAGIC_def PSF2_MAGIC_def Let_def)
  have b: "sample_psf 0x1020 = 0xA0" by (simp add: sample_psf_def)
  have "away (0x100 + 4 * of_nat i) 4 0x1020 1" if "i < 8" for i :: nat
  proof -
    have "i = 0 \<or> i = 1 \<or> i = 2 \<or> i = 3 \<or> i = 4 \<or> i = 5 \<or> i = 6 \<or> i = 7" using that by linarith
    then show ?thesis by (elim disjE) (simp_all add: away_def)
  qed
  then have a: "bitmap_apart 0x1020 0x100 (unat (1::u32) * (unat (1::u32) * 1))" by (simp add: bitmap_apart_def)
  have w: "sint (8 :: u32) = int (8 * 1)" by simp
  from psf_load_decodes [OF h w _ a] obtain m' where
    m': "psf_load sample_psf 0x1000 33 0x100 =
      Some (OK, Some \<lparr>glyph_width = 8, glyph_height = 1, glyph_count = 1, px_per_glyph = 8, glyph_data = 0x100\<rparr>, m')"
    and px: "\<And>x. x < 8 \<Longrightarrow> load32 m' (0x100 + 4 * of_nat x) = (if bit (0xA0 :: u8) (7 - x) then 0xFFFFFFFF else 0)"
    by (auto simp: b)
  from m' px [of 0] px [of 1] show ?thesis by (auto simp: bit_simps)
qed

text \<open>
  A row of a font that is 10 pixels wide is decoded to 14: the last byte of a row contributes
  \<open>8 - bits\<close> pixels instead of \<open>bits\<close>, so the glyphs shift and the output runs past its buffer.
\<close>

lemma psf_row_width_10:
  "\<exists>m'. psf_row 10 (it, out, m) = (it + 2, out + 4 * 14, m')"
  by (simp add: psf_row.simps Let_def)

end
