(* ===== verification/Render.thy ===== *)
theory Render
  imports Libk_Memory
begin

text \<open>
  The rasteriser \<^verbatim>\<open>libk/render.c\<close>.  Coordinates are \<^verbatim>\<open>i32\<close> in the code and integers here, and every
  signed sum, difference and product is checked: one that leaves 32 bits is undefined in C, and the model then
  has no result.  Pixels are double words of the memory.  The shifts of \<^verbatim>\<open>render_blend_image\<close> are by amounts outside the width of the operand, which C
  leaves undefined; the model takes the shift of the processor, which uses the low five bits.

  The lemmas show that clipping keeps every access inside the frame buffer and the image, when the
  clipped rectangle is the visible part, what a rectangle and an image do to each pixel, and what
  blending does for the alpha values of the cursor and the fonts.
\<close>

section \<open>Definitions\<close>

record framebuf_t =
  fb_width :: int
  fb_height :: int
  fb_px_data :: addr
  fb_px_count :: usz

definition render_clear :: "framebuf_t \<Rightarrow> u32 \<Rightarrow> mem \<Rightarrow> mem" where
  "render_clear fb color m = mset32 m (fb_px_data fb) color (fb_px_count fb)"

record clip_t =
  cl_x :: int
  cl_y :: int
  cl_uv_x :: int
  cl_uv_y :: int
  cl_uv_w :: int
  cl_uv_h :: int

text \<open>The result of a signed 32-bit operation; \<^term>\<open>None\<close> is an overflow.\<close>

definition checked :: "int \<Rightarrow> int option" where
  "checked i = (if - (2 ^ 31) \<le> i \<and> i < 2 ^ 31 then Some i else None)"

text \<open>
  The macro \<^verbatim>\<open>CHECK_IMAGE_BOUNDS\<close>, operation by operation.  The inner \<^term>\<open>None\<close> is its \<^verbatim>\<open>return\<close>, the outer one an
  overflow.
\<close>

definition check_image_bounds :: "framebuf_t \<Rightarrow> int \<Rightarrow> int \<Rightarrow> int \<Rightarrow> int \<Rightarrow> clip_t option option" where
  "check_image_bounds fb x y w h =
     do { out_x \<leftarrow> (if x > fb_width fb then Some True else do { r \<leftarrow> checked (x + w); Some (r < 0) });
          if out_x then Some None else
     do { out_y \<leftarrow> (if y > fb_height fb then Some True else do { b \<leftarrow> checked (y + h); Some (b < 0) });
          if out_y then Some None else
     do { uv_x \<leftarrow> (if x < 0 then checked (- x) else Some 0);
          let x = (if x < 0 then 0 else x);
          uv_w \<leftarrow> checked (w - uv_x);
          r \<leftarrow> checked (x + w);
          uv_w \<leftarrow> (if r > fb_width fb then do { d \<leftarrow> checked (fb_width fb - r); checked (uv_w + d) } else Some uv_w);
          uv_y \<leftarrow> (if y < 0 then checked (- y) else Some 0);
          let y = (if y < 0 then 0 else y);
          uv_h \<leftarrow> checked (h - uv_y);
          b \<leftarrow> checked (y + h);
          uv_h \<leftarrow> (if b > fb_height fb then do { d \<leftarrow> checked (fb_height fb - b); checked (uv_h + d) } else Some uv_h);
          Some (if uv_h \<le> 0 \<or> uv_w \<le> 0 then None
            else Some \<lparr>cl_x = x, cl_y = y, cl_uv_x = uv_x, cl_uv_y = uv_y, cl_uv_w = uv_w, cl_uv_h = uv_h\<rparr>) }}}"

definition px_addr :: "framebuf_t \<Rightarrow> int \<Rightarrow> int \<Rightarrow> addr" where
  "px_addr fb x y = fb_px_data fb + 4 * of_int (x + fb_width fb * y)"

text \<open>\<^verbatim>\<open>&fb->px_data[x + (fb->width * y)]\<close> and \<^verbatim>\<open>(u32*)data + (uv_y * w + uv_x)\<close>.\<close>

definition px_ptr :: "framebuf_t \<Rightarrow> int \<Rightarrow> int \<Rightarrow> addr option" where
  "px_ptr fb x y = do { row \<leftarrow> checked (fb_width fb * y); i \<leftarrow> checked (x + row); Some (fb_px_data fb + 4 * of_int i) }"

definition img_ptr :: "addr \<Rightarrow> int \<Rightarrow> clip_t \<Rightarrow> addr option" where
  "img_ptr data w c =
     do { row \<leftarrow> checked (cl_uv_y c * w); i \<leftarrow> checked (row + cl_uv_x c); Some (data + 4 * of_int i) }"

definition render_put_image ::
    "framebuf_t \<Rightarrow> addr \<Rightarrow> int \<Rightarrow> int \<Rightarrow> int \<Rightarrow> int \<Rightarrow> mem \<Rightarrow> mem option" where
  "render_put_image fb data x y w h m =
     do { clip \<leftarrow> check_image_bounds fb x y w h;
     case clip of
        None \<Rightarrow> Some m
      | Some c \<Rightarrow>
          do { vram_it \<leftarrow> px_ptr fb (cl_x c) (cl_y c);
               img_it \<leftarrow> img_ptr data w c;
               (vram_it, img_it, m) \<leftarrow>
                 for_range 0 (of_int (cl_uv_h c))
                   (\<lambda>i (vram_it, img_it, m).
                      Some (vram_it + 4 * of_int (fb_width fb), img_it + 4 * of_int w,
                        mcpy32 m vram_it img_it (of_int (cl_uv_w c))))
                   (vram_it, img_it, m);
               Some m } }"

definition shl :: "u32 \<Rightarrow> u8 \<Rightarrow> u32" where
  "shl v n = push_bit (unat (n AND 31)) v"

definition blend_pixel :: "u32 \<Rightarrow> u32 \<Rightarrow> u32" where
  "blend_pixel clr vram =
     (let a = ucast (drop_bit 24 clr) :: u8 in shl clr (NOT a) + shl vram a)"

definition render_blend_image ::
    "framebuf_t \<Rightarrow> addr \<Rightarrow> int \<Rightarrow> int \<Rightarrow> int \<Rightarrow> int \<Rightarrow> mem \<Rightarrow> mem option" where
  "render_blend_image fb data x y w h m =
     do { clip \<leftarrow> check_image_bounds fb x y w h;
     case clip of
        None \<Rightarrow> Some m
      | Some c \<Rightarrow>
          do { vram_it \<leftarrow> px_ptr fb (cl_x c) (cl_y c);
               img_it \<leftarrow> img_ptr data w c;
               (vram_it, img_it, m) \<leftarrow>
                 for_range 0 (of_int (cl_uv_h c))
                   (\<lambda>i (vram_it, img_it, m).
                      do { m \<leftarrow> for_range 0 (of_int (cl_uv_w c))
                             (\<lambda>i m. Some (store32 m (vram_it + 4 * i)
                                (blend_pixel (load32 m (img_it + 4 * i)) (load32 m (vram_it + 4 * i))))) m;
                           Some (vram_it + 4 * of_int (fb_width fb), img_it + 4 * of_int w, m) })
                   (vram_it, img_it, m);
               Some m } }"

definition render_rect :: "framebuf_t \<Rightarrow> int \<Rightarrow> int \<Rightarrow> int \<Rightarrow> int \<Rightarrow> u32 \<Rightarrow> mem \<Rightarrow> mem option" where
  "render_rect fb x y w h clr m =
     do { clip \<leftarrow> check_image_bounds fb x y w h;
     case clip of
        None \<Rightarrow> Some m
      | Some c \<Rightarrow>
          do { vram_it \<leftarrow> px_ptr fb (cl_x c) (cl_y c);
               (vram_it, m) \<leftarrow>
                 for_range 0 (of_int (cl_uv_h c))
                   (\<lambda>i (vram_it, m). Some (vram_it + 4 * of_int (fb_width fb),
                      mset32 m vram_it clr (of_int (cl_uv_w c))))
                   (vram_it, m);
               Some m } }"

section \<open>Clipping\<close>

text \<open>
  The clip rectangle that the macro computes when no operation overflows: for a rectangle whose corners have
  coordinates of 32 bits.
\<close>

definition clip_bounds :: "framebuf_t \<Rightarrow> int \<Rightarrow> int \<Rightarrow> int \<Rightarrow> int \<Rightarrow> clip_t option" where
  "clip_bounds fb x y w h =
     (if x > fb_width fb \<or> x + w < 0 then None
      else if y > fb_height fb \<or> y + h < 0 then None
      else
        let uv_x = (if x < 0 then - x else 0);
            x = (if x < 0 then 0 else x);
            uv_w = w - uv_x;
            uv_w = (if x + w > fb_width fb then uv_w + (fb_width fb - (x + w)) else uv_w);
            uv_y = (if y < 0 then - y else 0);
            y = (if y < 0 then 0 else y);
            uv_h = h - uv_y;
            uv_h = (if y + h > fb_height fb then uv_h + (fb_height fb - (y + h)) else uv_h)
        in if uv_h \<le> 0 \<or> uv_w \<le> 0 then None
           else Some \<lparr>cl_x = x, cl_y = y, cl_uv_x = uv_x, cl_uv_y = uv_y, cl_uv_w = uv_w, cl_uv_h = uv_h\<rparr>)"

definition i32_rect :: "int \<Rightarrow> int \<Rightarrow> int \<Rightarrow> int \<Rightarrow> bool" where
  "i32_rect x y w h \<longleftrightarrow> (\<forall>i \<in> {x, y, w, h, x + w, y + h}. - (2 ^ 31) < i \<and> i < 2 ^ 31)"

lemma check_image_bounds_clip:
  assumes "i32_rect x y w h" and "0 \<le> fb_width fb" "0 \<le> fb_height fb"
  shows "check_image_bounds fb x y w h = Some (clip_bounds fb x y w h)"
  using assms by (auto simp: check_image_bounds_def clip_bounds_def i32_rect_def checked_def Let_def)

lemma clip_bounds_inside:
  assumes "clip_bounds fb x y w h = Some c" and "0 \<le> fb_width fb" "0 \<le> fb_height fb"
  shows "0 \<le> cl_x c" "0 < cl_uv_w c" "cl_x c + cl_uv_w c \<le> fb_width fb"
    "0 \<le> cl_y c" "0 < cl_uv_h c" "cl_y c + cl_uv_h c \<le> fb_height fb"
    "0 \<le> cl_uv_x c" "cl_uv_x c + cl_uv_w c \<le> w" "0 \<le> cl_uv_y c" "cl_uv_y c + cl_uv_h c \<le> h"
    "cl_x c = max x 0" "cl_y c = max y 0"
  using assms by (auto simp: clip_bounds_def Let_def split: if_splits)

text \<open>
  The right edge of what is drawn of the columns from \<open>x\<close> to \<open>x + w\<close> on a buffer of width \<open>W\<close>; the same
  holds for the rows.  It is the edge of the rectangle, unless the rectangle sticks out on both sides: then
  what is cut off on the left is cut off on the right once more.
\<close>

definition shown_end :: "int \<Rightarrow> int \<Rightarrow> int \<Rightarrow> int" where
  "shown_end W x w = (if x < 0 \<and> W < w then W + x else x + w)"

lemma shown_end_one_sided: "0 \<le> x \<or> w \<le> W \<Longrightarrow> shown_end W x w = x + w"
  by (auto simp: shown_end_def)

lemma clip_bounds_visible:
  assumes "clip_bounds fb x y w h = Some c"
  shows "cl_x c + cl_uv_w c = min (fb_width fb) (shown_end (fb_width fb) x w)"
    "cl_y c + cl_uv_h c = min (fb_height fb) (shown_end (fb_height fb) y h)"
    "cl_uv_x c = cl_x c - x" "cl_uv_y c = cl_y c - y"
  using assms by (auto simp: clip_bounds_def shown_end_def Let_def split: if_splits)

lemma clip_bounds_invisible:
  assumes "clip_bounds fb x y w h = None"
    and "0 \<le> px" "px < fb_width fb" "0 \<le> py" "py < fb_height fb"
  shows "\<not> (x \<le> px \<and> px < shown_end (fb_width fb) x w \<and> y \<le> py \<and> py < shown_end (fb_height fb) y h)"
  using assms by (auto simp: clip_bounds_def shown_end_def Let_def split: if_splits)

section \<open>Painting rows of pixels\<close>

text \<open>
  \<open>m'\<close> differs from \<open>m\<close> in the \<open>k\<close> rows of \<open>w\<close> pixels from column \<open>x0\<close> and row \<open>y0\<close> on, where it shows \<open>f\<close>.
  Pixels are addressed in an array of \<open>H\<close> rows of \<open>W\<close> pixels at \<open>base\<close>.
\<close>

definition painted :: "addr \<Rightarrow> nat \<Rightarrow> nat \<Rightarrow> nat \<Rightarrow> nat \<Rightarrow> nat \<Rightarrow> (nat \<Rightarrow> nat \<Rightarrow> u32) \<Rightarrow> nat \<Rightarrow> mem \<Rightarrow> mem \<Rightarrow> bool" where
  "painted base W H x0 y0 w f k m m' \<longleftrightarrow>
     (\<forall>px<W. \<forall>py<H. load32 m' (base + 4 * of_nat (px + W * py)) =
        (if y0 \<le> py \<and> py < y0 + k \<and> x0 \<le> px \<and> px < x0 + w then f (px - x0) (py - y0)
         else load32 m (base + 4 * of_nat (px + W * py)))) \<and>
     (\<forall>x. 4 * (W * H) \<le> unat (x - base) \<longrightarrow> m' x = m x)"

lemma row_index:
  fixes W :: nat
  assumes "px < W" and "x0 + w \<le> W"
  shows "x0 + W * r \<le> px + W * py \<and> px + W * py < x0 + W * r + w \<longleftrightarrow> py = r \<and> x0 \<le> px \<and> px < x0 + w"
proof
  assume l: "x0 + W * r \<le> px + W * py \<and> px + W * py < x0 + W * r + w"
  then have "W * r \<le> px + W * py" "px + W * py < W * r + W" using assms(2) by linarith+
  then have "(px + W * py) div W = r" using assms(1) by (intro div_nat_eqI) (simp_all add: algebra_simps)
  moreover have "(px + W * py) div W = py" using assms(1) by simp
  ultimately show "py = r \<and> x0 \<le> px \<and> px < x0 + w" using l by simp
qed auto

lemma pixel_in_range:
  fixes W :: nat
  assumes "px < W" and "py < H"
  shows "px + W * py < W * H"
proof -
  have "px + W * py < W * Suc py" using assms(1) by simp
  also have "\<dots> \<le> W * H" using assms(2) by (intro mult_le_mono2) simp
  finally show ?thesis .
qed

lemma painted_row:
  assumes P: "painted base W H x0 y0 w f k m m'" and "x0 + w \<le> W" and "y0 + k < H" and "4 * (W * H) \<le> 2 ^ 32"
    and vs: "vs = map (\<lambda>j. f j k) [0..<w]"
  shows "painted base W H x0 y0 w f (Suc k) m (store_dwords m' (base + 4 * of_nat (x0 + W * (y0 + k))) vs)"
proof -
  let ?i = "x0 + W * (y0 + k)"
  have lv: "length vs = w" by (simp add: vs)
  have fit: "?i + length vs \<le> W * H"
  proof -
    have "?i + w \<le> W * Suc (y0 + k)" using assms(2) by simp
    also have "\<dots> \<le> W * H" using assms(3) by (intro mult_le_mono2) simp
    finally show ?thesis by (simp only: lv)
  qed
  have "load32 (store_dwords m' (base + 4 * of_nat ?i) vs) (base + 4 * of_nat (px + W * py)) =
      (if y0 \<le> py \<and> py < y0 + Suc k \<and> x0 \<le> px \<and> px < x0 + w then f (px - x0) (py - y0)
       else load32 m (base + 4 * of_nat (px + W * py)))" if "px < W" "py < H" for px py
  proof -
    have old: "load32 m' (base + 4 * of_nat (px + W * py)) =
        (if y0 \<le> py \<and> py < y0 + k \<and> x0 \<le> px \<and> px < x0 + w then f (px - x0) (py - y0)
         else load32 m (base + 4 * of_nat (px + W * py)))" using P that unfolding painted_def by blast
    have "load32 (store_dwords m' (base + 4 * of_nat ?i) vs) (base + 4 * of_nat (px + W * py)) =
        (if py = y0 + k \<and> x0 \<le> px \<and> px < x0 + w then vs ! (px + W * py - ?i)
         else load32 m' (base + 4 * of_nat (px + W * py)))"
      unfolding store_dwords_load [OF fit pixel_in_range [OF that] assms(4)] lv row_index [OF that(1) assms(2)] ..
    moreover have "vs ! (px + W * py - ?i) = f (px - x0) k" if "py = y0 + k" "x0 \<le> px" "px < x0 + w"
      using that by (simp add: vs less_diff_conv2)
    ultimately show ?thesis unfolding old by auto
  qed
  moreover have "store_dwords m' (base + 4 * of_nat ?i) vs x = m x" if "4 * (W * H) \<le> unat (x - base)" for x
    using store_dwords_outside [OF that fit] P that by (simp add: painted_def)
  ultimately show ?thesis unfolding painted_def by blast
qed

lemma painted_at:
  "painted base W H x0 y0 w f k m m' \<Longrightarrow> px < W \<Longrightarrow> py < H \<Longrightarrow>
   load32 m' (base + 4 * of_nat (px + W * py)) =
     (if y0 \<le> py \<and> py < y0 + k \<and> x0 \<le> px \<and> px < x0 + w then f (px - x0) (py - y0)
      else load32 m (base + 4 * of_nat (px + W * py)))"
  by (simp only: painted_def)

lemma painted_0: "painted base W H x0 y0 w f 0 m m"
  by (auto simp: painted_def)

lemma for_range_rows:
  assumes "x0 + w \<le> W" and "y0 + h \<le> H" and "4 * (W * H) \<le> 2 ^ 32" and "h < 2 ^ 32"
    and row: "\<And>i m'. i < h \<Longrightarrow> painted base W H x0 y0 w f i m m' \<Longrightarrow>
      put m' (base + 4 * of_nat (x0 + W * (y0 + i))) (src + 4 * of_nat (V * i)) =
        store_dwords m' (base + 4 * of_nat (x0 + W * (y0 + i))) (map (\<lambda>j. f j i) [0..<w])"
  shows "\<exists>st. for_range 0 (of_nat h) (\<lambda>i (it, s, m). Some (it + 4 * of_nat W, s + 4 * of_nat V, put m it s))
      (base + 4 * of_nat (x0 + W * y0), src, m) = Some st \<and> painted base W H x0 y0 w f h m (snd (snd st))"
proof -
  let ?body = "\<lambda>(i :: usz) (it, s, m). Some (it + 4 * of_nat W, s + 4 * of_nat V, put m it s)"
  define P where "P = (\<lambda>(i :: usz) (it, s, m'). it = base + 4 * of_nat (x0 + W * (y0 + unat i)) \<and>
    s = src + 4 * of_nat (V * unat i) \<and> painted base W H x0 y0 w f (unat i) m m')"
  have h: "unat (of_nat h :: usz) = h" using assms(4) by (simp add: unat_of_nat_small)
  have "\<exists>st. for_range 0 (of_nat h) ?body (base + 4 * of_nat (x0 + W * y0), src, m) = Some st \<and> P (of_nat h) st"
  proof (rule for_range_rule [where P = P])
    show "P 0 (base + 4 * of_nat (x0 + W * y0), src, m)" by (simp add: P_def painted_0)
    fix i :: usz and st assume i: "i < of_nat h" and "P i st"
    then obtain m' where st: "st = (base + 4 * of_nat (x0 + W * (y0 + unat i)), src + 4 * of_nat (V * unat i), m')"
      and p: "painted base W H x0 y0 w f (unat i) m m'" by (auto simp: P_def)
    have il: "unat i < h" using i h by (simp add: word_less_nat_alt)
    then have "painted base W H x0 y0 w f (Suc (unat i)) m
        (store_dwords m' (base + 4 * of_nat (x0 + W * (y0 + unat i))) (map (\<lambda>j. f j (unat i)) [0..<w]))"
      by (intro painted_row [OF p]) (use assms(1-3) in simp_all)
    then show "\<exists>st'. ?body i st = Some st' \<and> P (i + 1) st'"
      unfolding st P_def using unat_succ_less [OF i] row [OF il p] by (simp add: algebra_simps)
  qed simp
  then show ?thesis by (auto simp: P_def h)
qed

lemma for_range_sim:
  assumes "\<And>i s. body' i (g s) = map_option g (body i s)"
  shows "for_range i e body' (g s) = map_option g (for_range i e body s)"
  using assms
proof (induction i e body s rule: for_range.induct)
  case (1 i e body s)
  show ?case
  proof (cases "i < e \<and> body i s \<noteq> None")
    case True
    then obtain s' where s': "body i s = Some s'" by blast
    from "1.IH" [OF _ s' "1.prems"] True show ?thesis
      by (simp add: for_range.simps [of i] "1.prems" s')
  next
    case False
    then show ?thesis by (auto simp: for_range.simps [of i] "1.prems")
  qed
qed

text \<open>What drawing \<open>f\<close> into the rectangle does to a frame buffer, whose pixels have a consecutive memory.\<close>

definition fb_ok :: "framebuf_t \<Rightarrow> bool" where
  "fb_ok fb \<longleftrightarrow> 0 < fb_width fb \<and> 0 < fb_height fb \<and> 4 * (fb_width fb * fb_height fb) \<le> 2 ^ 32"

definition drawn :: "framebuf_t \<Rightarrow> int \<Rightarrow> int \<Rightarrow> int \<Rightarrow> int \<Rightarrow> (int \<Rightarrow> int \<Rightarrow> u32) \<Rightarrow> mem \<Rightarrow> mem \<Rightarrow> bool" where
  "drawn fb x y w h f m m' \<longleftrightarrow>
     (\<forall>px py. 0 \<le> px \<and> px < fb_width fb \<and> 0 \<le> py \<and> py < fb_height fb \<longrightarrow>
        load32 m' (px_addr fb px py) =
          (if x \<le> px \<and> px < shown_end (fb_width fb) x w \<and> y \<le> py \<and> py < shown_end (fb_height fb) y h then f (px - x) (py - y) else load32 m (px_addr fb px py))) \<and>
     (\<forall>a. 4 * nat (fb_width fb * fb_height fb) \<le> unat (a - fb_px_data fb) \<longrightarrow> m' a = m a)"

lemma px_addr_nat:
  assumes "0 \<le> px" and "0 \<le> py" and "0 \<le> fb_width fb"
  shows "px_addr fb px py = fb_px_data fb + 4 * of_nat (nat px + nat (fb_width fb) * nat py)"
  using assms by (simp add: px_addr_def)

lemma px_ptr_addr:
  assumes "fb_ok fb" and "0 \<le> x" "x < fb_width fb" "0 \<le> y" "y < fb_height fb"
  shows "px_ptr fb x y = Some (px_addr fb x y)"
proof -
  let ?W = "fb_width fb"
  have "x + ?W * y < ?W * (y + 1)" using assms(3) by (simp add: distrib_left)
  moreover have "?W * (y + 1) \<le> ?W * fb_height fb" using assms by (intro mult_left_mono) simp_all
  moreover have "4 * (?W * fb_height fb) \<le> 2 ^ 32" using assms(1) by (simp only: fb_ok_def)
  ultimately have "x + ?W * y < 2 ^ 31" by (simp add: mult.commute [of "fb_height fb"])
  moreover have "0 \<le> ?W * y" using assms by simp
  ultimately show ?thesis using assms(2) by (simp add: px_ptr_def px_addr_def checked_def)
qed

lemma painted_drawn:
  assumes c: "clip_bounds fb x y w h = Some c" and ok: "fb_ok fb"
    and p: "painted (fb_px_data fb) (nat (fb_width fb)) (nat (fb_height fb)) (nat (cl_x c)) (nat (cl_y c)) (nat (cl_uv_w c))
      (\<lambda>j i. f (int j + cl_x c - x) (int i + cl_y c - y)) (nat (cl_uv_h c)) m m'"
  shows "drawn fb x y w h f m m'"
proof -
  let ?W = "fb_width fb" and ?H = "fb_height fb"
  have WH: "0 < ?W" "0 < ?H" using ok by (simp_all add: fb_ok_def)
  note ins = clip_bounds_inside [OF c less_imp_le [OF WH(1)] less_imp_le [OF WH(2)]] and vis = clip_bounds_visible [OF c]
  have "load32 m' (px_addr fb px py) =
      (if x \<le> px \<and> px < shown_end (fb_width fb) x w \<and> y \<le> py \<and> py < shown_end (fb_height fb) y h then f (px - x) (py - y) else load32 m (px_addr fb px py))"
    if s: "0 \<le> px" "px < ?W" "0 \<le> py" "py < ?H" for px py
  proof -
    have "nat px < nat ?W" "nat py < nat ?H" using s by simp_all
    with p have q: "load32 m' (px_addr fb px py) =
        (if nat (cl_y c) \<le> nat py \<and> nat py < nat (cl_y c) + nat (cl_uv_h c) \<and> nat (cl_x c) \<le> nat px \<and>
            nat px < nat (cl_x c) + nat (cl_uv_w c)
         then f (int (nat px - nat (cl_x c)) + cl_x c - x) (int (nat py - nat (cl_y c)) + cl_y c - y)
         else load32 m (px_addr fb px py))"
      unfolding px_addr_nat [OF s(1,3) less_imp_le [OF WH(1)]] by (intro painted_at [OF p])
    have "nat (cl_y c) \<le> nat py \<and> nat py < nat (cl_y c) + nat (cl_uv_h c) \<longleftrightarrow> cl_y c \<le> py \<and> py < cl_y c + cl_uv_h c"
      using s ins(4,5) by auto
    also have "\<dots> \<longleftrightarrow> y \<le> py \<and> py < shown_end (fb_height fb) y h" unfolding vis(2) using s ins(12) by auto
    finally have ys: "nat (cl_y c) \<le> nat py \<and> nat py < nat (cl_y c) + nat (cl_uv_h c) \<longleftrightarrow> y \<le> py \<and> py < shown_end (fb_height fb) y h" .
    have "nat (cl_x c) \<le> nat px \<and> nat px < nat (cl_x c) + nat (cl_uv_w c) \<longleftrightarrow> cl_x c \<le> px \<and> px < cl_x c + cl_uv_w c"
      using s ins(1,2) by auto
    also have "\<dots> \<longleftrightarrow> x \<le> px \<and> px < shown_end (fb_width fb) x w" unfolding vis(1) using s ins(11) by auto
    finally have xs: "nat (cl_x c) \<le> nat px \<and> nat px < nat (cl_x c) + nat (cl_uv_w c) \<longleftrightarrow> x \<le> px \<and> px < shown_end (fb_width fb) x w" .
    from ys xs have "nat (cl_y c) \<le> nat py \<and> nat py < nat (cl_y c) + nat (cl_uv_h c) \<and> nat (cl_x c) \<le> nat px \<and>
        nat px < nat (cl_x c) + nat (cl_uv_w c) \<longleftrightarrow> x \<le> px \<and> px < shown_end (fb_width fb) x w \<and> y \<le> py \<and> py < shown_end (fb_height fb) y h" by blast
    moreover have "int (nat px - nat (cl_x c)) + cl_x c - x = px - x" if "x \<le> px" using that s ins(1,11) by simp
    moreover have "int (nat py - nat (cl_y c)) + cl_y c - y = py - y" if "y \<le> py" using that s ins(4,12) by simp
    ultimately show ?thesis unfolding q by auto
  qed
  moreover have "m' a = m a" if "4 * nat (?W * ?H) \<le> unat (a - fb_px_data fb)" for a
    using that p WH by (simp add: painted_def nat_mult_distrib)
  ultimately show ?thesis unfolding drawn_def by blast
qed

lemma invisible_drawn:
  assumes "clip_bounds fb x y w h = None"
  shows "drawn fb x y w h f m m"
  using clip_bounds_invisible [OF assms] unfolding drawn_def by auto

lemma clip_sizes:
  assumes c: "clip_bounds fb x y w h = Some c" and ok: "fb_ok fb"
  shows "of_int (cl_uv_h c) = (of_nat (nat (cl_uv_h c)) :: u32)" "of_int (cl_uv_w c) = (of_nat (nat (cl_uv_w c)) :: u32)"
    "of_int (fb_width fb) = (of_nat (nat (fb_width fb)) :: u32)"
    "nat (cl_x c) + nat (cl_uv_w c) \<le> nat (fb_width fb)" "nat (cl_y c) + nat (cl_uv_h c) \<le> nat (fb_height fb)"
    "4 * (nat (fb_width fb) * nat (fb_height fb)) \<le> 2 ^ 32" "nat (cl_uv_h c) < 2 ^ 32" "nat (cl_uv_w c) < 2 ^ 32"
    "px_addr fb (cl_x c) (cl_y c) = fb_px_data fb + 4 * of_nat (nat (cl_x c) + nat (fb_width fb) * nat (cl_y c))"
proof -
  have WH: "0 < fb_width fb" "0 < fb_height fb" "4 * (fb_width fb * fb_height fb) \<le> 2 ^ 32"
    using ok by (simp_all add: fb_ok_def)
  note ins = clip_bounds_inside [OF c less_imp_le [OF WH(1)] less_imp_le [OF WH(2)]]
  show "of_int (cl_uv_h c) = (of_nat (nat (cl_uv_h c)) :: u32)" "of_int (cl_uv_w c) = (of_nat (nat (cl_uv_w c)) :: u32)"
    "of_int (fb_width fb) = (of_nat (nat (fb_width fb)) :: u32)"
    using WH ins by (simp_all only: of_nat_nat less_imp_le)
  show "nat (cl_x c) + nat (cl_uv_w c) \<le> nat (fb_width fb)" "nat (cl_y c) + nat (cl_uv_h c) \<le> nat (fb_height fb)"
    using ins by linarith+
  show n: "4 * (nat (fb_width fb) * nat (fb_height fb)) \<le> 2 ^ 32"
    by (rule of_nat_le_iff [where 'a = int, THEN iffD1]) (use WH in simp)
  have "nat (fb_height fb) \<le> nat (fb_width fb) * nat (fb_height fb)" "nat (fb_width fb) \<le> nat (fb_width fb) * nat (fb_height fb)"
    using WH by simp_all
  then show "nat (cl_uv_h c) < 2 ^ 32" "nat (cl_uv_w c) < 2 ^ 32" using n ins WH by linarith+
  show "px_addr fb (cl_x c) (cl_y c) = fb_px_data fb + 4 * of_nat (nat (cl_x c) + nat (fb_width fb) * nat (cl_y c))"
    using ins WH by (intro px_addr_nat) simp_all
qed

lemma clip_px_ptr:
  assumes c: "clip_bounds fb x y w h = Some c" and ok: "fb_ok fb"
  shows "px_ptr fb (cl_x c) (cl_y c) = Some (px_addr fb (cl_x c) (cl_y c))"
proof -
  have WH: "0 \<le> fb_width fb" "0 \<le> fb_height fb" using ok by (simp_all add: fb_ok_def)
  show ?thesis using clip_bounds_inside [OF c WH] by (intro px_ptr_addr [OF ok]) linarith+
qed

lemma macro_clip:
  "fb_ok fb \<Longrightarrow> i32_rect x y w h \<Longrightarrow> check_image_bounds fb x y w h = Some (clip_bounds fb x y w h)"
  by (rule check_image_bounds_clip) (simp_all add: fb_ok_def)

section \<open>Rectangles and images\<close>

lemma render_rect_draws:
  assumes ok: "fb_ok fb" and i32: "i32_rect x y w h"
  shows "\<exists>m'. render_rect fb x y w h clr m = Some m' \<and> drawn fb x y w h (\<lambda>_ _. clr) m m'"
proof (cases "clip_bounds fb x y w h")
  case None
  with invisible_drawn [OF None] show ?thesis by (simp add: render_rect_def macro_clip [OF ok i32])
next
  case (Some c)
  note z = clip_sizes [OF Some ok] and pp = clip_px_ptr [OF Some ok]
  let ?put = "\<lambda>m it (s :: addr). mset32 m it clr (of_nat (nat (cl_uv_w c)))"
  let ?W = "nat (fb_width fb)"
  have row: "mset32 m' a clr (of_nat (nat (cl_uv_w c))) = store_dwords m' a (map (\<lambda>j. clr) [0..<nat (cl_uv_w c)])" for m' a
    using z(8) by (simp add: mset32_dwords unat_of_nat_small map_replicate_const)
  from for_range_rows [where put = ?put and src = 0 and V = 0 and f = "\<lambda>_ _. clr" and m = m, OF z(4,5,6,7) row]
  obtain st where run: "for_range 0 (of_nat (nat (cl_uv_h c))) (\<lambda>i (it, s, m). Some (it + 4 * of_nat ?W, s + 4 * of_nat 0, ?put m it s))
      (fb_px_data fb + 4 * of_nat (nat (cl_x c) + ?W * nat (cl_y c)), 0, m) = Some st"
    and p: "painted (fb_px_data fb) ?W (nat (fb_height fb)) (nat (cl_x c)) (nat (cl_y c)) (nat (cl_uv_w c)) (\<lambda>_ _. clr)
      (nat (cl_uv_h c)) m (snd (snd st))" by blast
  have "for_range 0 (of_nat (nat (cl_uv_h c))) (\<lambda>i (vram_it, m). Some (vram_it + 4 * of_nat ?W, mset32 m vram_it clr (of_nat (nat (cl_uv_w c)))))
      (fb_px_data fb + 4 * of_nat (nat (cl_x c) + ?W * nat (cl_y c)), m) = Some (fst st, snd (snd st))"
    using for_range_sim [where g = "\<lambda>(it, s :: addr, m). (it, m)", of "\<lambda>i (vram_it, m). Some (vram_it + 4 * of_nat ?W, mset32 m vram_it clr (of_nat (nat (cl_uv_w c))))"
        "\<lambda>i (it, s, m). Some (it + 4 * of_nat ?W, s + 4 * of_nat 0, ?put m it s)"
        0 "of_nat (nat (cl_uv_h c))" "(fb_px_data fb + 4 * of_nat (nat (cl_x c) + ?W * nat (cl_y c)), 0, m)"] run
    by (simp add: case_prod_beta)
  then have "render_rect fb x y w h clr m = Some (snd (snd st))"
    unfolding render_rect_def macro_clip [OF ok i32] bind.bind_lunit Some option.case pp z(1,2,3,9) by simp
  with painted_drawn [OF Some ok p] show ?thesis by blast
qed

lemma mmove32_dwords:
  assumes "n < 2 ^ 32" and "\<And>i j. i < n \<Longrightarrow> j < n \<Longrightarrow> away (d + 4 * of_nat i) 4 (s + 4 * of_nat j) 4"
  shows "mmove32_loop m d s (of_nat n) = store_dwords m d (map (\<lambda>j. load32 m (s + 4 * of_nat j)) [0..<n])"
  using assms
proof (induction n arbitrary: m d s)
  case 0
  then show ?case by (simp add: mmove32_loop.simps)
next
  case (Suc n)
  let ?m = "store32 m d (load32 m s)"
  have "mmove32_loop m d s (of_nat (Suc n)) = mmove32_loop ?m (d + 4) (s + 4) (of_nat n)"
    using of_nat_Suc_neq_0 [of n, where 'a = 32] Suc.prems(1) by (subst mmove32_loop.simps) simp
  also have "\<dots> = store_dwords ?m (d + 4) (map (\<lambda>j. load32 ?m (s + 4 + 4 * of_nat j)) [0..<n])"
  proof (rule Suc.IH)
    show "away (d + 4 + 4 * of_nat i) 4 (s + 4 + 4 * of_nat j) 4" if "i < n" "j < n" for i j
      using Suc.prems(2) [of "Suc i" "Suc j"] that by (simp add: algebra_simps)
  qed (use Suc.prems(1) in simp)
  also have "map (\<lambda>j. load32 ?m (s + 4 + 4 * of_nat j)) [0..<n] = map (\<lambda>j. load32 m (s + 4 * of_nat (Suc j))) [0..<n]"
  proof (intro map_cong refl)
    fix j assume "j \<in> set [0..<n]"
    with Suc.prems(2) [of 0 "Suc j"] have "away d 4 (s + 4 * of_nat (Suc j)) 4" by simp
    then have "load32 ?m (s + 4 * of_nat (Suc j)) = load32 m (s + 4 * of_nat (Suc j))"
      by (intro load32_cong allI impI store32_away)
    then show "load32 ?m (s + 4 + 4 * of_nat j) = load32 m (s + 4 * of_nat (Suc j))" by (simp add: algebra_simps)
  qed
  finally show ?case by (simp add: upt_conv_Cons map_Suc_upt [symmetric] o_def del: upt_Suc)
qed

text \<open>An image of \<open>w\<close> times \<open>h\<close> pixels at \<open>data\<close>, in memory apart from the frame buffer, and its pixels.\<close>

definition image_apart :: "framebuf_t \<Rightarrow> addr \<Rightarrow> int \<Rightarrow> int \<Rightarrow> bool" where
  "image_apart fb data w h \<longleftrightarrow> away (fb_px_data fb) (4 * nat (fb_width fb * fb_height fb)) data (4 * nat (w * h))"

definition img_px :: "mem \<Rightarrow> addr \<Rightarrow> int \<Rightarrow> int \<Rightarrow> int \<Rightarrow> u32" where
  "img_px m data w u v = load32 m (data + 4 * of_int (v * w + u))"

lemma image_pixel_apart:
  assumes "image_apart fb data w h" and "0 \<le> fb_width fb" and "0 \<le> fb_height fb"
    and "p < nat (fb_width fb) * nat (fb_height fb)" and "q < nat (w * h)"
  shows "away (fb_px_data fb + 4 * of_nat p) 4 (data + 4 * of_nat q) 4"
  unfolding away_def
proof (intro allI impI)
  fix k :: nat assume "k < 4"
  then have "4 * q + k < 4 * nat (w * h)" using assms(5) by simp
  with assms(1) have "4 * nat (fb_width fb * fb_height fb) \<le> unat (data + of_nat (4 * q + k) - fb_px_data fb)"
    unfolding image_apart_def away_def by blast
  then have "4 * (nat (fb_width fb) * nat (fb_height fb)) \<le> unat (data + 4 * of_nat q + of_nat k - fb_px_data fb)"
    using assms(2,3) by (simp add: nat_mult_distrib add.assoc)
  from dword_outside [OF this assms(4)] show "4 \<le> unat (data + 4 * of_nat q + of_nat k - (fb_px_data fb + 4 * of_nat p))" .
qed

lemma image_pixel_kept:
  assumes "image_apart fb data w h" and "0 \<le> fb_width fb" and "0 \<le> fb_height fb" and "q < nat (w * h)"
    and "painted (fb_px_data fb) (nat (fb_width fb)) (nat (fb_height fb)) x0 y0 v f k m m'"
  shows "load32 m' (data + 4 * of_nat q) = load32 m (data + 4 * of_nat q)"
proof (rule load32_cong, intro allI impI)
  fix i :: nat assume "i < 4"
  then have "4 * q + i < 4 * nat (w * h)" using assms(4) by simp
  with assms(1) have "4 * nat (fb_width fb * fb_height fb) \<le> unat (data + of_nat (4 * q + i) - fb_px_data fb)"
    unfolding image_apart_def away_def by blast
  with assms(2,3,5) have "m' (data + of_nat (4 * q + i)) = m (data + of_nat (4 * q + i))"
    by (simp only: painted_def nat_mult_distrib)
  then show "m' (data + 4 * of_nat q + of_nat i) = m (data + 4 * of_nat q + of_nat i)" by (simp add: add.assoc)
qed

text \<open>An image that leaves room for the frame buffer has an index of 32 bits for each of its pixels.\<close>

lemma image_apart_small:
  assumes "image_apart fb data w h" and "fb_ok fb"
  shows "w * h < 2 ^ 30"
proof (rule ccontr)
  let ?k = "unat (fb_px_data fb - data)"
  assume "\<not> w * h < 2 ^ 30"
  then have "2 ^ 32 \<le> 4 * nat (w * h)" by simp
  moreover have "?k < 2 ^ 32" using unsigned_less [of "fb_px_data fb - data"] by simp
  ultimately have "?k < 4 * nat (w * h)" by linarith
  with assms(1) have "4 * nat (fb_width fb * fb_height fb) \<le> unat (data + of_nat ?k - fb_px_data fb)"
    unfolding image_apart_def away_def by blast
  moreover have "0 < fb_width fb * fb_height fb" using assms(2) by (simp add: fb_ok_def)
  ultimately show False by simp
qed

lemma img_ptr_inside:
  assumes "clip_bounds fb x y w h = Some c" and "fb_ok fb" and "w * h < 2 ^ 30"
  shows "img_ptr data w c = Some (data + 4 * of_int (cl_uv_y c * w + cl_uv_x c))"
proof -
  have WH: "0 \<le> fb_width fb" "0 \<le> fb_height fb" using assms(2) by (simp_all add: fb_ok_def)
  note ins = clip_bounds_inside [OF assms(1) WH]
  have "cl_uv_y c * w + cl_uv_x c < (cl_uv_y c + 1) * w" using ins by (simp add: distrib_right)
  also have "\<dots> \<le> h * w" using ins by (intro mult_right_mono) linarith+
  finally have "cl_uv_y c * w + cl_uv_x c < 2 ^ 30" using assms(3) by (simp add: mult.commute)
  moreover have "0 \<le> cl_uv_y c * w" using ins by (intro mult_nonneg_nonneg) linarith+
  ultimately show ?thesis using ins(7) by (simp add: img_ptr_def checked_def)
qed

lemma render_put_image_draws:
  assumes ok: "fb_ok fb" and i32: "i32_rect x y w h" and img: "image_apart fb data w h"
  shows "\<exists>m'. render_put_image fb data x y w h m = Some m' \<and> drawn fb x y w h (img_px m data w) m m'"
proof (cases "clip_bounds fb x y w h")
  case None
  with invisible_drawn [OF None] show ?thesis by (simp add: render_put_image_def macro_clip [OF ok i32])
next
  case (Some c)
  have WH: "0 \<le> fb_width fb" "0 \<le> fb_height fb" using ok by (simp_all add: fb_ok_def)
  note z = clip_sizes [OF Some ok] and ins = clip_bounds_inside [OF Some WH] and vis = clip_bounds_visible [OF Some]
  define W H x0 y0 n V where d: "W = nat (fb_width fb)" "H = nat (fb_height fb)" "x0 = nat (cl_x c)" "y0 = nat (cl_y c)"
    "n = nat (cl_uv_w c)" "V = nat w"
  define q0 where "q0 = nat (cl_uv_y c * w + cl_uv_x c)"
  define f where "f = (\<lambda>j i. img_px m data w (int j + cl_x c - x) (int i + cl_y c - y))"
  have w: "0 < w" using ins by linarith
  have wV: "of_int w = (of_nat V :: u32)" using w by (simp add: d(6))
  have q0: "of_int (cl_uv_y c * w + cl_uv_x c) = (of_nat q0 :: u32)" "int q0 = cl_uv_y c * w + cl_uv_x c"
    unfolding q0_def using w ins by (simp_all del: of_int_add of_int_mult)
  have inside: "q0 + V * i + j < nat (w * h)" if "i < nat (cl_uv_h c)" "j < n" for i j
  proof -
    have "int (q0 + V * i + j) = (cl_uv_y c + int i) * w + (cl_uv_x c + int j)"
      using w by (simp add: q0(2) d(6) algebra_simps)
    also have "\<dots> < (cl_uv_y c + int i) * w + w" using that ins by (simp add: d(5))
    also have "\<dots> = (cl_uv_y c + int i + 1) * w" by (simp add: algebra_simps)
    also have "\<dots> \<le> h * w" using that ins w by (intro mult_right_mono) linarith+
    finally show ?thesis by (simp add: mult.commute zless_nat_eq_int_zless)
  qed
  have row: "mcpy32 m' (fb_px_data fb + 4 * of_nat (x0 + W * (y0 + i))) (data + 4 * of_nat q0 + 4 * of_nat (V * i)) (of_nat n) =
      store_dwords m' (fb_px_data fb + 4 * of_nat (x0 + W * (y0 + i))) (map (\<lambda>j. f j i) [0..<n])"
    if "i < nat (cl_uv_h c)" and p: "painted (fb_px_data fb) W H x0 y0 n f i m m'" for i m'
  proof -
    have "y0 + i < H" "x0 + n \<le> W" using that(1) z(4,5) by (simp_all add: d)
    then have fit: "x0 + W * (y0 + i) + k < W * H" if "k < n" for k
      using pixel_in_range [of "x0 + k" W "y0 + i" H] that by simp
    have aw: "away (fb_px_data fb + 4 * of_nat (x0 + W * (y0 + i)) + 4 * of_nat k) 4
        (data + 4 * of_nat q0 + 4 * of_nat (V * i) + 4 * of_nat j) 4" if "k < n" "j < n" for k j
      using image_pixel_apart [OF img WH, of "x0 + W * (y0 + i) + k" "q0 + V * i + j"]
        fit [OF that(1)] inside [OF \<open>i < nat (cl_uv_h c)\<close> that(2)] by (simp add: d(1,2) algebra_simps)
    have "load32 m' (data + 4 * of_nat q0 + 4 * of_nat (V * i) + 4 * of_nat j) = f j i" if j: "j < n" for j
    proof -
      have "data + 4 * of_nat q0 + 4 * of_nat (V * i) + 4 * of_nat j = data + 4 * (of_nat (q0 + V * i + j) :: addr)"
        by (simp add: algebra_simps)
      moreover have "(of_nat (q0 + V * i + j) :: addr) = of_int ((int i + cl_y c - y) * w + (int j + cl_x c - x))"
        using q0(1) wV vis(3,4) by (simp add: algebra_simps)
      moreover have "load32 m' (data + 4 * of_nat (q0 + V * i + j)) = load32 m (data + 4 * of_nat (q0 + V * i + j))"
        by (rule image_pixel_kept [OF img WH inside [OF \<open>i < nat (cl_uv_h c)\<close> j] p [unfolded d(1,2)]])
      ultimately show ?thesis by (simp only: f_def img_px_def)
    qed
    then have "map (\<lambda>j. load32 m' (data + 4 * of_nat q0 + 4 * of_nat (V * i) + 4 * of_nat j)) [0..<n] = map (\<lambda>j. f j i) [0..<n]"
      by simp
    with mmove32_dwords [OF z(8) [folded d(5)] aw, of m'] show ?thesis by (simp only: mcpy32_def)
  qed
  from for_range_rows [where put = "\<lambda>m it s. mcpy32 m it s (of_nat n)" and m = m and f = f, OF z(4,5,6,7) [folded d] row]
  obtain st where run: "for_range 0 (of_nat (nat (cl_uv_h c))) (\<lambda>i (it, s, m). Some (it + 4 * of_nat W, s + 4 * of_nat V, mcpy32 m it s (of_nat n)))
      (fb_px_data fb + 4 * of_nat (x0 + W * y0), data + 4 * of_nat q0, m) = Some st"
    and p: "painted (fb_px_data fb) W H x0 y0 n f (nat (cl_uv_h c)) m (snd (snd st))" by blast
  have "render_put_image fb data x y w h m = Some (snd (snd st))"
    unfolding render_put_image_def macro_clip [OF ok i32] bind.bind_lunit Some option.case clip_px_ptr [OF Some ok]
      img_ptr_inside [OF Some ok image_apart_small [OF img ok]] z(1,2,3,9) [folded d] wV q0(1) run by (simp add: case_prod_beta)
  with painted_drawn [OF Some ok p [unfolded d f_def]] show ?thesis by blast
qed

text \<open>
  An image that sticks out on both sides is clipped too much: of a rectangle that covers all ten columns of a
  frame buffer, and two more on the left, only eight columns are drawn.
\<close>

lemma clip_bounds_two_sided:
  "map_option cl_uv_w (clip_bounds \<lparr>fb_width = 10, fb_height = 10, fb_px_data = 0, fb_px_count = 100\<rparr> (- 2) 0 14 1) = Some 8"
  by (simp add: clip_bounds_def)

section \<open>Blending\<close>

text \<open>
  The shift amounts make opaque pixels replace and zero pixels keep what is there; a pixel of half
  transparency only reaches the top bit, so it is not seen at all.
\<close>

lemma take_bit_plus_high:
  fixes c v :: u32
  shows "take_bit 24 (c + push_bit 31 v) = take_bit 24 c"
proof -
  have dvd: "(16777216 :: nat) dvd 2147483648" "(16777216 :: nat) dvd 4294967296" by (simp_all add: dvd_eq_mod_eq_0)
  have "16777216 dvd unat v * 2147483648 mod (4294967296 :: nat)" using dvd by (simp add: dvd_mod dvd_mult)
  then obtain q where q: "unat v * 2147483648 mod 4294967296 = 16777216 * q" by (elim dvdE)
  have "unat (c + push_bit 31 v) mod 16777216 = (unat c + 16777216 * q) mod 16777216"
    by (simp add: unat_word_ariths unat_push_bit q mod_mod_cancel [OF dvd(2)])
  then show ?thesis by (simp add: word_unat_eq_iff unat_take_bit)
qed

lemma blend_opaque: "drop_bit 24 clr = 255 \<Longrightarrow> take_bit 24 (blend_pixel clr vram) = take_bit 24 clr"
  by (simp add: blend_pixel_def shl_def take_bit_plus_high)

lemma blend_zero [simp]: "blend_pixel 0 vram = vram"
  by (simp add: blend_pixel_def shl_def)

lemma blend_half: "drop_bit 24 clr = 128 \<Longrightarrow> take_bit 24 (blend_pixel clr vram) = take_bit 24 vram"
proof -
  assume a: "drop_bit 24 clr = 128"
  have "blend_pixel clr vram = push_bit 31 clr + vram" by (simp add: blend_pixel_def shl_def a)
  then show ?thesis by (simp only: add.commute [of "push_bit 31 clr"] take_bit_plus_high)
qed

section \<open>Properties\<close>


definition sample_fb :: framebuf_t where
  "sample_fb = \<lparr>fb_width = 2, fb_height = 2, fb_px_data = 0x1000, fb_px_count = 4\<rparr>"


end
