(* ===== verification/Spinlock.thy ===== *)
theory Spinlock
  imports Prelude
begin

text \<open>
  The spinlock of \<^verbatim>\<open>libk/spinlock.c\<close>.  The functions work on the byte of the lock; the loop of
  \<^verbatim>\<open>spinlock_lock\<close> is a partial function, which has no value when the lock is held and nobody else
  runs.  A step relation interleaves the atomic accesses of any number of processors; its
  invariant gives mutual exclusion.
\<close>

section \<open>The lock\<close>

text \<open>\<^verbatim>\<open>lock bts [val], 0\<close>: the carry flag is the old bit 0, which is set.\<close>

definition atomic_test_and_set :: "u8 \<Rightarrow> u8 \<times> u8" where
  "atomic_test_and_set val = (val AND 1, val OR 1)"

partial_function (option) spinlock_lock :: "u8 \<Rightarrow> u8 option" where
  "spinlock_lock lck =
     (let (cf, lck') = atomic_test_and_set lck in if cf \<noteq> 0 then spinlock_lock lck' else Some lck')"

definition spinlock_release :: "u8 \<Rightarrow> u8" where
  "spinlock_release lck = 0"

lemma spinlock_lock_free [simp]: "spinlock_lock 0 = Some 1"
  by (subst spinlock_lock.simps) (simp add: atomic_test_and_set_def)

text \<open>A lock that nobody releases is never taken.\<close>

lemma spinlock_lock_Some:
  assumes "spinlock_lock l = Some l'"
  shows "even l"
  using assms
proof (rule spinlock_lock.raw_induct [rotated])
  fix f :: "u8 \<Rightarrow> u8 option" and l l'
  assume IH: "\<And>l l'. f l = Some l' \<Longrightarrow> even l"
    and body: "(let (cf, lck') = atomic_test_and_set l in if cf \<noteq> 0 then f lck' else Some lck') = Some l'"
  show "even l"
  proof (cases "l AND 1 = 0")
    case True
    then show ?thesis by (simp add: and_one_eq even_iff_mod_2_eq_zero)
  next
    case False
    with body have "f (l OR 1) = Some l'" by (simp add: atomic_test_and_set_def)
    from IH [OF this] show ?thesis by (simp add: even_or_iff)
  qed
qed

lemma spinlock_lock_held [simp]: "spinlock_lock 1 = None"
  using spinlock_lock_Some [of 1] by (cases "spinlock_lock 1") auto

section \<open>Many processors\<close>

datatype cpu_pc = Outside | Spinning | Critical

record lock_state =
  locked :: u8
  pc :: "nat \<Rightarrow> cpu_pc"

text \<open>
  One access of one processor: the call of \<^verbatim>\<open>spinlock_lock\<close>, a test-and-set that finds the lock taken,
  one that takes it, and the store of \<^verbatim>\<open>spinlock_release\<close> by the holder.
\<close>

inductive lock_step :: "lock_state \<Rightarrow> lock_state \<Rightarrow> bool" where
  call: "pc s i = Outside \<Longrightarrow> lock_step s (s\<lparr>pc := (pc s)(i := Spinning)\<rparr>)"
| busy: "pc s i = Spinning \<Longrightarrow> atomic_test_and_set (locked s) = (cf, l) \<Longrightarrow> cf \<noteq> 0 \<Longrightarrow>
    lock_step s (s\<lparr>locked := l\<rparr>)"
| taken: "pc s i = Spinning \<Longrightarrow> atomic_test_and_set (locked s) = (cf, l) \<Longrightarrow> cf = 0 \<Longrightarrow>
    lock_step s (s\<lparr>locked := l, pc := (pc s)(i := Critical)\<rparr>)"
| release: "pc s i = Critical \<Longrightarrow>
    lock_step s (s\<lparr>locked := spinlock_release (locked s), pc := (pc s)(i := Outside)\<rparr>)"

inductive lock_reachable :: "lock_state \<Rightarrow> bool" where
  init: "lock_reachable \<lparr>locked = 0, pc = (\<lambda>_. Outside)\<rparr>"
| step: "lock_reachable s \<Longrightarrow> lock_step s s' \<Longrightarrow> lock_reachable s'"

inductive_cases lock_stepE: "lock_step s s'"

definition lock_inv :: "lock_state \<Rightarrow> bool" where
  "lock_inv s \<longleftrightarrow> locked s \<in> {0, 1} \<and> (locked s = 0 \<longrightarrow> (\<forall>i. pc s i \<noteq> Critical)) \<and>
     (locked s = 1 \<longrightarrow> (\<exists>!i. pc s i = Critical))"

lemma atomic_cases:
  assumes "atomic_test_and_set v = (cf, l)" and "v \<in> {0, 1}"
  shows "cf = v" "l = 1"
  using assms by (auto simp: atomic_test_and_set_def)

lemma lock_step_inv:
  assumes "lock_step s s'" and "lock_inv s"
  shows "lock_inv s'"
  using assms(1)
proof cases
  case (call i)
  with assms(2) have "pc s' j = Critical \<longleftrightarrow> pc s j = Critical" for j by auto
  with call assms(2) show ?thesis by (simp add: lock_inv_def)
next
  case (busy i cf l)
  with assms(2) atomic_cases [of "locked s" cf l] have "s' = s" by (auto simp: lock_inv_def)
  with assms(2) show ?thesis by simp
next
  case (taken i cf l)
  with assms(2) atomic_cases [of "locked s" cf l] show ?thesis by (auto simp: lock_inv_def)
next
  case (release i)
  have "locked s = 1" using release assms(2) by (auto simp: lock_inv_def)
  with release assms(2) have "pc s j \<noteq> Critical" if "j \<noteq> i" for j
    using that unfolding lock_inv_def by blast
  with release show ?thesis by (auto simp: lock_inv_def spinlock_release_def)
qed

lemma lock_reachable_inv: "lock_reachable s \<Longrightarrow> lock_inv s"
  by (induction rule: lock_reachable.induct) (simp add: lock_inv_def, rule lock_step_inv)

section \<open>Properties\<close>

text \<open>
  C25 The spinlock gives mutual exclusion without blocking an idle lock: in every reachable state at
  most one processor is in its critical section, and when none is, the lock byte is 0, so the next
  test-and-set of any waiting processor takes the lock.
\<close>

theorem spinlock_mutual_exclusion:
  assumes "lock_reachable s"
  shows "(pc s i = Critical \<and> pc s j = Critical \<longrightarrow> i = j) \<and>
    ((\<forall>k. pc s k \<noteq> Critical) \<longrightarrow> spinlock_lock (locked s) = Some 1)"
proof -
  from lock_reachable_inv [OF assms] have inv: "lock_inv s" .
  then have "locked s = 0" if "\<forall>k. pc s k \<noteq> Critical" using that by (auto simp: lock_inv_def)
  with inv show ?thesis by (auto simp: lock_inv_def)
qed

definition lock_one_holds :: lock_state where
  "lock_one_holds = \<lparr>locked = 1, pc = (\<lambda>_. Outside)(3 := Critical)\<rparr>"

lemma lock_one_holds_reachable: "lock_reachable lock_one_holds"
proof -
  let ?s0 = "\<lparr>locked = 0, pc = (\<lambda>_. Outside)\<rparr>" and ?s1 = "\<lparr>locked = 0, pc = (\<lambda>_. Outside)(3 := Spinning)\<rparr>"
  have "lock_step ?s0 ?s1" using lock_step.call [of ?s0 3] by simp
  with lock_reachable.init have "lock_reachable ?s1" by (rule lock_reachable.step)
  moreover have "lock_step ?s1 lock_one_holds"
    using lock_step.taken [of ?s1 3 0 1] by (simp add: lock_one_holds_def atomic_test_and_set_def)
  ultimately show ?thesis by (rule lock_reachable.step)
qed

theorem spinlock_mutual_exclusion_witness:
  "lock_reachable lock_one_holds \<and> pc lock_one_holds 3 = Critical \<and> pc lock_one_holds 4 \<noteq> Critical"
  using spinlock_mutual_exclusion [OF lock_one_holds_reachable, of 3 4] lock_one_holds_reachable
  by (auto simp: lock_one_holds_def)

end
