(* ===== verification/Hw.thy ===== *)
theory Hw
  imports Libk_Memory
begin

text \<open>
  The interface between the drivers and the hardware.  Drivers reach a device through the
  port instructions of \<^verbatim>\<open>libk/asm.h\<close> and through memory-mapped registers, so a machine is a record of
  functions: what each access returns and how it changes the world \<open>'w\<close>, which stands for the state of
  every device and of the time.  The world is a parameter of the whole development.  A driver is a function on the
  world; what a theorem needs to know about a device is a named hypothesis on the record.

  \<open>bus_time\<close> reads the volatile \<^verbatim>\<open>pit_systime_msec\<close>, which the timer interrupt increments while a driver
  polls; the world it returns is the one at the moment after the read.  \<open>bus_ldl\<close> and \<open>bus_stl\<close> are the
  accesses to the memory-mapped registers of the local and the I/O APIC.
\<close>

section \<open>Definitions\<close>

record 'w bus =
  bus_inb :: "u16 \<Rightarrow> 'w \<Rightarrow> u8 \<times> 'w"
  bus_inw :: "u16 \<Rightarrow> 'w \<Rightarrow> u16 \<times> 'w"
  bus_inl :: "u16 \<Rightarrow> 'w \<Rightarrow> u32 \<times> 'w"
  bus_outb :: "u16 \<Rightarrow> u8 \<Rightarrow> 'w \<Rightarrow> 'w"
  bus_outw :: "u16 \<Rightarrow> u16 \<Rightarrow> 'w \<Rightarrow> 'w"
  bus_outl :: "u16 \<Rightarrow> u32 \<Rightarrow> 'w \<Rightarrow> 'w"
  bus_ldl :: "addr \<Rightarrow> 'w \<Rightarrow> u32 \<times> 'w"
  bus_stl :: "addr \<Rightarrow> u32 \<Rightarrow> 'w \<Rightarrow> 'w"
  bus_time :: "'w \<Rightarrow> u32 \<times> 'w"

definition inb :: "'w bus \<Rightarrow> u16 \<Rightarrow> 'w \<Rightarrow> u8 \<times> 'w" where
  "inb b port w = bus_inb b port w"

definition inw :: "'w bus \<Rightarrow> u16 \<Rightarrow> 'w \<Rightarrow> u16 \<times> 'w" where
  "inw b port w = bus_inw b port w"

definition inl :: "'w bus \<Rightarrow> u16 \<Rightarrow> 'w \<Rightarrow> u32 \<times> 'w" where
  "inl b port w = bus_inl b port w"

definition outb :: "'w bus \<Rightarrow> u16 \<Rightarrow> u8 \<Rightarrow> 'w \<Rightarrow> 'w" where
  "outb b port val w = bus_outb b port val w"

definition outw :: "'w bus \<Rightarrow> u16 \<Rightarrow> u16 \<Rightarrow> 'w \<Rightarrow> 'w" where
  "outw b port val w = bus_outw b port val w"

definition outl :: "'w bus \<Rightarrow> u16 \<Rightarrow> u32 \<Rightarrow> 'w \<Rightarrow> 'w" where
  "outl b port val w = bus_outl b port val w"

definition io_wait :: "'w bus \<Rightarrow> 'w \<Rightarrow> 'w" where
  "io_wait b w = outb b 0x80 0 w"

text \<open>A sequence of \<^verbatim>\<open>outb\<close> instructions.\<close>

definition outbs :: "'w bus \<Rightarrow> (u16 \<times> u8) list \<Rightarrow> 'w \<Rightarrow> 'w" where
  "outbs b ops w = fold (\<lambda>(port, val). outb b port val) ops w"

text \<open>
  \<open>poll_until b port ok w\<close> is \<^verbatim>\<open>while (!ok(inb(port)));\<close>: it returns the first accepted value, and
  \<^term>\<open>None\<close> when no read is ever accepted.
\<close>

partial_function (option) poll_until :: "'w bus \<Rightarrow> u16 \<Rightarrow> (u8 \<Rightarrow> bool) \<Rightarrow> 'w \<Rightarrow> (u8 \<times> 'w) option" where
  "poll_until b port ok w =
     (let (v, w) = inb b port w in if ok v then Some (v, w) else poll_until b port ok w)"

section \<open>Lemmas\<close>

lemma outbs_simps [simp]:
  "outbs b [] w = w"
  "outbs b ((port, val) # ops) w = outbs b ops (outb b port val w)"
  by (simp_all add: outbs_def)

lemma outbs_append: "outbs b (xs @ ys) w = outbs b ys (outbs b xs w)"
  by (simp add: outbs_def)

text \<open>The world after \<open>n\<close> reads of one port.\<close>

fun after_reads :: "'w bus \<Rightarrow> u16 \<Rightarrow> nat \<Rightarrow> 'w \<Rightarrow> 'w" where
  "after_reads b port 0 w = w"
| "after_reads b port (Suc n) w = after_reads b port n (snd (inb b port w))"

text \<open>Polling ends with the first read whose value is accepted.\<close>

lemma poll_until_first:
  assumes "ok (fst (inb b port (after_reads b port n w)))"
    and "\<And>k. k < n \<Longrightarrow> \<not> ok (fst (inb b port (after_reads b port k w)))"
  shows "poll_until b port ok w = Some (inb b port (after_reads b port n w))"
  using assms
proof (induction n arbitrary: w)
  case 0
  then show ?case by (subst poll_until.simps) (simp add: case_prod_beta)
next
  case (Suc n)
  from Suc.prems(2) [of 0] have no: "\<not> ok (fst (inb b port w))" by simp
  have "poll_until b port ok (snd (inb b port w)) =
      Some (inb b port (after_reads b port n (snd (inb b port w))))"
  proof (rule Suc.IH)
    show "ok (fst (inb b port (after_reads b port n (snd (inb b port w)))))"
      using Suc.prems(1) by simp
    show "\<not> ok (fst (inb b port (after_reads b port k (snd (inb b port w)))))" if "k < n" for k
      using Suc.prems(2) [of "Suc k"] that by simp
  qed
  with no show ?case by (subst poll_until.simps) (simp add: case_prod_beta)
qed

lemma poll_until_now:
  "ok (fst (inb b port w)) \<Longrightarrow> poll_until b port ok w = Some (inb b port w)"
  using poll_until_first [of ok b port 0 w] by simp

text \<open>Polling returns as soon as some read is accepted.\<close>

lemma poll_until_terminates:
  assumes "ok (fst (inb b port (after_reads b port n w)))"
  shows "\<exists>k. poll_until b port ok w = Some (inb b port (after_reads b port k w)) \<and>
    ok (fst (inb b port (after_reads b port k w)))"
proof -
  define k where "k = (LEAST k. ok (fst (inb b port (after_reads b port k w))))"
  have ok: "ok (fst (inb b port (after_reads b port k w)))"
    unfolding k_def using assms by (rule LeastI)
  have "poll_until b port ok w = Some (inb b port (after_reads b port k w))"
    using ok by (rule poll_until_first) (auto simp: k_def dest: not_less_Least)
  with ok show ?thesis by blast
qed

lemma after_reads_keeps: "(\<And>w. f (snd (inb b port w)) = f w) \<Longrightarrow> f (after_reads b port k w) = f w"
  by (induction k arbitrary: w) simp_all

text \<open>A machine whose devices ignore every write and answer every read with zero.\<close>

definition quiet_bus :: "unit bus" where
  "quiet_bus = \<lparr>bus_inb = \<lambda>_ w. (0, w), bus_inw = \<lambda>_ w. (0, w), bus_inl = \<lambda>_ w. (0, w),
     bus_outb = \<lambda>_ _ w. w, bus_outw = \<lambda>_ _ w. w, bus_outl = \<lambda>_ _ w. w,
     bus_ldl = \<lambda>_ w. (0, w), bus_stl = \<lambda>_ _ w. w, bus_time = \<lambda>w. (0, w)\<rparr>"

section \<open>Computations that return\<close>

text \<open>A computation returns when its value is not \<^term>\<open>None\<close>; the rules follow the syntax of programs.\<close>

definition returns :: "'a option \<Rightarrow> bool" where
  "returns x \<longleftrightarrow> (\<exists>r. x = Some r)"

named_theorems returns_rules \<open>rules for computations that return\<close>

lemma returns_Some [returns_rules]: "returns (Some x)"
  by (simp add: returns_def)

lemma returns_bind [returns_rules]:
  "returns x \<Longrightarrow> (\<And>r. returns (f r)) \<Longrightarrow> returns (x \<bind> f)"
  by (auto simp: returns_def)

lemma returns_if [returns_rules]:
  "(c \<Longrightarrow> returns x) \<Longrightarrow> (\<not> c \<Longrightarrow> returns y) \<Longrightarrow> returns (if c then x else y)"
  by simp

lemma returns_prod [returns_rules]:
  "(\<And>a b. returns (f a b)) \<Longrightarrow> returns (case p of (a, b) \<Rightarrow> f a b)"
  by (simp add: case_prod_beta)

lemma returns_let [returns_rules]: "(\<And>a. returns (f a)) \<Longrightarrow> returns (let a = x in f a)"
  by simp

end
