(* ===== verification/Terminal.thy ===== *)
theory Terminal
  imports Hw Io
begin

text \<open>
  The text mode terminal \<^verbatim>\<open>kernel/drivers/terminal.c\<close>.  The screen is the array of 16-bit cells at
  \<^verbatim>\<open>TERMINAL_BUF\<close> in memory, the cursor is moved through the ports of the display controller.

  The lemmas show that writing to the terminal refines a screen of 25 lines of 80 cells that scrolls,
  and that it never leaves the screen memory.
\<close>

section \<open>Definitions\<close>

definition TERMINAL_BUF :: addr where "TERMINAL_BUF = 0xB8000"
definition TERMINAL_HEIGHT :: u32 where "TERMINAL_HEIGHT = 25"
definition TERMINAL_WIDTH :: u32 where "TERMINAL_WIDTH = 80"
definition TERMINAL_SIZE :: u32 where "TERMINAL_SIZE = TERMINAL_WIDTH * TERMINAL_HEIGHT"
definition TAB_SIZE :: u32 where "TAB_SIZE = 4"

lemmas terminal_consts = TERMINAL_BUF_def TERMINAL_HEIGHT_def TERMINAL_WIDTH_def TERMINAL_SIZE_def TAB_SIZE_def

record term_t =
  terminal_pos :: u32
  terminal_color :: u16

definition terminal_start :: term_t where
  "terminal_start = \<lparr>terminal_pos = 0, terminal_color = 0x0F\<rparr>"

definition terminal_update_cursor_pos :: "'w bus \<Rightarrow> term_t \<Rightarrow> 'w \<Rightarrow> 'w" where
  "terminal_update_cursor_pos b s w =
     outbs b [(0x3D4, 0x0F), (0x3D5, ucast (terminal_pos s AND 0xFF)),
       (0x3D4, 0x0E), (0x3D5, ucast (drop_bit 8 (terminal_pos s) AND 0xFF))] w"

text \<open>\<^verbatim>\<open>c | terminal_color << 8\<close>: the plain \<^verbatim>\<open>char\<close> is signed and is extended to \<^verbatim>\<open>int\<close>.\<close>

definition terminal_cell :: "u16 \<Rightarrow> u8 \<Rightarrow> u16" where
  "terminal_cell color c = ucast (scast c OR push_bit 8 (ucast color) :: i32)"

definition terminal_put :: "u8 \<Rightarrow> term_t \<times> mem \<Rightarrow> term_t \<times> mem" where
  "terminal_put c = (\<lambda>(s, m).
     let pos = terminal_pos s
     in if c = 10 then (s\<lparr>terminal_pos := pos + (TERMINAL_WIDTH - pos mod TERMINAL_WIDTH)\<rparr>, m)
        else if c = 9 then
          (s\<lparr>terminal_pos := pos + (TAB_SIZE - pos mod TERMINAL_WIDTH mod TAB_SIZE)\<rparr>, m)
        else if c = 8 then
          let pos = (if pos \<noteq> 0 then pos - 1 else pos)
          in (s\<lparr>terminal_pos := pos\<rparr>, store16 m (TERMINAL_BUF + 2 * pos) (push_bit 8 (terminal_color s)))
        else
          (s\<lparr>terminal_pos := pos + 1\<rparr>,
           store16 m (TERMINAL_BUF + 2 * pos) (terminal_cell (terminal_color s) c)))"

definition terminal_scroll :: "term_t \<times> mem \<Rightarrow> term_t \<times> mem" where
  "terminal_scroll = (\<lambda>(s, m).
     if terminal_pos s \<ge> TERMINAL_SIZE then
       let m = mmove16 m TERMINAL_BUF (TERMINAL_BUF + 2 * TERMINAL_WIDTH) (TERMINAL_SIZE - TERMINAL_WIDTH);
           m = mset16 m (TERMINAL_BUF + 2 * (TERMINAL_WIDTH * (TERMINAL_HEIGHT - 1))) 0 TERMINAL_WIDTH
       in (s\<lparr>terminal_pos := terminal_pos s - TERMINAL_WIDTH\<rparr>, m)
     else (s, m))"

definition terminal_putc :: "'w bus \<Rightarrow> u8 \<Rightarrow> term_t \<times> mem \<times> 'w \<Rightarrow> term_t \<times> mem \<times> 'w" where
  "terminal_putc b c = (\<lambda>(s, m, w).
     let (s, m) = terminal_scroll (terminal_put c (s, m)) in (s, m, terminal_update_cursor_pos b s w))"

partial_function (option) terminal_puts ::
    "'w bus \<Rightarrow> addr \<Rightarrow> term_t \<times> mem \<times> 'w \<Rightarrow> (term_t \<times> mem \<times> 'w) option" where
  "terminal_puts b it st =
     (let c = fst (snd st) it
      in if c = 0 then Some st else terminal_puts b (it + 1) (terminal_putc b c st))"

definition terminal_write ::
    "'w bus \<Rightarrow> addr \<Rightarrow> usz \<Rightarrow> term_t \<times> mem \<times> 'w \<Rightarrow> (usz \<times> term_t \<times> mem \<times> 'w) option" where
  "terminal_write b data len st =
     do { (it, st) \<leftarrow> for_range 0 len (\<lambda>i (it, st). Some (it + 1, terminal_putc b (fst (snd st) it) st)) (data, st);
          Some (len, st) }"

text \<open>
  \<^verbatim>\<open>terminal_printf\<close> passes \<^verbatim>\<open>terminal_write\<close> to \<^verbatim>\<open>io_vprintf\<close> as its callback.  The callback gets the bytes
  themselves, and the format and its strings are read from the memory at the call: they lie outside of the
  screen, the only memory that the terminal writes to.
\<close>

definition terminal_callback :: "'w bus \<Rightarrow> (term_t \<times> mem \<times> 'w) io_callback" where
  "terminal_callback b bs st = (of_nat (length bs), fold (terminal_putc b) bs st)"

definition terminal_printf ::
    "'w bus \<Rightarrow> addr \<Rightarrow> u32 list \<Rightarrow> term_t \<times> mem \<times> 'w \<Rightarrow> (term_t \<times> mem \<times> 'w) option" where
  "terminal_printf b fmt argl st = io_vprintf (terminal_callback b) (fst (snd st)) fmt argl st"

definition terminal_clear :: "term_t \<times> mem \<Rightarrow> term_t \<times> mem" where
  "terminal_clear = (\<lambda>(s, m). (s\<lparr>terminal_pos := 0\<rparr>, mset16 m TERMINAL_BUF 0 TERMINAL_SIZE))"

section \<open>The cells of the screen\<close>

definition cell_addr :: "nat \<Rightarrow> addr" where
  "cell_addr i = of_nat (0xB8000 + 2 * i)"

definition cell :: "mem \<Rightarrow> nat \<Rightarrow> u16" where
  "cell m i = load16 m (cell_addr i)"

definition off_screen :: "addr \<Rightarrow> bool" where
  "off_screen a \<longleftrightarrow> unat a < 0xB8000 \<or> 0xB8000 + 4000 \<le> unat a"

lemma cell_addr_eq: "TERMINAL_BUF + 2 * of_nat i = cell_addr i"
  by (simp add: cell_addr_def TERMINAL_BUF_def)

lemma cell_addr_step: "cell_addr i + 2 = cell_addr (Suc i)" "cell_addr i + 1 = of_nat (0xB8000 + 2 * i + 1)"
  by (simp_all add: cell_addr_def)

lemma load16_store16: "load16 (store16 m a v) a = v"
proof -
  let ?m = "store16 m a v"
  have "load16 ?m a = ucast (drop_bit 0 v)" by (rule load16_slice) (simp_all add: store16_def)
  then show ?thesis by simp
qed

lemma of_nat_neq: "x \<noteq> y \<Longrightarrow> x < 1000000 \<Longrightarrow> y < 1000000 \<Longrightarrow> (of_nat x :: addr) \<noteq> of_nat y"
  using unat_of_nat_small [of x] unat_of_nat_small [of y] by auto

lemma cell_store16:
  assumes "i < 2000" and "k < 2000"
  shows "cell (store16 m (cell_addr i) v) k = (if k = i then v else cell m k)"
proof (cases "k = i")
  case False
  have "cell_addr k \<noteq> cell_addr i"
    using of_nat_neq [of "0xB8000 + 2 * k" "0xB8000 + 2 * i"] assms False by (simp add: cell_addr_def)
  moreover have "cell_addr k \<noteq> cell_addr i + 1"
    unfolding cell_addr_step(2) unfolding cell_addr_def
    by (rule of_nat_neq) (use assms in \<open>presburger, simp_all\<close>)
  moreover have "cell_addr k + 1 \<noteq> cell_addr i"
    unfolding cell_addr_step(2) unfolding cell_addr_def
    by (rule of_nat_neq) (use assms in \<open>presburger, simp_all\<close>)
  ultimately have "cell_addr k \<noteq> cell_addr i" "cell_addr k \<noteq> cell_addr i + 1" "cell_addr k + 1 \<noteq> cell_addr i"
    "cell_addr k + 1 \<noteq> cell_addr i + 1"
    by simp_all
  then show ?thesis using False by (simp add: cell_def load16_def store16_def)
qed (simp add: cell_def load16_store16)

lemma store16_off_screen:
  assumes "i < 2000" and "off_screen a"
  shows "store16 m (cell_addr i) v a = m a"
proof -
  have "unat (of_nat (0xB8000 + 2 * i) :: addr) = 0xB8000 + 2 * i"
    "unat (of_nat (0xB8000 + 2 * i + 1) :: addr) = 0xB8000 + 2 * i + 1"
    using assms(1) by (intro unat_of_nat_small; simp)+
  then have "a \<noteq> cell_addr i" "a \<noteq> cell_addr i + 1"
    unfolding cell_addr_step(2) using assms by (auto simp: off_screen_def cell_addr_def)
  then show ?thesis by (simp add: store16_def)
qed

lemma mmove16_loop_Suc:
  "Suc n < 2 ^ 32 \<Longrightarrow>
   mmove16_loop m d s (of_nat (Suc n)) = mmove16_loop (store16 m d (load16 m s)) (d + 2) (s + 2) (of_nat n)"
  using of_nat_Suc_neq_0 [of n, where 'a = 32] by (subst mmove16_loop.simps) simp

lemma mmove16_loop_0 [simp]: "mmove16_loop m d s 0 = m"
  by (simp add: mmove16_loop.simps)

lemma mmove16_cells:
  assumes "i + j + n \<le> 2000" and "k < 2000" and "0 < j"
  shows "cell (mmove16_loop m (cell_addr i) (cell_addr (i + j)) (of_nat n)) k =
    (if i \<le> k \<and> k < i + n then cell m (k + j) else cell m k)"
  using assms
proof (induction n arbitrary: m i)
  case (Suc n)
  let ?m = "store16 m (cell_addr i) (cell m (i + j))"
  have st: "cell ?m l = (if l = i then cell m (i + j) else cell m l)" if "l < 2000" for l
    using that Suc.prems by (intro cell_store16) simp_all
  have step: "mmove16_loop m (cell_addr i) (cell_addr (i + j)) (of_nat (Suc n)) =
      mmove16_loop ?m (cell_addr (Suc i)) (cell_addr (Suc i + j)) (of_nat n)"
    using Suc.prems by (subst mmove16_loop_Suc) (simp_all add: cell_addr_step cell_def)
  have "cell (mmove16_loop ?m (cell_addr (Suc i)) (cell_addr (Suc i + j)) (of_nat n)) k =
      (if Suc i \<le> k \<and> k < Suc i + n then cell ?m (k + j) else cell ?m k)"
    by (rule Suc.IH) (use Suc.prems in simp_all)
  also have "\<dots> = (if i \<le> k \<and> k < i + Suc n then cell m (k + j) else cell m k)"
    using Suc.prems by (auto simp: st)
  finally show ?case unfolding step .
qed auto

lemma mmove16_off_screen:
  assumes "i + n \<le> 2000" and "off_screen a"
  shows "mmove16_loop m (cell_addr i) s (of_nat n) a = m a"
  using assms(1)
proof (induction n arbitrary: m i s)
  case (Suc n)
  then show ?case
    using Suc.IH [of "Suc i"] store16_off_screen [OF _ assms(2), of i]
    by (subst mmove16_loop_Suc) (simp_all add: cell_addr_step)
qed simp

text \<open>A run of equal cells, written one after the other.\<close>

fun fill_cells :: "mem \<Rightarrow> addr \<Rightarrow> u16 \<Rightarrow> nat \<Rightarrow> mem" where
  "fill_cells m a v 0 = m"
| "fill_cells m a v (Suc n) = fill_cells (store16 m a v) (a + 2) v n"

lemma mset16_fill: "mset16 m a v n = fill_cells m a v (unat n)"
proof -
  have "store_bytes m a (concat (replicate k [ucast v, ucast (drop_bit 8 v)])) = fill_cells m a v k" for k
    by (induction k arbitrary: m a) (simp_all add: store16_def add.assoc)
  then show ?thesis by (simp add: mset16_def)
qed

lemma fill_cells_cell:
  assumes "i + n \<le> 2000" and "k < 2000"
  shows "cell (fill_cells m (cell_addr i) v n) k = (if i \<le> k \<and> k < i + n then v else cell m k)"
  using assms
proof (induction n arbitrary: m i)
  case (Suc n)
  have "cell (store16 m (cell_addr i) v) k = (if k = i then v else cell m k)"
    using Suc.prems by (intro cell_store16) simp_all
  with Suc.IH [of "Suc i"] Suc.prems show ?case by (auto simp: cell_addr_step)
qed auto

lemma fill_cells_off_screen:
  assumes "i + n \<le> 2000" and "off_screen a"
  shows "fill_cells m (cell_addr i) v n a = m a"
  using assms(1)
proof (induction n arbitrary: m i)
  case (Suc n)
  then show ?case
    using Suc.IH [of "Suc i"] store16_off_screen [OF _ assms(2), of i] by (simp add: cell_addr_step)
qed simp

section \<open>A scrolling screen\<close>

text \<open>The specification: 2000 cells and a position among them.\<close>

definition put_spec :: "u16 \<Rightarrow> u8 \<Rightarrow> u16 list \<times> nat \<Rightarrow> u16 list \<times> nat" where
  "put_spec color c = (\<lambda>(cs, pos).
     if c = 10 then (cs, (pos div 80 + 1) * 80)
     else if c = 9 then (cs, (pos div 4 + 1) * 4)
     else if c = 8 then (cs[pos - 1 := push_bit 8 color], pos - 1)
     else (cs[pos := terminal_cell color c], pos + 1))"

definition scroll_spec :: "u16 list \<times> nat \<Rightarrow> u16 list \<times> nat" where
  "scroll_spec = (\<lambda>(cs, pos). if 2000 \<le> pos then (drop 80 cs @ replicate 80 0, pos - 80) else (cs, pos))"

definition screen :: "mem \<Rightarrow> u16 list" where
  "screen m = map (cell m) [0..<2000]"

definition term_abs :: "term_t \<times> mem \<Rightarrow> u16 list \<times> nat" where
  "term_abs = (\<lambda>(s, m). (screen m, unat (terminal_pos s)))"

lemma screen_store16: "i < 2000 \<Longrightarrow> screen (store16 m (cell_addr i) v) = (screen m)[i := v]"
  by (rule nth_equalityI) (auto simp: screen_def cell_store16 nth_list_update)

lemma screen_scrolled:
  "screen (mset16 (mmove16 m TERMINAL_BUF (TERMINAL_BUF + 2 * TERMINAL_WIDTH) (TERMINAL_SIZE - TERMINAL_WIDTH))
     (TERMINAL_BUF + 2 * (TERMINAL_WIDTH * (TERMINAL_HEIGHT - 1))) 0 TERMINAL_WIDTH) =
   drop 80 (screen m) @ replicate 80 0"
proof (rule nth_equalityI)
  fix k assume "k < length (screen (mset16 (mmove16 m TERMINAL_BUF (TERMINAL_BUF + 2 * TERMINAL_WIDTH) (TERMINAL_SIZE - TERMINAL_WIDTH))
     (TERMINAL_BUF + 2 * (TERMINAL_WIDTH * (TERMINAL_HEIGHT - 1))) 0 TERMINAL_WIDTH))"
  then have k: "k < 2000" by (simp add: screen_def)
  have a: "TERMINAL_BUF = cell_addr 0" "TERMINAL_BUF + 2 * TERMINAL_WIDTH = cell_addr (0 + 80)"
    "TERMINAL_BUF + 2 * (TERMINAL_WIDTH * (TERMINAL_HEIGHT - 1)) = cell_addr 1920"
    "TERMINAL_SIZE - TERMINAL_WIDTH = of_nat 1920" "unat TERMINAL_WIDTH = 80"
    by (simp_all add: terminal_consts cell_addr_def)
  show "screen (mset16 (mmove16 m TERMINAL_BUF (TERMINAL_BUF + 2 * TERMINAL_WIDTH) (TERMINAL_SIZE - TERMINAL_WIDTH))
     (TERMINAL_BUF + 2 * (TERMINAL_WIDTH * (TERMINAL_HEIGHT - 1))) 0 TERMINAL_WIDTH) ! k =
   (drop 80 (screen m) @ replicate 80 0) ! k"
    unfolding a(2-5) mset16_fill mmove16_def unfolding a(1,5)
    using k mmove16_cells [of 0 80 1920 k m] fill_cells_cell [of 1920 80 k]
    by (simp add: screen_def nth_append add.commute)
qed (simp add: screen_def)

lemma scrolled_off_screen:
  assumes "off_screen a"
  shows "mset16 (mmove16 m TERMINAL_BUF (TERMINAL_BUF + 2 * TERMINAL_WIDTH) (TERMINAL_SIZE - TERMINAL_WIDTH))
     (TERMINAL_BUF + 2 * (TERMINAL_WIDTH * (TERMINAL_HEIGHT - 1))) 0 TERMINAL_WIDTH a = m a"
proof -
  have b: "TERMINAL_BUF = cell_addr 0" "TERMINAL_BUF + 2 * (TERMINAL_WIDTH * (TERMINAL_HEIGHT - 1)) = cell_addr 1920"
    "TERMINAL_SIZE - TERMINAL_WIDTH = of_nat 1920" "unat TERMINAL_WIDTH = 80"
    by (simp_all add: terminal_consts cell_addr_def)
  show ?thesis
    unfolding b(2-4) mset16_fill mmove16_def b(4)
    unfolding b(1) using fill_cells_off_screen [of 1920 80, OF _ assms] mmove16_off_screen [of 0 1920, OF _ assms]
    by simp
qed

lemma tab_stop: "p mod 80 mod 4 = p mod (4 :: nat)"
  by (simp add: mod_mod_cancel)

lemma terminal_put_refines:
  assumes "unat (terminal_pos s) < 2000" and "terminal_put c (s, m) = (s', m')"
  shows "term_abs (s', m') = put_spec (terminal_color s) c (term_abs (s, m))"
    "unat (terminal_pos s') \<le> 2000" "terminal_color s' = terminal_color s"
    "off_screen a \<Longrightarrow> m' a = m a"
proof -
  let ?p = "unat (terminal_pos s)"
  have ca: "TERMINAL_BUF + 2 * p = cell_addr (unat p)" for p :: u32
    using cell_addr_eq [of "unat p"] by simp
  have c0: "screen (store16 m TERMINAL_BUF v) = (screen m)[0 := v]" "off_screen a \<Longrightarrow> store16 m TERMINAL_BUF v a = m a" for v
    using screen_store16 [of 0 m v] store16_off_screen [of 0 a m v] ca [of 0] by simp_all
  have m80: "?p mod 80 < 80" "?p mod 4 < 4" by simp_all
  have d80: "?p + (80 - ?p mod 80) = (?p div 80 + 1) * 80" "?p + (4 - ?p mod 4) = (?p div 4 + 1) * 4"
    using div_mult_mod_eq [of ?p 80] div_mult_mod_eq [of ?p 4] m80 by (simp_all, linarith+)
  have um: "unat (terminal_pos s mod 80) = ?p mod 80" "unat (terminal_pos s mod 80 mod 4) = ?p mod 4"
    by (simp_all add: unat_mod tab_stop)
  have us: "unat (80 - terminal_pos s mod 80) = 80 - ?p mod 80" "unat (4 - terminal_pos s mod 80 mod 4) = 4 - ?p mod 4"
    using um m80 by (simp_all add: unat_sub word_le_nat_alt)
  have nl: "unat (terminal_pos s + (80 - terminal_pos s mod 80)) = (?p div 80 + 1) * 80"
    and tab: "unat (terminal_pos s + (4 - terminal_pos s mod 80 mod 4)) = (?p div 4 + 1) * 4"
    using assms(1) m80 by (subst unat_add_bounded; simp only: us d80; simp)+
  have le: "(?p div 80 + 1) * 80 \<le> 2000" "(?p div 4 + 1) * 4 \<le> 2000" using assms(1) by auto
  have bk: "unat (if terminal_pos s \<noteq> 0 then terminal_pos s - 1 else terminal_pos s) = ?p - 1"
    by (simp add: unat_minus_one)
  have fwd: "unat (terminal_pos s + 1) = ?p + 1"
    using assms(1) by (subst unat_add_bounded) simp_all
  show "term_abs (s', m') = put_spec (terminal_color s) c (term_abs (s, m))"
    using assms nl tab bk fwd
    by (auto simp: terminal_put_def put_spec_def term_abs_def Let_def terminal_consts(3,5) ca c0 screen_store16
      split: if_splits)
  show "unat (terminal_pos s') \<le> 2000" "terminal_color s' = terminal_color s" 
    using assms nl tab bk fwd le
    by (auto simp: terminal_put_def Let_def terminal_consts(3,5) ca split: if_splits)
  show "off_screen a \<Longrightarrow> m' a = m a"
    using assms nl tab bk fwd le
    by (auto simp: terminal_put_def Let_def terminal_consts(3,5) ca c0 store16_off_screen split: if_splits)
qed

lemma terminal_scroll_refines:
  assumes "unat (terminal_pos s) \<le> 2000" and "terminal_scroll (s, m) = (s', m')"
  shows "term_abs (s', m') = scroll_spec (term_abs (s, m))"
    "unat (terminal_pos s') < 2000" "terminal_color s' = terminal_color s"
    "off_screen a \<Longrightarrow> m' a = m a"
proof -
  let ?p = "unat (terminal_pos s)"
  have sz: "terminal_pos s \<ge> TERMINAL_SIZE \<longleftrightarrow> 2000 \<le> ?p" by (simp add: terminal_consts word_le_nat_alt)
  have sub: "unat (terminal_pos s - TERMINAL_WIDTH) = ?p - 80" if "2000 \<le> ?p"
    using that by (simp add: terminal_consts unat_sub word_le_nat_alt)
  note def = terminal_scroll_def scroll_spec_def term_abs_def Let_def
  show "term_abs (s', m') = scroll_spec (term_abs (s, m))"
    using assms(2) sub by (auto simp: def sz screen_scrolled split: if_splits)
  show "unat (terminal_pos s') < 2000" "terminal_color s' = terminal_color s"
    using assms sub by (auto simp: def sz split: if_splits)
  show "off_screen a \<Longrightarrow> m' a = m a"
    using assms(2) by (auto simp: def scrolled_off_screen split: if_splits)
qed

definition putc_spec :: "u16 \<Rightarrow> u8 \<Rightarrow> u16 list \<times> nat \<Rightarrow> u16 list \<times> nat" where
  "putc_spec color c st = scroll_spec (put_spec color c st)"

lemma terminal_putc_refines:
  assumes "unat (terminal_pos s) < 2000" and "terminal_putc b c (s, m, w) = (s', m', w')"
  shows "term_abs (s', m') = putc_spec (terminal_color s) c (term_abs (s, m))"
    "unat (terminal_pos s') < 2000" "terminal_color s' = terminal_color s"
    "off_screen a \<Longrightarrow> m' a = m a"
proof -
  obtain s1 m1 where put: "terminal_put c (s, m) = (s1, m1)" by fastforce
  from assms(2) put have scr: "terminal_scroll (s1, m1) = (s', m')"
    by (auto simp: terminal_putc_def split: prod.splits)
  note p = terminal_put_refines [OF assms(1) put]
  note q = terminal_scroll_refines [OF p(2) scr]
  show "term_abs (s', m') = putc_spec (terminal_color s) c (term_abs (s, m))"
    by (simp add: putc_spec_def p(1) q(1))
  show "unat (terminal_pos s') < 2000" "terminal_color s' = terminal_color s"
    using p(3) q(2,3) by simp_all
  show "off_screen a \<Longrightarrow> m' a = m a" using p(4) q(4) by simp
qed

text \<open>A run of characters.\<close>

lemma terminal_putc_fold:
  assumes "unat (terminal_pos s) < 2000" and "fold (terminal_putc b) bs (s, m, w) = (s', m', w')"
  shows "term_abs (s', m') = fold (putc_spec (terminal_color s)) bs (term_abs (s, m)) \<and>
    unat (terminal_pos s') < 2000 \<and> terminal_color s' = terminal_color s \<and> (\<forall>a. off_screen a \<longrightarrow> m' a = m a)"
  using assms
proof (induction bs arbitrary: s m w)
  case (Cons c bs)
  obtain s1 m1 w1 where putc: "terminal_putc b c (s, m, w) = (s1, m1, w1)" by (metis prod_cases3)
  note r = terminal_putc_refines [OF Cons.prems(1) putc]
  from Cons.prems(2) putc have "fold (terminal_putc b) bs (s1, m1, w1) = (s', m', w')" by simp
  from Cons.IH [OF r(2) this] r show ?case by simp
qed simp

lemma terminal_write_fold:
  assumes "unat (terminal_pos s) < 2000" and "bytes_at m data bs" and "length bs < 2 ^ 32"
    and "\<forall>i < length bs. off_screen (data + of_nat i)"
  shows "terminal_write b data (of_nat (length bs)) (s, m, w) = Some (of_nat (length bs), fold (terminal_putc b) bs (s, m, w))"
proof -
  let ?n = "of_nat (length bs) :: usz"
  have n: "unat ?n = length bs" using assms(3) by (simp add: unat_of_nat_small)
  define P where "P = (\<lambda>(i :: usz) (it, st). it = data + i \<and> st = fold (terminal_putc b) (take (unat i) bs) (s, m, w))"
  have "\<exists>st. for_range 0 ?n (\<lambda>i (it, st). Some (it + 1, terminal_putc b (fst (snd st) it) st)) (data, s, m, w) = Some st \<and> P ?n st"
  proof (rule for_range_rule [where P = P])
    fix i :: usz and st assume i: "i < ?n" and P: "P i st"
    obtain s1 m1 w1 where f: "fold (terminal_putc b) (take (unat i) bs) (s, m, w) = (s1, m1, w1)" by (metis prod_cases3)
    with P have st: "st = (data + i, s1, m1, w1)" by (cases st) (simp add: P_def)
    from i n have il: "unat i < length bs" by (simp add: word_less_nat_alt)
    have "off_screen (data + i)" using assms(4) [rule_format, OF il] by simp
    with terminal_putc_fold [OF assms(1) f] bytes_at_nth [OF assms(2) il] have byte: "m1 (data + i) = bs ! unat i" by simp
    have "P (i + 1) (data + i + 1, terminal_putc b (bs ! unat i) (s1, m1, w1))"
      using il f by (simp add: P_def unat_succ_less [OF i] take_Suc_conv_app_nth)
    then show "\<exists>s'. (case st of (it, st) \<Rightarrow> Some (it + 1, terminal_putc b (fst (snd st) it) st)) = Some s' \<and> P (i + 1) s'"
      by (simp add: st byte)
  qed (simp_all add: P_def)
  then show ?thesis by (auto simp: P_def terminal_write_def n)
qed

text \<open>
  C20 Writing to the terminal refines the scrolling screen: for every string of bytes outside the screen
  memory, \<^verbatim>\<open>terminal_write\<close> returns, the cells and the cursor are those the specification reaches
  character by character, the cursor stays on the screen, and no byte outside the screen memory
  changes.
\<close>

theorem terminal_write_refines:
  assumes "unat (terminal_pos s) < 2000" and "bytes_at m data bs" and "length bs < 2 ^ 32"
    and "\<forall>i < length bs. off_screen (data + of_nat i)"
  shows "\<exists>s' m' w'. terminal_write b data (of_nat (length bs)) (s, m, w) = Some (of_nat (length bs), s', m', w') \<and>
    term_abs (s', m') = fold (putc_spec (terminal_color s)) bs (term_abs (s, m)) \<and>
    unat (terminal_pos s') < 2000 \<and> (\<forall>a. off_screen a \<longrightarrow> m' a = m a)"
proof -
  obtain s' m' w' where f: "fold (terminal_putc b) bs (s, m, w) = (s', m', w')" by (metis prod_cases3)
  from terminal_write_fold [OF assms, of b w] terminal_putc_fold [OF assms(1) f] show ?thesis by (simp add: f)
qed

definition sample_text_mem :: mem where
  "sample_text_mem = store_bytes (\<lambda>_. 0) 0x1000 [104, 105, 10]"

theorem terminal_write_refines_witness:
  "\<exists>s' m' w'. terminal_write quiet_bus 0x1000 3 (terminal_start, sample_text_mem, ()) = Some (3, s', m', w') \<and>
    unat (terminal_pos s') = 80 \<and> screen m' = (screen sample_text_mem)[0 := 0x0F68, 1 := 0x0F69]"
proof -
  have at: "bytes_at sample_text_mem 0x1000 [104, 105, 10]" by (simp add: sample_text_mem_def)
  have off: "\<forall>i < length [104 :: u8, 105, 10]. off_screen (0x1000 + of_nat i)"
    by (auto simp: off_screen_def less_Suc_eq)
  have glyph: "terminal_cell 0x0F 104 = 0x0F68" "terminal_cell 0x0F 105 = 0x0F69"
    by (simp_all add: terminal_cell_def)
  from terminal_write_refines [OF _ at _ off, of terminal_start quiet_bus "()"] show ?thesis
    by (auto simp: terminal_start_def term_abs_def putc_spec_def put_spec_def scroll_spec_def glyph)
qed

text \<open>The terminal as a receiver of formatted output.\<close>

interpretation display: receiver "terminal_callback b" "\<lambda>(s, m, w). unat (terminal_pos s) < 2000 \<and> terminal_color s = c"
    "\<lambda>(s, m, w). term_abs (s, m)" "fold (putc_spec c)" for b :: "'w bus" and c
proof (unfold_locales, simp_all only: fold_append fold.simps id_apply o_apply)
  fix st :: "term_t \<times> mem \<times> 'w" and bs
  assume "case st of (s, m, w) \<Rightarrow> unat (terminal_pos s) < 2000 \<and> terminal_color s = c"
  moreover obtain s m w where st: "st = (s, m, w)" by (cases st)
  moreover obtain s' m' w' where f: "fold (terminal_putc b) bs (s, m, w) = (s', m', w')" by (metis prod_cases3)
  ultimately show "(case snd (terminal_callback b bs st) of (s, m, w) \<Rightarrow> unat (terminal_pos s) < 2000 \<and> terminal_color s = c) \<and>
    (case snd (terminal_callback b bs st) of (s, m, w) \<Rightarrow> term_abs (s, m)) = fold (putc_spec c) bs (case st of (s, m, w) \<Rightarrow> term_abs (s, m))"
    using terminal_putc_fold [OF _ f] by (simp add: terminal_callback_def)
qed

text \<open>\<^verbatim>\<open>terminal_printf\<close> draws the text that its format describes.\<close>

lemma terminal_printf_draws:
  assumes "unat (terminal_pos s) < 2000" and "bytes_at m fmt (concat (map fmt_bytes items) @ [0])" and "fmt_ok m items"
  shows "\<exists>s' m' w'. terminal_printf b fmt (concat (map fmt_args items)) (s, m, w) = Some (s', m', w') \<and>
    term_abs (s', m') = fold (putc_spec (terminal_color s)) (concat (map fmt_out items)) (term_abs (s, m)) \<and>
    unat (terminal_pos s') < 2000"
  using display.formatted [where w = "(s, m, w)" and c = "terminal_color s" and b = b, OF assms(2,3)] assms(1)
  by (auto simp: terminal_printf_def)

text \<open>A character above 127 is negative as a plain \<^verbatim>\<open>char\<close>: its sign bits replace the colour.\<close>

lemma terminal_cell_negative:
  assumes "bit c 7"
  shows "terminal_cell color c = 0xFF00 OR ucast c"
proof (rule bit_word_eqI)
  fix n assume "n < LENGTH(16)"
  have "(0xFF00 :: u16) = push_bit 8 (mask 8)" by (simp add: mask_eq_exp_minus_1)
  then have ff: "bit (0xFF00 :: u16) n \<longleftrightarrow> 8 \<le> n \<and> n < 16" by (simp only: bit_push_bit_iff bit_mask_iff) auto
  have bn: "\<not> bit c k" if "8 \<le> k" for k using that by (simp add: bit_simps impossible_bit)
  have b7: "bit c n" if "7 \<le> n" "n < 8"
  proof -
    from that have "n = 7" by simp
    with assms show ?thesis by simp
  qed
  have "bit (terminal_cell color c) n \<longleftrightarrow> (if n < 8 then bit c n else n < 16)"
    using \<open>n < LENGTH(16)\<close> assms by (auto simp: terminal_cell_def bit_simps min_def b7)
  moreover have "bit (0xFF00 OR ucast c :: u16) n \<longleftrightarrow> (if n < 8 then bit c n else n < 16)"
    unfolding bit_or_iff ff bit_ucast_iff using \<open>n < LENGTH(16)\<close> bn [of n] by auto
  ultimately show "bit (terminal_cell color c) n = bit (0xFF00 OR ucast c :: u16) n" by simp
qed

end
