(* ===== verification/Desc_Tables.thy ===== *)
theory Desc_Tables
  imports Libk_Memory
begin

text \<open>
  The descriptor tables of the processor: \<^verbatim>\<open>kernel/x86/gdt.c\<close> and \<^verbatim>\<open>kernel/x86/idt.c\<close>.  The global
  descriptor table is built in memory, field by field; the interrupt descriptor table is an array of
  256 records.  The addresses of the interrupt stubs of \<^verbatim>\<open>kernel/x86/isr.asm\<close> are parameters.

  The lemmas show the bytes of the first table, with what is written behind it, and which vectors of
  the second have a gate.
\<close>

section \<open>The global descriptor table\<close>

text \<open>The fields of the packed \<^verbatim>\<open>gdt_t\<close> by offset.\<close>

definition gdt_limit_low :: addr where "gdt_limit_low = 0"
definition gdt_base_low :: addr where "gdt_base_low = 2"
definition gdt_base_mid :: addr where "gdt_base_mid = 4"
definition gdt_access :: addr where "gdt_access = 5"
definition gdt_flags :: addr where "gdt_flags = 6"
definition gdt_base_high :: addr where "gdt_base_high = 7"
definition sizeof_gdt :: u32 where "sizeof_gdt = 8"

lemmas gdt_fields = gdt_limit_low_def gdt_base_low_def gdt_base_mid_def gdt_access_def gdt_flags_def
  gdt_base_high_def sizeof_gdt_def

definition gdt_entry :: "addr \<Rightarrow> u8 \<Rightarrow> mem \<Rightarrow> mem" where
  "gdt_entry e acc m =
     (let m = m(e + gdt_access := acc);
          m = m(e + gdt_base_high := 0);
          m = store16 m (e + gdt_base_low) 0;
          m = m(e + gdt_base_mid := 0);
          m = m(e + gdt_flags := 0b11001111)
      in store16 m (e + gdt_limit_low) 0xFFFF)"

definition gdt_make_flat :: "addr \<Rightarrow> mem \<Rightarrow> mem" where
  "gdt_make_flat gdt m =
     (let m = mset32 m gdt 0 (sizeof_gdt * 3);
          m = gdt_entry (gdt + sizeof_gdt) 0b10011010 m
      in gdt_entry (gdt + 2 * sizeof_gdt) 0b10010010 m)"

definition flat_entry :: "u8 \<Rightarrow> u8 list" where
  "flat_entry acc = [0xFF, 0xFF, 0, 0, 0, acc, 0xCF, 0]"

lemma gdt_entry_bytes: "gdt_entry e acc m = store_bytes m e (flat_entry acc)"
  by (rule ext) (simp add: gdt_entry_def flat_entry_def gdt_fields Let_def store16_def)

text \<open>
  \<^verbatim>\<open>gdt_make_flat\<close> writes a null descriptor and flat code and data descriptors, but its \<^verbatim>\<open>mset32\<close> counts
  bytes where it should count double words: it also clears the 72 bytes that follow the table of three
  descriptors, whatever they hold.
\<close>

lemma gdt_make_flat_overruns:
  "gdt_make_flat gdt m = store_bytes m gdt (replicate 8 0 @ flat_entry 0x9A @ flat_entry 0x92 @ replicate 72 0)"
proof
  fix x
  define d where "d = x - gdt"
  have zeros: "mset32 m gdt 0 (sizeof_gdt * 3) = store_bytes m gdt (replicate 96 0)"
  proof -
    have "concat (replicate 24 [0, 0, 0, 0 :: u8]) = replicate 96 0" by code_simp
    then show ?thesis by (simp add: mset32_def sizeof_gdt_def)
  qed
  have e: "x - gdt = d" "x - (gdt + 8) = d - 8" "x - (gdt + 16) = d - 16" by (simp_all add: d_def)
  have l: "length (flat_entry acc) = 8" for acc by (simp add: flat_entry_def)
  have sub: "unat (d - 8) = (if 8 \<le> unat d then unat d - 8 else 4294967296 + unat d - 8)"
    "unat (d - 16) = (if 16 \<le> unat d then unat d - 16 else 4294967296 + unat d - 16)"
    by (simp_all add: unat_sub_if')
  have "gdt_make_flat gdt m x = (if unat (d - 16) < 8 then flat_entry 0x92 ! unat (d - 16)
      else if unat (d - 8) < 8 then flat_entry 0x9A ! unat (d - 8)
      else if unat d < 96 then 0 else m x)"
    unfolding gdt_make_flat_def Let_def zeros gdt_entry_bytes
    by (simp add: store_bytes_apply l e sizeof_gdt_def)
  also have "\<dots> = (if unat d < 96 then
      (replicate 8 0 @ flat_entry 0x9A @ flat_entry 0x92 @ replicate 72 0) ! unat d else m x)"
    unfolding sub by (auto simp: nth_append l)
  also have "\<dots> = store_bytes m gdt (replicate 8 0 @ flat_entry 0x9A @ flat_entry 0x92 @ replicate 72 0) x"
    by (subst store_bytes_apply) (simp_all add: l d_def)
  finally show "gdt_make_flat gdt m x =
      store_bytes m gdt (replicate 8 0 @ flat_entry 0x9A @ flat_entry 0x92 @ replicate 72 0) x" .
qed

section \<open>The interrupt descriptor table\<close>

record idt_t =
  offset_low :: u16
  selector :: u16
  idt_zero :: u8
  attr :: u8
  offset_high :: u16

definition IDT_PRESENT :: u8 where "IDT_PRESENT = push_bit 7 1"
definition IDT_RING_0 :: u8 where "IDT_RING_0 = 0"
definition IDT_GTYPE_INTR32 :: u8 where "IDT_GTYPE_INTR32 = 0x0E"

lemmas idt_consts = IDT_PRESENT_def IDT_RING_0_def IDT_GTYPE_INTR32_def

text \<open>Both \<^verbatim>\<open>ADD_TRAP\<close> and \<^verbatim>\<open>ADD_INTERRUPT\<close> make this entry; \<^verbatim>\<open>zero\<close> was cleared with the rest of it.\<close>

definition idt_entry :: "u32 \<Rightarrow> idt_t" where
  "idt_entry isr = \<lparr>offset_low = ucast isr, selector = 0x8, idt_zero = 0,
     attr = IDT_GTYPE_INTR32 OR IDT_PRESENT OR IDT_RING_0, offset_high = ucast (drop_bit 16 isr)\<rparr>"

definition idt_vectors :: "nat list" where
  "idt_vectors = [0, 1, 2, 3, 4, 5, 6, 7, 8, 9, 10, 11, 12, 13, 14, 15,
     16, 17, 18, 19, 20, 21, 22, 23, 24, 25, 26, 27, 28, 29, 30, 31,
     32, 33, 34, 35, 36, 37, 38, 39, 40, 41, 42, 43, 44, 45, 46, 47,
     64, 65, 66, 67, 68, 69, 70, 71, 72, 73, 74, 75, 76, 77, 78, 79, 80, 81, 82, 83, 84, 85, 86]"

definition idt_make_default :: "(nat \<Rightarrow> u32) \<Rightarrow> u32 \<Rightarrow> idt_t list \<Rightarrow> idt_t list" where
  "idt_make_default isr isr_sys idt =
     (fold (\<lambda>n idt. idt[n := idt_entry (isr n)]) idt_vectors idt)[0xAE := idt_entry isr_sys]"

text \<open>
  The descriptors of both tables, and the table registers that \<^verbatim>\<open>lgdt\<close> and \<^verbatim>\<open>lidt\<close> load from them: a limit and a base
  address.
\<close>

record gdt_desc_t =
  gdt_desc_size :: u16
  gdt_desc_addr :: u32

record idt_desc_t =
  idt_desc_size :: u16
  idt_desc_addr :: u32

record table_regs =
  gdtr :: "u16 \<times> u32"
  idtr :: "u16 \<times> u32"

definition lgdt :: "gdt_desc_t \<Rightarrow> table_regs \<Rightarrow> table_regs" where
  "lgdt d t = t\<lparr>gdtr := (gdt_desc_size d, gdt_desc_addr d)\<rparr>"

definition lidt :: "idt_desc_t \<Rightarrow> table_regs \<Rightarrow> table_regs" where
  "lidt d t = t\<lparr>idtr := (idt_desc_size d, idt_desc_addr d)\<rparr>"

text \<open>An entry of eight bytes is used if its last byte is not behind the limit.\<close>

definition in_table :: "u16 \<times> u32 \<Rightarrow> nat \<Rightarrow> bool" where
  "in_table r n \<longleftrightarrow> 8 * n + 7 \<le> unat (fst r)"

text \<open>The processor's view of a gate: whether it is present, and the 32-bit address of its handler.\<close>

definition gate_present :: "idt_t \<Rightarrow> bool" where
  "gate_present e \<longleftrightarrow> bit (attr e) 7"

definition gate_offset :: "idt_t \<Rightarrow> u32" where
  "gate_offset e = ucast (offset_low e) OR push_bit 16 (ucast (offset_high e))"

definition idt_empty :: "idt_t list" where
  "idt_empty = replicate 256 \<lparr>offset_low = 0, selector = 0, idt_zero = 0, attr = 0, offset_high = 0\<rparr>"

lemma gate_offset_entry: "gate_offset (idt_entry isr) = isr"
  by (rule bit_word_eqI) (auto simp: gate_offset_def idt_entry_def bit_simps)

lemma gate_present_entry: "gate_present (idt_entry isr)"
  by (simp add: gate_present_def idt_entry_def idt_consts bit_simps)

lemma set_idt_vectors: "set idt_vectors = {n. n < 48 \<or> 64 \<le> n \<and> n < 87}"
proof -
  have eq: "idt_vectors = [0..<48] @ [64..<87]" by code_simp
  show ?thesis unfolding eq set_append set_upt by auto
qed

lemma fold_update_nth:
  assumes "set ns \<subseteq> {..<length xs}" and "k < length xs"
  shows "fold (\<lambda>n xs. xs[n := f n]) ns xs ! k = (if k \<in> set ns then f k else xs ! k)"
  using assms by (induction ns arbitrary: xs) auto

lemma idt_make_default_nth:
  assumes "n < 256"
  shows "idt_make_default isr isr_sys idt_empty ! n =
    (if n = 0xAE then idt_entry isr_sys else if n < 48 \<or> 64 \<le> n \<and> n < 87 then idt_entry (isr n)
     else idt_empty ! n)"
proof -
  have "set idt_vectors \<subseteq> {..<length idt_empty}" by (auto simp: set_idt_vectors idt_empty_def)
  moreover have "length (fold (\<lambda>n idt. idt[n := idt_entry (isr n)]) ns idt) = length idt" for ns idt
    by (induction ns arbitrary: idt) auto
  ultimately show ?thesis
    using assms fold_update_nth [of idt_vectors idt_empty n "\<lambda>n. idt_entry (isr n)"]
    by (auto simp: idt_make_default_def nth_list_update set_idt_vectors idt_empty_def)
qed

text \<open>
  C37 After \<^verbatim>\<open>idt_make_default\<close> exactly the exceptions, the 16 lines of the PIC, the first 23 lines of the
  APIC and the system call vector have a gate, and each gate leads to the stub of its vector: line 23 of
  the APIC (vector 87), for which a stub exists, and the spurious vector 255 have none.
\<close>

theorem idt_make_default_gates:
  assumes "n < 256"
  shows "(gate_present (idt_make_default isr isr_sys idt_empty ! n) \<longleftrightarrow> n < 48 \<or> 64 \<le> n \<and> n < 87 \<or> n = 0xAE) \<and>
    (n < 48 \<or> 64 \<le> n \<and> n < 87 \<longrightarrow> gate_offset (idt_make_default isr isr_sys idt_empty ! n) = isr n) \<and>
    gate_offset (idt_make_default isr isr_sys idt_empty ! 0xAE) = isr_sys"
proof -
  have "\<not> gate_present (idt_empty ! n)" using assms by (simp add: idt_empty_def gate_present_def)
  with assms show ?thesis by (simp add: idt_make_default_nth gate_present_entry gate_offset_entry)
qed

theorem idt_make_default_gates_witness:
  "gate_offset (idt_make_default (\<lambda>n. of_nat (0x1000 + 16 * n)) 0x5000 idt_empty ! 33) = 0x1210 \<and>
   \<not> gate_present (idt_make_default (\<lambda>n. of_nat (0x1000 + 16 * n)) 0x5000 idt_empty ! 87)"
  using idt_make_default_gates [of 33 "\<lambda>n. of_nat (0x1000 + 16 * n)" "0x5000"]
    idt_make_default_gates [of 87 "\<lambda>n. of_nat (0x1000 + 16 * n)" "0x5000"]
  by simp

end
