(* ===== verification/Pmman.thy ===== *)
theory Pmman
  imports Align "HOL-Library.Multiset"
begin

text \<open>
  The physical memory manager: \<^verbatim>\<open>kernel/pmman.h\<close>, \<^verbatim>\<open>kernel/pmman.c\<close> and the memory map of
  \<^verbatim>\<open>kernel/drivers/memmap.h\<close>.  A map is a bitmap of 1024 blocks, one bit per block, set when the
  block is in use.  The first-fit search of \<^verbatim>\<open>pmman_alloc\<close> is kept as the two nested loops of the
  code, the outer one as a partial function; a read or write outside the 32 words of the bitmap is
  \<^term>\<open>None\<close>.

  The lemmas read the bitmap as the predicate \<open>used\<close> on block numbers: what one bit operation, a
  range operation and the search do to it.  The interface \<open>block_allocator\<close> states what the rest of
  the kernel relies on, with the facts every client gets from it, and is interpreted on the code.
\<close>

section \<open>State and constants\<close>

record pmman_map_t =
  pm_block_size :: usz
  pm_base :: usz
  pm_bits :: "u32 list"

definition PMMAN_BLOCK_SIZE_SHIFT :: usz where "PMMAN_BLOCK_SIZE_SHIFT = 14"
definition PMMAN_BITS :: usz where "PMMAN_BITS = 32 * 32"
definition PMMAN_BLOCK_SIZE :: usz where "PMMAN_BLOCK_SIZE = push_bit 14 1"
definition PMMAN_SIZE :: usz where "PMMAN_SIZE = PMMAN_BITS * PMMAN_BLOCK_SIZE"

record memmap_t =
  mm_base :: u64
  mm_len :: u64
  mm_type :: u32
  mm_attribs :: u32

definition MEMMAP_INVAL :: u32 where "MEMMAP_INVAL = 0"
definition MEMMAP_USABLE :: u32 where "MEMMAP_USABLE = 1"
definition MEMMAP_RESERVED :: u32 where "MEMMAP_RESERVED = 2"

definition memmap_type_str :: "u32 \<Rightarrow> string" where
  "memmap_type_str type =
     (if type = MEMMAP_INVAL then ''INVALID ''
      else if type = MEMMAP_USABLE then ''USABLE  ''
      else if type = MEMMAP_RESERVED then ''RESERVED''
      else ''UNKNOWN '')"

section \<open>Single blocks and ranges\<close>

definition pmman_to_block :: "pmman_map_t \<Rightarrow> addr \<Rightarrow> usz" where
  "pmman_to_block mp addr = drop_bit (unat (pm_block_size mp)) (addr - pm_base mp)"

definition pmman_to_blocks :: "pmman_map_t \<Rightarrow> usz \<Rightarrow> usz" where
  "pmman_to_blocks mp len =
     drop_bit (unat (pm_block_size mp)) (align_fwd len (push_bit (unat (pm_block_size mp)) 1))"

definition pmman_align :: "pmman_map_t \<Rightarrow> usz \<Rightarrow> usz" where
  "pmman_align mp len = align_fwd len (push_bit (unat (pm_block_size mp)) 1)"

definition pmman_set_block :: "u32 list \<Rightarrow> usz \<Rightarrow> u32 list option" where
  "pmman_set_block mp block =
     (let index = drop_bit 5 block; b = block AND 0x1F
      in do { w \<leftarrow> arr_get mp index; arr_set mp index (w OR push_bit (unat b) 1) })"

definition pmman_clear_block :: "u32 list \<Rightarrow> usz \<Rightarrow> u32 list option" where
  "pmman_clear_block mp block =
     (let index = drop_bit 5 block; b = block AND 0x1F
      in do { w \<leftarrow> arr_get mp index; arr_set mp index (w AND NOT (push_bit (unat b) 1)) })"

definition pmman_get_block :: "u32 list \<Rightarrow> usz \<Rightarrow> u8 option" where
  "pmman_get_block mp block =
     (let index = drop_bit 5 block; b = block AND 0x1F
      in do { w \<leftarrow> arr_get mp index; Some (ucast (drop_bit (unat b) w AND 1)) })"

definition pmman_mark_range :: "pmman_map_t \<Rightarrow> usz \<Rightarrow> usz \<Rightarrow> pmman_map_t option" where
  "pmman_mark_range mp start sz =
     (let e = start + sz
      in for_range start e (\<lambda>i m. do { bs \<leftarrow> pmman_set_block (pm_bits m) i; Some (m\<lparr>pm_bits := bs\<rparr>) }) mp)"

definition pmman_clear_range :: "pmman_map_t \<Rightarrow> usz \<Rightarrow> usz \<Rightarrow> pmman_map_t option" where
  "pmman_clear_range mp start sz =
     (let e = start + sz
      in for_range start e (\<lambda>i m. do { bs \<leftarrow> pmman_clear_block (pm_bits m) i; Some (m\<lparr>pm_bits := bs\<rparr>) }) mp)"

section \<open>Allocation\<close>

text \<open>
  The inner loop of \<^verbatim>\<open>pmman_alloc\<close> extends the run of free blocks that began at \<open>start\<close>; its result
  says whether the \<^verbatim>\<open>goto found\<close> was taken, and the value of \<open>i\<close> when it was left.
\<close>

function pmman_alloc_while :: "u32 list \<Rightarrow> usz \<Rightarrow> usz \<Rightarrow> usz \<Rightarrow> (bool \<times> usz) option" where
  "pmman_alloc_while bs blocks start i =
     (if i < PMMAN_BITS then
        do { b \<leftarrow> pmman_get_block bs i;
             if b = 0 then
               if i + 1 - start = blocks then Some (True, i + 1)
               else pmman_alloc_while bs blocks start (i + 1)
             else Some (False, i) }
      else Some (False, i))"
  by pat_completeness auto
termination
  by (relation "measure (\<lambda>(bs, n, s, i). unat PMMAN_BITS - unat i)")
    (auto simp: unat_succ_less, simp add: word_less_nat_alt)

partial_function (option) pmman_alloc_for :: "u32 list \<Rightarrow> usz \<Rightarrow> usz \<Rightarrow> usz option option" where
  "pmman_alloc_for bs blocks i =
     (if i \<le> PMMAN_BITS - blocks then
        do { (found, i') \<leftarrow> pmman_alloc_while bs blocks i i;
             if found then Some (Some i) else pmman_alloc_for bs blocks (i' + 1) }
      else Some None)"

definition pmman_alloc :: "pmman_map_t \<Rightarrow> usz \<Rightarrow> (addr \<times> pmman_map_t) option" where
  "pmman_alloc mp sz =
     (let blocks = pmman_to_blocks mp sz
      in if PMMAN_BITS < blocks then Some (0, mp)
         else do { r \<leftarrow> pmman_alloc_for (pm_bits mp) blocks 0;
                   case r of
                     None \<Rightarrow> Some (0, mp)
                   | Some start \<Rightarrow>
                       do { mp' \<leftarrow> pmman_mark_range mp start blocks;
                            Some (push_bit (unat (pm_block_size mp)) start + pm_base mp, mp') } })"

definition pmman_free :: "pmman_map_t \<Rightarrow> addr \<Rightarrow> usz \<Rightarrow> pmman_map_t option" where
  "pmman_free mp a sz = pmman_clear_range mp (pmman_to_block mp a) (pmman_to_blocks mp sz)"

definition pmman_print_map :: "pmman_map_t \<Rightarrow> string" where
  "pmman_print_map mp =
     concat (map (\<lambda>i.
       map (\<lambda>j. if drop_bit j (pm_bits mp ! i) AND 1 \<noteq> 0 then CHR ''#'' else CHR ''.'') [0..<32] @
       (if odd i then [CHR 0x0A] else [])) [0..<32])"

section \<open>Initialisation from the BIOS memory map\<close>

text \<open>The selection sort of the memory map: one pass finds the least base and swaps it in place.\<close>

definition pmman_find_min :: "memmap_t list \<Rightarrow> u32 \<Rightarrow> usz \<Rightarrow> (usz \<times> u64) option" where
  "pmman_find_min memmap memmap_count pass =
     for_range pass memmap_count
       (\<lambda>i (min_index, min_val).
          do { e \<leftarrow> arr_get memmap i;
               if mm_base e \<ge> min_val then Some (min_index, min_val)
               else Some (i, mm_base e) })
       (0, - 1)"

definition pmman_sort_pass :: "u32 \<Rightarrow> usz \<Rightarrow> memmap_t list \<Rightarrow> memmap_t list option" where
  "pmman_sort_pass memmap_count pass memmap =
     do { (min_index, min_val) \<leftarrow> pmman_find_min memmap memmap_count pass;
          if min_index = pass then Some memmap
          else do { tmp \<leftarrow> arr_get memmap min_index;
                    e \<leftarrow> arr_get memmap pass;
                    memmap \<leftarrow> arr_set memmap min_index e;
                    arr_set memmap pass tmp } }"

definition pmman_sort :: "memmap_t list \<Rightarrow> u32 \<Rightarrow> memmap_t list option" where
  "pmman_sort memmap memmap_count =
     for_range 0 (memmap_count - 1) (pmman_sort_pass memmap_count) memmap"

definition pmman_add_entry :: "memmap_t \<Rightarrow> pmman_map_t \<Rightarrow> pmman_map_t option" where
  "pmman_add_entry e mp =
     (let b = mm_base e; len = mm_len e
      in if mm_type e \<noteq> MEMMAP_USABLE \<or> mm_base e \<ge> ucast PMMAN_SIZE then Some mp
         else let len = (if b + len \<ge> ucast PMMAN_SIZE then len - (b + len - ucast PMMAN_SIZE) else len)
              in pmman_clear_range mp (pmman_to_block mp (ucast b)) (pmman_to_blocks mp (ucast len)))"

definition pmman_initialize ::
    "memmap_t list \<Rightarrow> u32 \<Rightarrow> (pmman_map_t \<times> memmap_t list) option" where
  "pmman_initialize memmap memmap_count =
     (let mp = \<lparr>pm_block_size = PMMAN_BLOCK_SIZE_SHIFT, pm_base = 0,
                pm_bits = replicate 32 0xFFFFFFFF\<rparr>
      in do { memmap \<leftarrow> pmman_sort memmap memmap_count;
              mp \<leftarrow> for_range 0 memmap_count
                 (\<lambda>i mp. do { e \<leftarrow> arr_get memmap i; pmman_add_entry e mp }) mp;
              Some (mp, memmap) })"


section \<open>The bitmap as a set of used blocks\<close>

definition used :: "u32 list \<Rightarrow> nat \<Rightarrow> bool" where
  "used bs n \<longleftrightarrow> bit (bs ! (n div 32)) (n mod 32)"

lemma block_index [unat_simps]:
  "unat (drop_bit 5 (b :: usz)) = unat b div 32" "unat (b AND 0x1F) = unat b mod 32"
  using unat_and_mask [of b 5] unat_drop_bit [of 5 b] by (simp_all add: mask_eq_exp_minus_1)

lemma pmman_set_block_used:
  assumes "unat b < 1024" and "length bs = 32"
  shows "\<exists>bs'. pmman_set_block bs b = Some bs' \<and> length bs' = 32 \<and>
    (\<forall>k<1024. used bs' k \<longleftrightarrow> (if k = unat b then True else used bs k))"
proof -
  have "unat b div 32 < 32" using assms by simp
  moreover have "bit (push_bit (unat b mod 32) 1 :: u32) j \<longleftrightarrow> j = unat b mod 32" for j
    by (auto simp: bit_simps)
  moreover have "k = unat b \<longleftrightarrow> k div 32 = unat b div 32 \<and> k mod 32 = unat b mod 32" for k
    by (metis div_mult_mod_eq)
  ultimately show ?thesis using assms(2)
    by (auto simp: pmman_set_block_def block_index used_def nth_list_update bit_or_iff)
qed

lemma pmman_clear_block_used:
  assumes "unat b < 1024" and "length bs = 32"
  shows "\<exists>bs'. pmman_clear_block bs b = Some bs' \<and> length bs' = 32 \<and>
    (\<forall>k<1024. used bs' k \<longleftrightarrow> (if k = unat b then False else used bs k))"
proof -
  have "unat b div 32 < 32" using assms by simp
  moreover have "bit (w AND NOT (push_bit (unat b mod 32) 1 :: u32)) j \<longleftrightarrow> j \<noteq> unat b mod 32 \<and> bit w j" for j w
    by (auto simp: bit_simps dest: bit_imp_le_length)
  moreover have "k = unat b \<longleftrightarrow> k div 32 = unat b div 32 \<and> k mod 32 = unat b mod 32" for k
    by (metis div_mult_mod_eq)
  ultimately show ?thesis using assms(2)
    by (auto simp: pmman_clear_block_def block_index used_def nth_list_update)
qed

lemma pmman_get_block_used:
  assumes "unat b < 1024" and "length bs = 32"
  shows "pmman_get_block bs b = Some (if used bs (unat b) then 1 else 0)"
proof -
  have "drop_bit k w AND 1 = of_bool (bit w k)" for k and w :: u32
    by (rule bit_word_eqI) (auto simp: bit_simps)
  then show ?thesis using assms
    by (simp add: pmman_get_block_def block_index used_def)
qed


text \<open>Both range operations run one block operation over a range; one lemma serves them.\<close>

lemma range_op_used:
  assumes op: "\<And>b bs. unat b < 1024 \<Longrightarrow> length bs = 32 \<Longrightarrow>
      \<exists>bs'. op bs b = Some bs' \<and> length bs' = 32 \<and>
        (\<forall>k<1024. used bs' k \<longleftrightarrow> (if k = unat b then v else used bs k))"
    and "unat start + unat sz \<le> 1024" and "length (pm_bits mp) = 32"
  shows "\<exists>bs'. for_range start (start + sz)
      (\<lambda>i m. do { bs \<leftarrow> op (pm_bits m) i; Some (m\<lparr>pm_bits := bs\<rparr>) }) mp = Some (mp\<lparr>pm_bits := bs'\<rparr>) \<and>
    length bs' = 32 \<and>
    (\<forall>k<1024. used bs' k \<longleftrightarrow>
      (if unat start \<le> k \<and> k < unat start + unat sz then v else used (pm_bits mp) k))"
proof -
  let ?body = "\<lambda>i m. do { bs \<leftarrow> op (pm_bits m) i; Some (m\<lparr>pm_bits := bs\<rparr>) }"
  let ?P = "\<lambda>i m. unat start \<le> unat i \<and> (\<exists>bs'. m = mp\<lparr>pm_bits := bs'\<rparr> \<and> length bs' = 32 \<and>
    (\<forall>k<1024. used bs' k \<longleftrightarrow> (if unat start \<le> k \<and> k < unat i then v else used (pm_bits mp) k)))"
  have e: "unat (start + sz) = unat start + unat sz"
    by (rule unat_add_bounded) (use assms(2) in simp)
  have "\<exists>m'. for_range start (start + sz) ?body mp = Some m' \<and> ?P (start + sz) m'"
  proof (rule for_range_rule)
    show "?P start mp"
      by (rule conjI, simp, rule exI [of _ "pm_bits mp"]) (use assms(3) in auto)
    show "start \<le> start + sz" by (simp add: word_le_nat_alt e)
  next
    fix i m assume i: "i < start + sz" and "?P i m"
    then obtain bs where bs: "m = mp\<lparr>pm_bits := bs\<rparr>" "length bs = 32" "unat start \<le> unat i"
      "\<forall>k<1024. used bs k \<longleftrightarrow> (if unat start \<le> k \<and> k < unat i then v else used (pm_bits mp) k)"
      by blast
    from i have "unat i < 1024" using e assms(2) by (simp add: word_less_nat_alt)
    from op [OF this bs(2)] obtain bs' where bs': "op bs i = Some bs'" "length bs' = 32"
      "\<forall>k<1024. used bs' k \<longleftrightarrow> (if k = unat i then v else used bs k)" by blast
    have "?P (i + 1) (mp\<lparr>pm_bits := bs'\<rparr>)"
      using bs bs' by (auto simp: unat_succ_less [OF i] less_Suc_eq)
    with bs bs' show "\<exists>s'. ?body i m = Some s' \<and> ?P (i + 1) s'" by simp
  qed
  then show ?thesis unfolding e by blast
qed

lemma pmman_mark_range_used:
  assumes "unat start + unat sz \<le> 1024" and "length (pm_bits mp) = 32"
  shows "\<exists>bs'. pmman_mark_range mp start sz = Some (mp\<lparr>pm_bits := bs'\<rparr>) \<and> length bs' = 32 \<and>
    (\<forall>k<1024. used bs' k \<longleftrightarrow>
      (if unat start \<le> k \<and> k < unat start + unat sz then True else used (pm_bits mp) k))"
  unfolding pmman_mark_range_def Let_def
  by (rule range_op_used [OF pmman_set_block_used assms])

lemma pmman_clear_range_used:
  assumes "unat start + unat sz \<le> 1024" and "length (pm_bits mp) = 32"
  shows "\<exists>bs'. pmman_clear_range mp start sz = Some (mp\<lparr>pm_bits := bs'\<rparr>) \<and> length bs' = 32 \<and>
    (\<forall>k<1024. used bs' k \<longleftrightarrow>
      (if unat start \<le> k \<and> k < unat start + unat sz then False else used (pm_bits mp) k))"
  unfolding pmman_clear_range_def Let_def
  by (rule range_op_used [OF pmman_clear_block_used assms])

section \<open>First fit\<close>

definition free_run :: "u32 list \<Rightarrow> nat \<Rightarrow> nat \<Rightarrow> bool" where
  "free_run bs s n \<longleftrightarrow> s + n \<le> 1024 \<and> (\<forall>k. s \<le> k \<and> k < s + n \<longrightarrow> \<not> used bs k)"

lemma PMMAN_BITS_eq: "PMMAN_BITS = 1024" by (simp add: PMMAN_BITS_def)

declare pmman_alloc_while.simps [simp del]

lemma pmman_alloc_while_result:
  assumes "length bs = 32" and "unat start \<le> unat i" and "unat i \<le> 1024"
    and "unat i - unat start < unat blocks"
    and "\<forall>k. unat start \<le> k \<and> k < unat i \<longrightarrow> \<not> used bs k"
  shows "(\<exists>j. pmman_alloc_while bs blocks start i = Some (True, j) \<and>
            free_run bs (unat start) (unat blocks)) \<or>
         (\<exists>j. pmman_alloc_while bs blocks start i = Some (False, j) \<and>
            unat i \<le> unat j \<and> unat j \<le> 1024 \<and> unat j - unat start < unat blocks \<and>
            (unat j = 1024 \<or> used bs (unat j)))"
  using assms
proof (induction bs blocks start i rule: pmman_alloc_while.induct)
  case (1 bs blocks start i)
  show ?case
  proof (cases "unat i < 1024 \<and> \<not> used bs (unat i)")
    case False
    then show ?thesis using "1.prems"
      by (auto simp: pmman_alloc_while.simps [of _ _ _ i] PMMAN_BITS_eq word_less_nat_alt
          pmman_get_block_used)
  next
    case True
    then have i: "i < PMMAN_BITS" by (simp add: PMMAN_BITS_eq word_less_nat_alt)
    have get: "pmman_get_block bs i = Some 0"
      using True "1.prems"(1) by (simp add: pmman_get_block_used)
    have succ: "unat (i + 1) = Suc (unat i)" by (rule unat_succ_less [OF i])
    have run: "\<forall>k. unat start \<le> k \<and> k < unat (i + 1) \<longrightarrow> \<not> used bs k"
      using "1.prems"(5) True by (auto simp: succ less_Suc_eq)
    have diff: "unat (i + 1 - start) = Suc (unat i) - unat start"
      using "1.prems"(2) by (subst unat_sub) (simp_all add: succ word_le_nat_alt)
    show ?thesis
    proof (cases "i + 1 - start = blocks")
      case found: True
      then have "unat blocks = Suc (unat i) - unat start" using diff by simp
      then have "free_run bs (unat start) (unat blocks)"
        using run True "1.prems"(2) by (auto simp: free_run_def succ)
      with found show ?thesis
        by (subst (1 2) pmman_alloc_while.simps) (simp add: i get)
    next
      case False
      have "unat (i + 1 - start) \<noteq> unat blocks" using False by (simp add: word_unat_eq_iff)
      then have "unat (i + 1) - unat start < unat blocks"
        using "1.prems"(2,4) diff by (simp add: succ)
      moreover have "pmman_alloc_while bs blocks start i = pmman_alloc_while bs blocks start (i + 1)"
        by (subst pmman_alloc_while.simps) (simp add: i get False)
      ultimately show ?thesis
        using "1.IH" [OF i get refl False] "1.prems" True run by (auto simp: succ)
    qed
  qed
qed


lemma pmman_alloc_for_result:
  assumes "length bs = 32" and "0 < unat blocks" and "unat blocks \<le> 1024" and "unat i \<le> 1025"
    and "\<forall>s < unat i. \<not> free_run bs s (unat blocks)"
  shows "\<exists>r. pmman_alloc_for bs blocks i = Some r \<and>
    (case r of
       None \<Rightarrow> \<forall>s. \<not> free_run bs s (unat blocks)
     | Some j \<Rightarrow> free_run bs (unat j) (unat blocks) \<and> (\<forall>s < unat j. \<not> free_run bs s (unat blocks)))"
  using assms(4,5)
proof (induction "1025 - unat i" arbitrary: i rule: less_induct)
  case less
  have limit: "unat (PMMAN_BITS - blocks) = 1024 - unat blocks"
    using assms(3) by (subst unat_sub) (simp_all add: PMMAN_BITS_eq word_le_nat_alt)
  show ?case
  proof (cases "i \<le> PMMAN_BITS - blocks")
    case False
    then have "\<not> free_run bs s (unat blocks)" for s
      using less.prems(2) assms(3) by (cases "s < unat i") (auto simp: word_le_nat_alt limit free_run_def)
    with False show ?thesis by (simp add: pmman_alloc_for.simps)
  next
    case True
    then have i: "unat i + unat blocks \<le> 1024"
      using assms(3) by (simp add: word_le_nat_alt limit)
    from pmman_alloc_while_result [of bs i i blocks] assms i
    consider (found) j where "pmman_alloc_while bs blocks i i = Some (True, j)"
        "free_run bs (unat i) (unat blocks)"
      | (stopped) j where "pmman_alloc_while bs blocks i i = Some (False, j)" "unat i \<le> unat j"
        "unat j \<le> 1024" "unat j - unat i < unat blocks" "unat j = 1024 \<or> used bs (unat j)"
      by fastforce
    then show ?thesis
    proof cases
      case found
      with True less.prems(2) show ?thesis by (simp add: pmman_alloc_for.simps)
    next
      case stopped
      have succ: "unat (j + 1) = Suc (unat j)"
        using stopped(3) by (subst unat_add_bounded) simp_all
      have "\<not> free_run bs s (unat blocks)" if "s < unat (j + 1)" for s
      proof (cases "s < unat i")
        case False
        then have "s \<le> unat j" "unat j < s + unat blocks"
          using that stopped succ by auto
        then show ?thesis using stopped(5) by (auto simp: free_run_def)
      qed (use less.prems(2) in blast)
      moreover have "1025 - unat (j + 1) < 1025 - unat i" "unat (j + 1) \<le> 1025"
        using stopped(2,3) i assms(2) succ by simp_all
      ultimately show ?thesis
        using less.hyps [of "j + 1"] True stopped(1) by (simp add: pmman_alloc_for.simps [of _ _ i])
    qed
  qed
qed

lemma pmman_alloc_while_zero:
  assumes "length bs = 32" and "unat start \<le> unat i" and "unat i \<le> 1024"
  shows "\<exists>j. pmman_alloc_while bs 0 start i = Some (False, j) \<and> unat i \<le> unat j \<and> unat j \<le> 1024"
  using assms
proof (induction bs "0 :: usz" start i rule: pmman_alloc_while.induct)
  case (1 bs start i)
  show ?case
  proof (cases "unat i < 1024 \<and> \<not> used bs (unat i)")
    case False
    then show ?thesis using "1.prems"
      by (auto simp: pmman_alloc_while.simps [of _ _ _ i] PMMAN_BITS_eq word_less_nat_alt
          pmman_get_block_used)
  next
    case True
    then have i: "i < PMMAN_BITS" by (simp add: PMMAN_BITS_eq word_less_nat_alt)
    have get: "pmman_get_block bs i = Some 0"
      using True "1.prems"(1) by (simp add: pmman_get_block_used)
    have succ: "unat (i + 1) = Suc (unat i)" by (rule unat_succ_less [OF i])
    have "i + 1 - start \<noteq> 0"
    proof
      assume "i + 1 - start = 0"
      then have "start = i + 1" by simp
      then show False using "1.prems"(2) succ by simp
    qed
    with "1.hyps" [OF i get refl] "1.prems" True show ?thesis
      by (subst pmman_alloc_while.simps) (auto simp: i get succ)
  qed
qed

lemma pmman_alloc_for_zero:
  assumes "length bs = 32" and "unat i \<le> 1025"
  shows "pmman_alloc_for bs 0 i = Some None"
  using assms(2)
proof (induction "1025 - unat i" arbitrary: i rule: less_induct)
  case less
  show ?case
  proof (cases "i \<le> PMMAN_BITS")
    case True
    then have "unat i \<le> 1024" by (simp add: PMMAN_BITS_eq word_le_nat_alt)
    with pmman_alloc_while_zero [OF assms(1), of i i] obtain j where
      j: "pmman_alloc_while bs 0 i i = Some (False, j)" "unat i \<le> unat j" "unat j \<le> 1024" by auto
    have "unat (j + 1) = Suc (unat j)"
      using j(3) by (subst unat_add_bounded) simp_all
    with j True less.hyps [of "j + 1"] show ?thesis
      by (simp add: pmman_alloc_for.simps [of _ _ i])
  qed (simp add: pmman_alloc_for.simps)
qed


definition pmman_inv :: "pmman_map_t \<Rightarrow> bool" where
  "pmman_inv mp \<longleftrightarrow> length (pm_bits mp) = 32 \<and> pm_block_size mp = PMMAN_BLOCK_SIZE_SHIFT \<and> pm_base mp = 0"

definition in_use :: "pmman_map_t \<Rightarrow> nat set" where
  "in_use mp = {k. k < 1024 \<and> used (pm_bits mp) k}"

text \<open>
  The number of blocks a request is rounded to: \<^verbatim>\<open>align_fwd\<close> wraps to 0 within one block of the end
  of the address space.
\<close>

definition nblocks :: "usz \<Rightarrow> nat" where
  "nblocks sz = (if unat sz + 16384 \<le> 2 ^ 32 then (unat sz + 16383) div 16384 else 0)"

lemma unat_pmman_to_blocks:
  assumes "pmman_inv mp"
  shows "unat (pmman_to_blocks mp sz) = nblocks sz"
proof -
  have eq: "pmman_to_blocks mp sz = drop_bit 14 (align_fwd sz (2 ^ 14))"
    using assms by (simp add: pmman_to_blocks_def pmman_inv_def PMMAN_BLOCK_SIZE_SHIFT_def)
  show ?thesis
  proof (cases "unat sz + 16384 \<le> 2 ^ 32")
    case True
    then show ?thesis
      using unat_align_fwd [of sz 14] by (simp add: eq unat_drop_bit nblocks_def)
  next
    case False
    have "unat sz - 4294950913 < 4294967296"
      using unat_bound32 [of sz] by linarith
    then have "unat (sz + 0x3FFF) = unat sz + 16383 - 2 ^ 32"
      using False by (simp add: unat_word_ariths le_mod_geq)
    moreover have "unat sz + 16383 - 4294967296 < 16384"
      using unat_bound32 [of sz] by arith
    ultimately have "unat (sz + 0x3FFF) < 16384" by simp
    then have "unat (align_fwd sz (2 ^ 14)) = 0"
      using unat_and_not_mask [of "sz + 0x3FFF" 14]
      by (simp add: align_fwd_def mask_eq_exp_minus_1)
    with False show ?thesis by (simp add: eq unat_drop_bit nblocks_def)
  qed
qed

lemma unat_pmman_to_block:
  "pmman_inv mp \<Longrightarrow> unat (pmman_to_block mp a) = unat a div 16384"
  by (simp add: pmman_to_block_def pmman_inv_def PMMAN_BLOCK_SIZE_SHIFT_def unat_drop_bit)

lemma pmman_alloc_result:
  assumes inv: "pmman_inv mp"
  shows "if nblocks sz = 0 \<or> (\<forall>s. \<not> free_run (pm_bits mp) s (nblocks sz))
    then pmman_alloc mp sz = Some (0, mp)
    else \<exists>s bs'. free_run (pm_bits mp) s (nblocks sz) \<and>
      (\<forall>t < s. \<not> free_run (pm_bits mp) t (nblocks sz)) \<and>
      pmman_alloc mp sz = Some (of_nat (s * 16384), mp\<lparr>pm_bits := bs'\<rparr>) \<and> length bs' = 32 \<and>
      (\<forall>k<1024. used bs' k \<longleftrightarrow> (s \<le> k \<and> k < s + nblocks sz) \<or> used (pm_bits mp) k)"
proof -
  define n where "n = pmman_to_blocks mp sz"
  have un: "unat n = nblocks sz" using unat_pmman_to_blocks [OF inv] by (simp add: n_def)
  have len: "length (pm_bits mp) = 32" using inv by (simp add: pmman_inv_def)
  consider (big) "1024 < unat n" | (zero) "n = 0" | (ok) "0 < unat n" "unat n \<le> 1024"
    by (metis linorder_not_less unat_gt_0 unat_0 neq0_conv)
  then show ?thesis
  proof cases
    case big
    then have "PMMAN_BITS < n" by (simp add: PMMAN_BITS_eq word_less_nat_alt)
    moreover have "\<forall>s. \<not> free_run (pm_bits mp) s (nblocks sz)"
      using big un by (simp add: free_run_def)
    ultimately show ?thesis by (simp add: pmman_alloc_def flip: n_def)
  next
    case zero
    then have "nblocks sz = 0" using un by simp
    moreover have "pmman_alloc_for (pm_bits mp) 0 0 = Some None"
      by (rule pmman_alloc_for_zero [OF len]) simp
    ultimately show ?thesis using zero by (simp add: pmman_alloc_def n_def)
  next
    case ok
    then have small: "\<not> PMMAN_BITS < n" by (simp add: PMMAN_BITS_eq word_less_nat_alt)
    from pmman_alloc_for_result [OF len ok, of 0] obtain r where
      r: "pmman_alloc_for (pm_bits mp) n 0 = Some r" and
      r': "case r of None \<Rightarrow> \<forall>s. \<not> free_run (pm_bits mp) s (unat n)
        | Some j \<Rightarrow> free_run (pm_bits mp) (unat j) (unat n) \<and>
            (\<forall>s < unat j. \<not> free_run (pm_bits mp) s (unat n))" by auto
    show ?thesis
    proof (cases r)
      case None
      with r r' small un show ?thesis by (simp add: pmman_alloc_def flip: n_def)
    next
      case (Some j)
      with r' have j: "free_run (pm_bits mp) (unat j) (unat n)"
        "\<forall>s < unat j. \<not> free_run (pm_bits mp) s (unat n)" by simp_all
      then have "unat j + unat n \<le> 1024" by (simp add: free_run_def)
      from pmman_mark_range_used [OF this len] obtain bs' where
        bs': "pmman_mark_range mp j n = Some (mp\<lparr>pm_bits := bs'\<rparr>)" "length bs' = 32"
        "\<forall>k<1024. used bs' k \<longleftrightarrow>
          (if unat j \<le> k \<and> k < unat j + unat n then True else used (pm_bits mp) k)" by blast
      have "push_bit 14 j = of_nat (unat j * 16384)"
        by (simp add: push_bit_eq_mult)
      with r Some small bs' have
        "pmman_alloc mp sz = Some (of_nat (unat j * 16384), mp\<lparr>pm_bits := bs'\<rparr>)"
        using inv by (simp add: pmman_alloc_def pmman_inv_def PMMAN_BLOCK_SIZE_SHIFT_def flip: n_def)
      with j bs' un have "\<exists>s bs'. free_run (pm_bits mp) s (nblocks sz) \<and>
          (\<forall>t < s. \<not> free_run (pm_bits mp) t (nblocks sz)) \<and>
          pmman_alloc mp sz = Some (of_nat (s * 16384), mp\<lparr>pm_bits := bs'\<rparr>) \<and> length bs' = 32 \<and>
          (\<forall>k<1024. used bs' k \<longleftrightarrow> (s \<le> k \<and> k < s + nblocks sz) \<or> used (pm_bits mp) k)"
        by (intro exI [of _ "unat j"] exI [of _ bs']) auto
      with j(1) un ok(1) show ?thesis by auto
    qed
  qed
qed


section \<open>The allocator as an interface\<close>

text \<open>
  What a client of an allocator of numbered blocks relies on: an allocation either fails and changes
  nothing, because no long enough run of free blocks exists, or claims a run that was free; freeing
  a run gives exactly that run back.
\<close>

locale block_allocator =
  fixes invar :: "'m \<Rightarrow> bool"
    and busy :: "'m \<Rightarrow> nat set"
    and need :: "usz \<Rightarrow> nat"
    and limit :: nat
    and block_addr :: "nat \<Rightarrow> addr"
    and alloc :: "'m \<Rightarrow> usz \<Rightarrow> (addr \<times> 'm) option"
    and free :: "'m \<Rightarrow> addr \<Rightarrow> usz \<Rightarrow> 'm option"
  assumes alloc_none: "invar m \<Longrightarrow>
      need sz = 0 \<or> (\<forall>s. s + need sz \<le> limit \<longrightarrow> {s..<s + need sz} \<inter> busy m \<noteq> {}) \<Longrightarrow>
      alloc m sz = Some (0, m)"
    and alloc_some: "invar m \<Longrightarrow> 0 < need sz \<Longrightarrow>
      t + need sz \<le> limit \<Longrightarrow> {t..<t + need sz} \<inter> busy m = {} \<Longrightarrow>
      \<exists>s m'. alloc m sz = Some (block_addr s, m') \<and> invar m' \<and> s \<le> t \<and> s + need sz \<le> limit \<and>
        {s..<s + need sz} \<inter> busy m = {} \<and> busy m' = busy m \<union> {s..<s + need sz}"
    and free_some: "invar m \<Longrightarrow> s < limit \<Longrightarrow> s + need sz \<le> limit \<Longrightarrow>
      \<exists>m'. free m (block_addr s) sz = Some m' \<and> invar m' \<and> busy m' = busy m - {s..<s + need sz}"
    and block_addr_zero: "block_addr 0 = 0"
begin

lemma alloc_cases:
  assumes "invar m"
  obtains "alloc m sz = Some (0, m)"
      "\<forall>s. 0 < need sz \<longrightarrow> s + need sz \<le> limit \<longrightarrow> {s..<s + need sz} \<inter> busy m \<noteq> {}"
  | s m' where "alloc m sz = Some (block_addr s, m')" "invar m'" "0 < need sz" "s + need sz \<le> limit"
      "{s..<s + need sz} \<inter> busy m = {}" "busy m' = busy m \<union> {s..<s + need sz}"
proof (cases "need sz = 0 \<or> (\<forall>s. s + need sz \<le> limit \<longrightarrow> {s..<s + need sz} \<inter> busy m \<noteq> {})")
  case True
  then show ?thesis using alloc_none [OF assms True] that(1) by auto
next
  case False
  then obtain t where "0 < need sz" "t + need sz \<le> limit" "{t..<t + need sz} \<inter> busy m = {}" by blast
  with alloc_some [OF assms this] that(2) show ?thesis by blast
qed

lemma alloc_returns: "invar m \<Longrightarrow> \<exists>a m'. alloc m sz = Some (a, m') \<and> invar m'"
  by (metis alloc_cases)

lemma alloc_keeps_busy: "invar m \<Longrightarrow> alloc m sz = Some (a, m') \<Longrightarrow> busy m \<subseteq> busy m'"
  by (rule alloc_cases [of m sz]) auto

text \<open>Once block 0 is in use, a null result means failure and nothing else.\<close>

lemma alloc_claims:
  assumes "invar m" and "0 \<in> busy m" and "alloc m sz = Some (a, m')" and "a \<noteq> 0"
  shows "\<exists>s. a = block_addr s \<and> 0 < s \<and> 0 < need sz \<and> s + need sz \<le> limit \<and> invar m' \<and>
    {s..<s + need sz} \<inter> busy m = {} \<and> busy m' = busy m \<union> {s..<s + need sz}"
  using assms by (rule_tac alloc_cases [of m sz]) (auto intro!: gr0I simp: block_addr_zero)

lemma alloc_free_roundtrip:
  assumes "invar m" and "0 \<in> busy m" and "alloc m sz = Some (a, m')" and "a \<noteq> 0"
  shows "\<exists>m''. free m' a sz = Some m'' \<and> invar m'' \<and> busy m'' = busy m"
proof -
  from alloc_claims [OF assms] obtain s where s: "a = block_addr s" "0 < need sz"
    "s + need sz \<le> limit" "invar m'" "{s..<s + need sz} \<inter> busy m = {}"
    "busy m' = busy m \<union> {s..<s + need sz}" by blast
  then show ?thesis using free_some [of m' s sz] by auto
qed

lemma allocs_disjoint:
  assumes "invar m" and "0 \<in> busy m" and "alloc m sz1 = Some (a, m1)" and "a \<noteq> 0"
    and "alloc m1 sz2 = Some (b, m2)" and "b \<noteq> 0"
  shows "\<exists>s t. a = block_addr s \<and> b = block_addr t \<and>
    s + need sz1 \<le> limit \<and> t + need sz2 \<le> limit \<and> {s..<s + need sz1} \<inter> {t..<t + need sz2} = {}"
proof -
  from alloc_claims [OF assms(1-4)] obtain s where s: "a = block_addr s" "s + need sz1 \<le> limit"
    "invar m1" "busy m1 = busy m \<union> {s..<s + need sz1}" by blast
  from alloc_claims [OF s(3) _ assms(5,6)] s(4) assms(2) obtain t where
    "b = block_addr t" "t + need sz2 \<le> limit" "{t..<t + need sz2} \<inter> busy m1 = {}" by blast
  with s show ?thesis by blast
qed

end

definition pmman_block_addr :: "nat \<Rightarrow> addr" where
  "pmman_block_addr s = of_nat (s * 16384)"

lemma free_run_in_use:
  "free_run (pm_bits mp) s n \<longleftrightarrow> s + n \<le> 1024 \<and> {s..<s + n} \<inter> in_use mp = {}"
  by (auto simp: free_run_def in_use_def)

lemma unat_block_addr: "s < 1024 \<Longrightarrow> unat (pmman_block_addr s) = s * 16384"
  unfolding pmman_block_addr_def by (subst unat_of_nat) simp

interpretation pm: block_allocator pmman_inv in_use nblocks 1024 pmman_block_addr pmman_alloc pmman_free
proof
  fix m :: pmman_map_t and sz
  assume "pmman_inv m"
    and "nblocks sz = 0 \<or> (\<forall>s. s + nblocks sz \<le> 1024 \<longrightarrow> {s..<s + nblocks sz} \<inter> in_use m \<noteq> {})"
  then show "pmman_alloc m sz = Some (0, m)"
    using pmman_alloc_result [of m sz] by (auto simp: free_run_in_use)
next
  fix m :: pmman_map_t and sz t
  assume inv: "pmman_inv m" and need: "0 < nblocks sz"
    and t: "t + nblocks sz \<le> 1024" "{t..<t + nblocks sz} \<inter> in_use m = {}"
  then have "free_run (pm_bits m) t (nblocks sz)" by (simp add: free_run_in_use)
  with pmman_alloc_result [OF inv, of sz] need obtain s bs' where
    s: "free_run (pm_bits m) s (nblocks sz)" "\<forall>t < s. \<not> free_run (pm_bits m) t (nblocks sz)"
      "pmman_alloc m sz = Some (of_nat (s * 16384), m\<lparr>pm_bits := bs'\<rparr>)" "length bs' = 32"
      "\<forall>k<1024. used bs' k \<longleftrightarrow> (s \<le> k \<and> k < s + nblocks sz) \<or> used (pm_bits m) k"
    by (auto split: if_splits)
  then have "in_use (m\<lparr>pm_bits := bs'\<rparr>) = in_use m \<union> {s..<s + nblocks sz}"
    by (auto simp: in_use_def free_run_def)
  moreover have "s \<le> t" using s(2) \<open>free_run (pm_bits m) t (nblocks sz)\<close> by (meson linorder_not_less)
  ultimately show "\<exists>s m'. pmman_alloc m sz = Some (pmman_block_addr s, m') \<and> pmman_inv m' \<and> s \<le> t \<and>
      s + nblocks sz \<le> 1024 \<and> {s..<s + nblocks sz} \<inter> in_use m = {} \<and>
      in_use m' = in_use m \<union> {s..<s + nblocks sz}"
    using s inv by (intro exI [of _ s] exI [of _ "m\<lparr>pm_bits := bs'\<rparr>"])
      (simp add: free_run_in_use pmman_block_addr_def pmman_inv_def)
next
  fix m :: pmman_map_t and s sz
  assume inv: "pmman_inv m" and s: "s < 1024" "s + nblocks sz \<le> 1024"
  have "unat (pmman_to_block m (pmman_block_addr s)) = s"
    by (simp add: unat_pmman_to_block [OF inv] unat_block_addr [OF s(1)])
  with pmman_clear_range_used [of "pmman_to_block m (pmman_block_addr s)" "pmman_to_blocks m sz" m]
    inv s(2) show "\<exists>m'. pmman_free m (pmman_block_addr s) sz = Some m' \<and> pmman_inv m' \<and>
      in_use m' = in_use m - {s..<s + nblocks sz}"
    by (auto simp: pmman_free_def unat_pmman_to_blocks pmman_inv_def in_use_def split: if_splits)
qed (simp add: pmman_block_addr_def)


section \<open>Initialisation\<close>

lemma pmman_find_min_result:
  assumes "length xs = unat n" and "pass < n" and "\<forall>e \<in> set xs. mm_base e \<noteq> - 1"
  shows "\<exists>j. pmman_find_min xs n pass = Some (j, mm_base (xs ! unat j)) \<and>
    unat pass \<le> unat j \<and> unat j < length xs \<and>
    (\<forall>k. unat pass \<le> k \<and> k < length xs \<longrightarrow> mm_base (xs ! unat j) \<le> mm_base (xs ! k))"
proof -
  let ?P = "\<lambda>i (j, v). unat pass \<le> unat i \<and>
    (if i = pass then v = - 1 else v = mm_base (xs ! unat j) \<and> unat pass \<le> unat j \<and> unat j < unat i \<and>
      (\<forall>k. unat pass \<le> k \<and> k < unat i \<longrightarrow> v \<le> mm_base (xs ! k)))"
  have "\<exists>r. pmman_find_min xs n pass = Some r \<and> ?P n r"
    unfolding pmman_find_min_def
  proof (rule for_range_rule)
    fix i :: usz and s :: "usz \<times> u64" assume i: "i < n" and inv: "?P i s"
    obtain j v where s: "s = (j, v)" by (cases s)
    have ui: "unat i < length xs" using i assms(1) by (simp add: word_less_nat_alt)
    have max: "mm_base (xs ! unat i) < - 1"
      using assms(3) nth_mem [OF ui] by (metis word_order.not_eq_extremum)
    have ne: "i + 1 \<noteq> pass" using inv s unat_succ_less [OF i] by auto
    show "\<exists>s'. (case s of (min_index, min_val) \<Rightarrow> do { e \<leftarrow> arr_get xs i;
        if mm_base e \<ge> min_val then Some (min_index, min_val) else Some (i, mm_base e) }) = Some s' \<and>
        ?P (i + 1) s'"
    proof (cases "v \<le> mm_base (xs ! unat i)")
      case True
      with max have "i \<noteq> pass" using inv s by auto
      with True inv s ui ne show ?thesis
        by (auto simp: unat_succ_less [OF i] less_Suc_eq)
    next
      case False
      with inv s ui ne show ?thesis
        by (auto simp: unat_succ_less [OF i] less_Suc_eq split: if_splits)
    qed
  qed (use assms(2) in auto)
  then obtain j v where "pmman_find_min xs n pass = Some (j, v)" "?P n (j, v)" by auto
  with assms(1,2) show ?thesis by (auto split: if_splits)
qed

lemma pmman_sort_pass_result:
  assumes "length xs = unat n" and "pass < n" and "\<forall>e \<in> set xs. mm_base e \<noteq> - 1"
    and "\<forall>i j. i < unat pass \<longrightarrow> i < j \<longrightarrow> j < length xs \<longrightarrow> mm_base (xs ! i) \<le> mm_base (xs ! j)"
  shows "\<exists>ys. pmman_sort_pass n pass xs = Some ys \<and> mset ys = mset xs \<and>
    (\<forall>i j. i < Suc (unat pass) \<longrightarrow> i < j \<longrightarrow> j < length ys \<longrightarrow> mm_base (ys ! i) \<le> mm_base (ys ! j))"
proof -
  from pmman_find_min_result [OF assms(1-3)] obtain j where
    j: "pmman_find_min xs n pass = Some (j, mm_base (xs ! unat j))" "unat pass \<le> unat j" "unat j < length xs"
    "\<And>k. unat pass \<le> k \<Longrightarrow> k < length xs \<Longrightarrow> mm_base (xs ! unat j) \<le> mm_base (xs ! k)" by blast
  have p: "unat pass < length xs" using assms(1,2) by (simp add: word_less_nat_alt)
  let ?ys = "xs[unat j := xs ! unat pass, unat pass := xs ! unat j]"
  have "pmman_sort_pass n pass xs = Some ?ys"
    using j p by (auto simp: pmman_sort_pass_def)
  moreover have "mset ?ys = mset xs"
    using mset_swap [of "unat pass" xs "unat j"] j(3) p by simp
  moreover have "mm_base (?ys ! i) \<le> mm_base (?ys ! l)"
    if "i < Suc (unat pass)" "i < l" "l < length ?ys" for i l
  proof (cases "i = unat pass")
    case True
    with that j p show ?thesis by (auto simp: nth_list_update)
  next
    case False
    with that have "i < unat pass" by simp
    with that j(2,3) p assms(4) show ?thesis by (auto simp: nth_list_update)
  qed
  ultimately show ?thesis by blast
qed

lemma pmman_sort_result:
  assumes "length xs = unat n" and "0 < n" and "\<forall>e \<in> set xs. mm_base e \<noteq> - 1"
  shows "\<exists>ys. pmman_sort xs n = Some ys \<and> mset ys = mset xs \<and> sorted (map mm_base ys)"
proof -
  let ?P = "\<lambda>p ys. mset ys = mset xs \<and>
    (\<forall>i j. i < unat p \<longrightarrow> i < j \<longrightarrow> j < length ys \<longrightarrow> mm_base (ys ! i) \<le> mm_base (ys ! j))"
  have n: "unat (n - 1) = unat n - 1" using assms(2) by (simp add: unat_minus_one word_gt_0)
  have "\<exists>ys. pmman_sort xs n = Some ys \<and> ?P (n - 1) ys"
    unfolding pmman_sort_def
  proof (rule for_range_rule)
    fix p ys assume p: "p < n - 1" and inv: "?P p ys"
    then have "length ys = length xs" "set ys = set xs"
      by (metis size_mset, metis set_mset_mset)
    moreover have "p < n" using p n by (simp add: word_less_nat_alt)
    ultimately show "\<exists>ys'. pmman_sort_pass n p ys = Some ys' \<and> ?P (p + 1) ys'"
      using pmman_sort_pass_result [of ys n p] inv assms(1,3) unat_succ_less [OF p] by simp
  qed auto
  then obtain ys where ys: "pmman_sort xs n = Some ys" "?P (n - 1) ys" by blast
  then have "length ys = unat n" using assms(1) by (metis size_mset)
  then have "sorted (map mm_base ys)"
    using ys(2) n by (auto simp: sorted_iff_nth_Suc)
  with ys show ?thesis by blast
qed

text \<open>The blocks \<^verbatim>\<open>pmman_initialize\<close> clears for a memory map entry, as plain numbers.\<close>

definition entry_blocks :: "memmap_t \<Rightarrow> nat set" where
  "entry_blocks e =
     (let b = unat (mm_base e); l = unat (mm_len e); l' = (if b + l \<ge> 16777216 then 16777216 - b else l)
      in if mm_type e = 1 \<and> b < 16777216 then {b div 16384 ..< b div 16384 + (l' + 16383) div 16384}
         else {})"

lemma PMMAN_SIZE_eq: "(ucast PMMAN_SIZE :: u64) = 16777216"
  by (simp add: PMMAN_SIZE_def PMMAN_BITS_def PMMAN_BLOCK_SIZE_def)

lemma entry_fits:
  assumes "(b::nat) + l \<le> 16777216"
  shows "b div 16384 + (l + 16383) div 16384 \<le> 1024"
proof -
  have "b div 16384 * 16384 \<le> b" "(l + 16383) div 16384 * 16384 \<le> l + 16383" by simp_all
  with assms show ?thesis by linarith
qed

lemma pmman_add_entry_result:
  assumes inv: "pmman_inv mp" and nowrap: "unat (mm_base e) + unat (mm_len e) < 2 ^ 64"
  shows "\<exists>mp'. pmman_add_entry e mp = Some mp' \<and> pmman_inv mp' \<and> in_use mp' = in_use mp - entry_blocks e"
proof (cases "mm_type e = 1 \<and> unat (mm_base e) < 16777216")
  case False
  then show ?thesis using inv
    by (auto simp: pmman_add_entry_def entry_blocks_def MEMMAP_USABLE_def PMMAN_SIZE_eq word_le_nat_alt Let_def)
next
  case True
  define b l where "b = unat (mm_base e)" and "l = unat (mm_len e)"
  define len where "len = (if mm_base e + mm_len e \<ge> 16777216
    then mm_len e - (mm_base e + mm_len e - 16777216) else mm_len e)"
  define l' where "l' = (if b + l \<ge> 16777216 then 16777216 - b else l)"
  have sum: "unat (mm_base e + mm_len e) = b + l"
    using nowrap by (simp add: unat_word_ariths b_def l_def)
  have "unat len = l'"
  proof (cases "b + l \<ge> 16777216")
    case big: True
    have "len = 16777216 - mm_base e"
      using big sum by (simp add: len_def word_le_nat_alt)
    then show ?thesis
      using big True by (simp add: l'_def b_def unat_sub word_le_nat_alt)
  next
    case False
    then show ?thesis using sum by (simp add: len_def l'_def word_le_nat_alt l_def)
  qed
  have bl: "b + l' \<le> 16777216" "b < 16777216" using True by (auto simp: l'_def b_def)
  have ub: "unat (ucast (mm_base e) :: u32) = b"
    using bl by (simp add: unat_ucast_64_32 b_def)
  have ul: "unat (ucast len :: u32) = l'"
    using bl \<open>unat len = l'\<close> by (simp add: unat_ucast_64_32)
  have blk: "unat (pmman_to_block mp (ucast (mm_base e))) = b div 16384"
    by (simp add: unat_pmman_to_block [OF inv] ub)
  have blks: "unat (pmman_to_blocks mp (ucast len)) = (l' + 16383) div 16384"
    using bl by (simp add: unat_pmman_to_blocks [OF inv] nblocks_def ul)
  have fit: "b div 16384 + (l' + 16383) div 16384 \<le> 1024" using bl(1) by (rule entry_fits)
  have "entry_blocks e = {b div 16384 ..< b div 16384 + (l' + 16383) div 16384}"
    using True by (simp add: entry_blocks_def b_def l'_def l_def Let_def)
  moreover have "pmman_add_entry e mp =
      pmman_clear_range mp (pmman_to_block mp (ucast (mm_base e))) (pmman_to_blocks mp (ucast len))"
    using True by (simp add: pmman_add_entry_def MEMMAP_USABLE_def PMMAN_SIZE_eq word_le_nat_alt len_def Let_def)
  moreover have "length (pm_bits mp) = 32" using inv by (simp add: pmman_inv_def)
  ultimately show ?thesis
    using pmman_clear_range_used [of "pmman_to_block mp (ucast (mm_base e))" "pmman_to_blocks mp (ucast len)" mp]
      fit inv by (auto simp: blk blks in_use_def pmman_inv_def split: if_splits)
qed

lemma used_full:
  assumes "k < 1024"
  shows "used (replicate 32 0xFFFFFFFF) k"
proof -
  have "replicate 32 (0xFFFFFFFF :: u32) ! (k div 32) = mask 32"
    using assms by (subst nth_replicate) (simp_all add: mask_eq_exp_minus_1)
  then show ?thesis by (simp only: used_def bit_mask_iff) simp
qed

lemma pmman_initialize_result:
  assumes "length mm = unat cnt" and "0 < cnt" and "\<forall>e \<in> set mm. mm_base e \<noteq> - 1"
    and nowrap: "\<forall>e \<in> set mm. unat (mm_base e) + unat (mm_len e) < 2 ^ 64"
  shows "\<exists>mp mm'. pmman_initialize mm cnt = Some (mp, mm') \<and> pmman_inv mp \<and>
    in_use mp = {..<1024} - (\<Union>e \<in> set mm. entry_blocks e) \<and>
    mset mm' = mset mm \<and> sorted (map mm_base mm')"
proof -
  from pmman_sort_result [OF assms(1-3)] obtain ys where
    ys: "pmman_sort mm cnt = Some ys" "mset ys = mset mm" "sorted (map mm_base ys)" by blast
  then have len: "length ys = unat cnt" and set: "set ys = set mm"
    using assms(1) by (metis size_mset, metis set_mset_mset)
  let ?mp = "\<lparr>pm_block_size = PMMAN_BLOCK_SIZE_SHIFT, pm_base = 0,
    pm_bits = replicate 32 0xFFFFFFFF\<rparr> :: pmman_map_t"
  let ?body = "\<lambda>i mp. do { e \<leftarrow> arr_get ys i; pmman_add_entry e mp }"
  let ?P = "\<lambda>i mp. pmman_inv mp \<and> in_use mp = {..<1024} - (\<Union>e \<in> set (take (unat i) ys). entry_blocks e)"
  have init: "?P 0 ?mp"
    by (auto simp: pmman_inv_def in_use_def used_full)
  have "\<exists>mp. for_range 0 cnt ?body ?mp = Some mp \<and> ?P cnt mp"
  proof (rule for_range_rule)
    fix i mp assume i: "i < cnt" and inv: "?P i mp"
    then have ui: "unat i < length ys" using len by (simp add: word_less_nat_alt)
    with set nowrap have "unat (mm_base (ys ! unat i)) + unat (mm_len (ys ! unat i)) < 2 ^ 64"
      by (metis nth_mem)
    with inv ui show "\<exists>mp'. ?body i mp = Some mp' \<and> ?P (i + 1) mp'"
      using pmman_add_entry_result [of mp "ys ! unat i"]
      by (auto simp: unat_succ_less [OF i] take_Suc_conv_app_nth)
  qed (use init in auto)
  with ys len set show ?thesis by (auto simp: pmman_initialize_def)
qed

section \<open>Properties of the physical memory manager\<close>

definition fits :: "pmman_map_t \<Rightarrow> usz \<Rightarrow> nat \<Rightarrow> bool" where
  "fits mp sz s \<longleftrightarrow> 0 < nblocks sz \<and> s + nblocks sz \<le> 1024 \<and> {s..<s + nblocks sz} \<inter> in_use mp = {}"

text \<open>A map with blocks 0 and 1 in use, as the witnesses below need one.\<close>

definition sample_map :: pmman_map_t where
  "sample_map = \<lparr>pm_block_size = 14, pm_base = 0, pm_bits = 3 # replicate 31 0\<rparr>"

lemma sample_inv: "pmman_inv sample_map"
  by (simp add: pmman_inv_def PMMAN_BLOCK_SIZE_SHIFT_def sample_map_def)

lemma sample_in_use: "in_use sample_map = {0, 1}"
proof -
  have "used (3 # replicate 31 0) k \<longleftrightarrow> k < 2" if "k < 1024" for k
  proof (cases "k div 32")
    case 0
    then have "used (3 # replicate 31 0) k \<longleftrightarrow> bit (mask 2 :: u32) k"
      by (simp add: used_def mask_eq_exp_minus_1 div_eq_0_iff)
    with 0 show ?thesis by (auto simp: bit_mask_iff div_eq_0_iff)
  next
    case (Suc j)
    with that have "j < 31" "\<not> k < 2" by auto
    with Suc show ?thesis by (simp only: used_def nth_Cons_Suc nth_replicate) simp
  qed
  then show ?thesis by (auto simp only: in_use_def pmman_map_t.simps sample_map_def)
qed

lemma sample_allocs:
  "\<exists>mp1 mp2. pmman_alloc sample_map 20000 = Some (32768, mp1) \<and> pmman_alloc mp1 20000 = Some (65536, mp2)"
proof -
  have n: "nblocks 20000 = 2" by (simp add: nblocks_def)
  from pm.alloc_some [OF sample_inv, of 20000 2] obtain s mp1 where
    1: "pmman_alloc sample_map 20000 = Some (pmman_block_addr s, mp1)" "pmman_inv mp1" "s \<le> 2"
    "{s..<s + 2} \<inter> {0, 1} = {}" "in_use mp1 = {0, 1} \<union> {s..<s + 2}"
    by (auto simp: n sample_in_use)
  then have s: "s = 2" by (cases s; cases "s - 1") auto
  then have "in_use mp1 = {..<4}" using 1(5) by auto
  moreover have "{4..<4 + 2} \<inter> {..<4::nat} = {}" by auto
  ultimately obtain t mp2 where
    2: "pmman_alloc mp1 20000 = Some (pmman_block_addr t, mp2)" "t \<le> 4" "{t..<t + 2} \<inter> {..<4} = {}"
    using pm.alloc_some [OF 1(2), of 20000 4] by (auto simp: n)
  have "\<not> t < 4"
  proof
    assume "t < 4"
    then have "t \<in> {t..<t + 2} \<inter> {..<4}" by simp
    with 2(3) show False by blast
  qed
  with 2(2) have "t = 4" by simp
  with 1 2 s show ?thesis by (auto simp: pmman_block_addr_def)
qed

text \<open>
  C8  \<^verbatim>\<open>pmman_alloc\<close> always returns and is first fit: if some run of free blocks is long enough for the
  rounded request, it returns the address of the lowest such run and marks exactly that run;
  otherwise it returns null and leaves the map alone.
\<close>

theorem pmman_alloc_first_fit:
  assumes "pmman_inv mp"
  shows "if \<exists>s. fits mp sz s
    then \<exists>mp'. pmman_alloc mp sz = Some (pmman_block_addr (LEAST s. fits mp sz s), mp') \<and>
      pmman_inv mp' \<and>
      in_use mp' = in_use mp \<union> {(LEAST s. fits mp sz s)..<(LEAST s. fits mp sz s) + nblocks sz}
    else pmman_alloc mp sz = Some (0, mp)"
proof (cases "\<exists>s. fits mp sz s")
  case True
  define t where "t = (LEAST s. fits mp sz s)"
  from True have t: "fits mp sz t" unfolding t_def by (rule LeastI_ex)
  then obtain s mp' where s: "pmman_alloc mp sz = Some (pmman_block_addr s, mp')" "pmman_inv mp'" "s \<le> t"
    "s + nblocks sz \<le> 1024" "{s..<s + nblocks sz} \<inter> in_use mp = {}"
    "in_use mp' = in_use mp \<union> {s..<s + nblocks sz}"
    using pm.alloc_some [OF assms, of sz t] by (auto simp: fits_def)
  then have "fits mp sz s" using t by (simp add: fits_def)
  then have "t \<le> s" unfolding t_def by (rule Least_le)
  with s True show ?thesis by (simp flip: t_def)
next
  case False
  then show ?thesis using pm.alloc_none [OF assms, of sz] by (auto simp: fits_def)
qed

theorem pmman_alloc_first_fit_witness:
  "pmman_inv sample_map \<and> (\<exists>mp'. pmman_alloc sample_map 20000 = Some (32768, mp'))"
proof -
  have "fits sample_map 20000 s \<longleftrightarrow> 2 \<le> s \<and> s \<le> 1022" for s
    by (auto simp: fits_def nblocks_def sample_in_use)
  note fits_iff = this
  then have "(LEAST s. fits sample_map 20000 s) = 2"
    by (intro Least_equality) (simp_all only: fits_iff, simp)
  moreover have "\<exists>s. fits sample_map 20000 s"
    by (rule exI [of _ 2]) (simp only: fits_iff, simp)
  ultimately show ?thesis
    using pmman_alloc_first_fit [OF sample_inv, of 20000] sample_inv
    by (auto simp: pmman_block_addr_def)
qed

text \<open>
  C27  Freeing what was just allocated restores the set of blocks in use (block 0, which a null
  pointer would name, being reserved).
\<close>

theorem pmman_free_undoes_alloc:
  assumes "pmman_inv mp" and "0 \<in> in_use mp" and "pmman_alloc mp sz = Some (a, mp')" and "a \<noteq> 0"
  shows "\<exists>mp''. pmman_free mp' a sz = Some mp'' \<and> pmman_inv mp'' \<and> in_use mp'' = in_use mp"
  by (rule pm.alloc_free_roundtrip [OF assms])

theorem pmman_free_undoes_alloc_witness:
  "\<exists>mp1 mp2. pmman_alloc sample_map 20000 = Some (32768, mp1) \<and>
     pmman_free mp1 32768 20000 = Some mp2 \<and> in_use mp2 = in_use sample_map"
proof -
  from sample_allocs obtain mp1 where a: "pmman_alloc sample_map 20000 = Some (32768, mp1)" by blast
  have "0 \<in> in_use sample_map" by (simp add: sample_in_use)
  from pmman_free_undoes_alloc [OF sample_inv this a] a show ?thesis by auto
qed

text \<open>
  Runs of the allocator.  The second component of the state is the list of the live allocations with their sizes;
  a block is freed with the size it was allocated with, as \<^verbatim>\<open>proc_exit\<close> does.
\<close>

datatype pm_event = PmAlloc usz | PmFree addr usz

inductive pm_step :: "pmman_map_t \<times> (addr \<times> usz) list \<Rightarrow> pm_event \<Rightarrow> pmman_map_t \<times> (addr \<times> usz) list \<Rightarrow> bool" where
  alloc: "pmman_alloc mp sz = Some (p, mp') \<Longrightarrow>
    pm_step (mp, live) (PmAlloc sz) (mp', if p = 0 then live else (p, sz) # live)"
| free: "(p, sz) \<in> set live \<Longrightarrow> pmman_free mp p sz = Some mp' \<Longrightarrow>
    pm_step (mp, live) (PmFree p sz) (mp', remove1 (p, sz) live)"

inductive pm_run :: "pmman_map_t \<times> (addr \<times> usz) list \<Rightarrow> pm_event list \<Rightarrow> pmman_map_t \<times> (addr \<times> usz) list \<Rightarrow> bool" for x0 where
  start: "pm_run x0 [] x0"
| more: "pm_run x0 evs x \<Longrightarrow> pm_step x ev x' \<Longrightarrow> pm_run x0 (evs @ [ev]) x'"

definition live_blocks :: "addr \<times> usz \<Rightarrow> nat set" where
  "live_blocks x = {unat (fst x) div 16384 ..< unat (fst x) div 16384 + nblocks (snd x)}"

text \<open>An allocation begins at a block and lies in blocks that were free at the start.\<close>

definition live_ok :: "nat set \<Rightarrow> addr \<times> usz \<Rightarrow> bool" where
  "live_ok B x \<longleftrightarrow> (\<exists>t. fst x = pmman_block_addr t \<and> 0 < nblocks (snd x) \<and> t + nblocks (snd x) \<le> 1024 \<and>
     live_blocks x = {t..<t + nblocks (snd x)} \<and> live_blocks x \<inter> B = {})"

definition pm_live :: "nat set \<Rightarrow> pmman_map_t \<times> (addr \<times> usz) list \<Rightarrow> bool" where
  "pm_live B = (\<lambda>(mp, live). pmman_inv mp \<and> in_use mp = B \<union> (\<Union>x \<in> set live. live_blocks x) \<and> distinct live \<and>
     (\<forall>x \<in> set live. live_ok B x) \<and>
     (\<forall>x \<in> set live. \<forall>y \<in> set live. x \<noteq> y \<longrightarrow> live_blocks x \<inter> live_blocks y = {}))"

lemma live_blocks_addr: "t < 1024 \<Longrightarrow> live_blocks (pmman_block_addr t, sz) = {t..<t + nblocks sz}"
  by (simp add: live_blocks_def unat_block_addr)

lemma pm_step_alloc:
  assumes live: "pm_live B (mp, live)" and zero: "0 \<in> B" and al: "pmman_alloc mp sz = Some (p, mp')"
  shows "pm_live B (mp', if p = 0 then live else (p, sz) # live)"
proof (cases "p = 0")
  case True
  have "pmman_inv mp" using live by (simp add: pm_live_def)
  then have "mp' = mp"
  proof (rule pm.alloc_cases [of mp sz])
    fix t m assume t: "pmman_alloc mp sz = Some (pmman_block_addr t, m)" "0 < nblocks sz" "t + nblocks sz \<le> 1024"
      "{t..<t + nblocks sz} \<inter> in_use mp = {}"
    then have "unat (pmman_block_addr t) = 0" "t < 1024" using al True by auto
    then have "t = 0" by (simp add: unat_block_addr)
    moreover have "0 \<in> in_use mp" using live zero by (simp add: pm_live_def)
    ultimately show "mp' = mp" using t(2,4) by auto
  qed (use al in simp)
  with True live show ?thesis by simp
next
  case False
  let ?x = "(p, sz)"
  have use: "in_use mp = B \<union> (\<Union>x \<in> set live. live_blocks x)" and inv: "pmman_inv mp"
    using live by (simp_all add: pm_live_def)
  then have "0 \<in> in_use mp" using zero by simp
  from pm.alloc_claims [OF inv this al False] obtain t where
    t: "p = pmman_block_addr t" "0 < nblocks sz" "t + nblocks sz \<le> 1024" "pmman_inv mp'"
      "{t..<t + nblocks sz} \<inter> in_use mp = {}" "in_use mp' = in_use mp \<union> {t..<t + nblocks sz}" by blast
  have x: "live_blocks ?x = {t..<t + nblocks sz}" using t(1-3) by (simp add: live_blocks_addr)
  have fresh: "live_blocks ?x \<inter> B = {}" "\<And>y. y \<in> set live \<Longrightarrow> live_blocks ?x \<inter> live_blocks y = {}"
    using t(5) unfolding x use by blast+
  have "t \<in> live_blocks ?x" using t(2) by (simp add: x)
  then have new: "?x \<notin> set live" using fresh(2) by blast
  have "live_ok B ?x" unfolding live_ok_def using t(1-3) x fresh(1) by (intro exI [of _ t]) simp
  moreover have "in_use mp' = B \<union> (\<Union>x \<in> set (?x # live). live_blocks x)" using t(6) x use by auto
  moreover have "live_blocks a \<inter> live_blocks c = {}" if "a \<in> set (?x # live)" "c \<in> set (?x # live)" "a \<noteq> c" for a c
  proof -
    from that consider "a = ?x" "c \<in> set live" | "c = ?x" "a \<in> set live" | "a \<in> set live" "c \<in> set live" by auto
    then show ?thesis
    proof cases
      case 2
      with fresh(2) show ?thesis by blast
    next
      case 3
      with that(3) live show ?thesis by (simp add: pm_live_def)
    qed (use fresh(2) in blast)
  qed
  ultimately show ?thesis using False live new t(4) unfolding pm_live_def by simp
qed

lemma pm_step_free:
  assumes live: "pm_live B (mp, live)" and x: "(p, sz) \<in> set live"
  shows "\<exists>mp'. pmman_free mp p sz = Some mp' \<and> pm_live B (mp', remove1 (p, sz) live)"
proof -
  let ?x = "(p, sz)"
  have inv: "pmman_inv mp" "in_use mp = B \<union> (\<Union>x \<in> set live. live_blocks x)" "distinct live"
    and ok: "\<forall>x \<in> set live. live_ok B x"
    and dis: "\<forall>x \<in> set live. \<forall>y \<in> set live. x \<noteq> y \<longrightarrow> live_blocks x \<inter> live_blocks y = {}"
    using live by (simp_all add: pm_live_def)
  from ok x obtain t where t: "p = pmman_block_addr t" "0 < nblocks sz" "t + nblocks sz \<le> 1024"
    "live_blocks ?x = {t..<t + nblocks sz}" "live_blocks ?x \<inter> B = {}" by (fastforce simp: live_ok_def)
  have "t < 1024" using t(2,3) by simp
  from pm.free_some [OF inv(1) this t(3)] obtain mp' where
    mp': "pmman_free mp p sz = Some mp'" "pmman_inv mp'" "in_use mp' = in_use mp - live_blocks ?x"
    unfolding t(4) unfolding t(1) by blast
  have rest: "set (remove1 ?x live) = set live - {?x}" using inv(3) by simp
  have "in_use mp' = B \<union> (\<Union>y \<in> set live - {?x}. live_blocks y)"
    using dis x t(5) unfolding mp'(3) inv(2) by blast
  then have "pm_live B (mp', remove1 ?x live)"
    using inv(3) mp'(2) ok dis unfolding pm_live_def prod.case rest by (auto simp: distinct_remove1)
  with mp'(1) show ?thesis by blast
qed

lemma pm_run_live:
  assumes "pm_run (m0, []) evs x" and "pmman_inv m0" and "0 \<in> in_use m0"
  shows "pm_live (in_use m0) x"
  using assms(1)
proof induction
  case start
  from assms(2) show ?case by (simp add: pm_live_def)
next
  case (more evs x ev x')
  from more.hyps(2) show ?case
  proof cases
    case (alloc mp sz p mp' live)
    with pm_step_alloc [of "in_use m0" mp live sz p mp'] more.IH assms(3) show ?thesis by simp
  next
    case (free p sz live mp mp')
    with pm_step_free [of "in_use m0" mp live p sz] more.IH show ?thesis by auto
  qed
qed

text \<open>
  C9 No two live allocations share a byte.  After any sequence of allocations, of any sizes, and of releases of
  live allocations with their sizes, from a map whose block 0 is in use: the bytes of any two live allocations
  are disjoint and none lies in a block that was in use before; the blocks in use are exactly those that were and
  those of the live allocations; the next allocation returns and so does the release of every live one.
\<close>

theorem pmman_allocs_disjoint:
  assumes "pmman_inv m0" and "0 \<in> in_use m0" and "pm_run (m0, []) evs (mp, live)"
  shows "(\<forall>(p, sz1) \<in> set live. \<forall>(q, sz2) \<in> set live. (p, sz1) \<noteq> (q, sz2) \<longrightarrow>
      unat p + unat sz1 \<le> unat q \<or> unat q + unat sz2 \<le> unat p) \<and> distinct live \<and>
    (\<forall>(p, sz) \<in> set live. \<forall>x. unat p \<le> x \<and> x < unat p + unat sz \<longrightarrow> x div 16384 \<notin> in_use m0) \<and>
    in_use mp = in_use m0 \<union> (\<Union>x \<in> set live. live_blocks x) \<and>
    pmman_alloc mp sz \<noteq> None \<and> (\<forall>(p, sz) \<in> set live. pmman_free mp p sz \<noteq> None)"
proof -
  have live: "pm_live (in_use m0) (mp, live)" using pm_run_live [OF assms(3,1,2)] .
  have bytes: "unat p mod 16384 = 0 \<and> unat sz \<le> nblocks sz * 16384 \<and> 0 < nblocks sz"
    if "(p, sz) \<in> set live" for p sz
  proof -
    from live that obtain t where t: "p = pmman_block_addr t" "0 < nblocks sz" "t + nblocks sz \<le> 1024"
      by (fastforce simp: pm_live_def live_ok_def)
    then have "unat p = t * 16384" by (simp add: unat_block_addr)
    moreover have "nblocks sz = (unat sz + 16383) div 16384" using t(2) by (auto simp: nblocks_def split: if_splits)
    then have "unat sz \<le> nblocks sz * 16384" by simp
    ultimately show ?thesis using t(2) by simp
  qed
  have "unat p + unat sz1 \<le> unat q \<or> unat q + unat sz2 \<le> unat p"
    if "(p, sz1) \<in> set live" "(q, sz2) \<in> set live" "(p, sz1) \<noteq> (q, sz2)" for p q sz1 sz2
  proof -
    have "live_blocks (p, sz1) \<inter> live_blocks (q, sz2) = {}" using live that by (simp add: pm_live_def)
    moreover note bytes [OF that(1)] bytes [OF that(2)]
    ultimately have "unat p div 16384 + nblocks sz1 \<le> unat q div 16384 \<or> unat q div 16384 + nblocks sz2 \<le> unat p div 16384"
      unfolding live_blocks_def fst_conv snd_conv by (intro intervals_disjoint) simp_all
    moreover have "unat p = unat p div 16384 * 16384" "unat q = unat q div 16384 * 16384"
      using bytes [OF that(1)] bytes [OF that(2)] by auto
    ultimately show ?thesis using bytes [OF that(1)] bytes [OF that(2)] by linarith
  qed
  moreover have "x div 16384 \<notin> in_use m0" if "(p, sz) \<in> set live" "unat p \<le> x" "x < unat p + unat sz" for p sz x
  proof -
    have "unat p = unat p div 16384 * 16384" using bytes [OF that(1)] by auto
    then have "x < unat p div 16384 * 16384 + nblocks sz * 16384" using bytes [OF that(1)] that(3) by linarith
    then have "x < (unat p div 16384 + nblocks sz) * 16384" by (simp add: add_mult_distrib)
    then have "x div 16384 < unat p div 16384 + nblocks sz" by (simp add: div_less_iff_less_mult)
    then have "x div 16384 \<in> live_blocks (p, sz)" using that(2) by (simp add: live_blocks_def div_le_mono)
    moreover have "live_blocks (p, sz) \<inter> in_use m0 = {}" using live that(1) by (fastforce simp: pm_live_def live_ok_def)
    ultimately show ?thesis by blast
  qed
  moreover have "pmman_alloc mp sz \<noteq> None" using pm.alloc_returns [of mp sz] live by (auto simp: pm_live_def)
  moreover have "pmman_free mp p sz \<noteq> None" if "(p, sz) \<in> set live" for p sz
    using pm_step_free [OF live that] by auto
  moreover have "in_use mp = in_use m0 \<union> (\<Union>x \<in> set live. live_blocks x)" "distinct live"
    using live by (simp_all add: pm_live_def)
  ultimately show ?thesis by auto
qed

theorem pmman_allocs_disjoint_witness:
  "\<exists>mp. pm_run (sample_map, []) [PmAlloc 20000, PmAlloc 20000] (mp, [(65536, 20000), (32768, 20000)]) \<and>
     unat (32768 :: addr) + unat (20000 :: usz) \<le> unat (65536 :: addr) \<and> pmman_free mp 32768 20000 \<noteq> None"
proof -
  from sample_allocs obtain mp1 mp2 where
    a: "pmman_alloc sample_map 20000 = Some (32768, mp1)" "pmman_alloc mp1 20000 = Some (65536, mp2)"
    by blast
  have "pm_run (sample_map, []) ([] @ [PmAlloc 20000]) (mp1, if (32768 :: addr) = 0 then [] else [(32768, 20000)])"
    by (rule pm_run.more [OF pm_run.start pm_step.alloc [OF a(1)]])
  from pm_run.more [OF this pm_step.alloc [OF a(2)]] have
    run: "pm_run (sample_map, []) [PmAlloc 20000, PmAlloc 20000] (mp2, [(65536, 20000), (32768, 20000)])" by simp
  have "0 \<in> in_use sample_map" by (simp add: sample_in_use)
  from pmman_allocs_disjoint [OF sample_inv this run] run show ?thesis by auto
qed

text \<open>
  C28  For a non-empty BIOS memory map none of whose entries wraps around or has the base \<open>2\<^sup>6\<^sup>4 - 1\<close>,
  \<^verbatim>\<open>pmman_initialize\<close> returns, sorts the map by base address in place, and leaves free, for every usable entry
  that begins below 16 MiB, as many blocks as its length there fills, rounded up, from the block of its base
  on, and no others.  These are not always the blocks the entry touches: one that does not begin at a block
  boundary may reach into one block more, which stays in use, and its first and last blocks may be usable in part
  only.  No access leaves the bitmap or the map.
\<close>

theorem pmman_initialize_correct:
  assumes "length mm = unat cnt" and "0 < cnt" and "\<forall>e \<in> set mm. mm_base e \<noteq> - 1"
    and "\<forall>e \<in> set mm. unat (mm_base e) + unat (mm_len e) < 2 ^ 64"
  shows "\<exists>mp mm'. pmman_initialize mm cnt = Some (mp, mm') \<and> pmman_inv mp \<and>
    in_use mp = {..<1024} - (\<Union>e \<in> set mm. entry_blocks e) \<and>
    mset mm' = mset mm \<and> sorted (map mm_base mm')"
  by (rule pmman_initialize_result [OF assms])

text \<open>The memory map of a PC with 639 KiB of conventional memory and its reserved EBDA.\<close>

definition sample_memmap :: "memmap_t list" where
  "sample_memmap =
     [\<lparr>mm_base = 0x9FC00, mm_len = 0x400, mm_type = MEMMAP_RESERVED, mm_attribs = 0\<rparr>,
      \<lparr>mm_base = 0, mm_len = 0x9FC00, mm_type = MEMMAP_USABLE, mm_attribs = 0\<rparr>]"

lemmas sample_memmap_simps = sample_memmap_def MEMMAP_RESERVED_def MEMMAP_USABLE_def

theorem pmman_initialize_correct_witness:
  "\<exists>mp mm'. pmman_initialize sample_memmap 2 = Some (mp, mm') \<and> in_use mp = {40..<1024}"
proof -
  have "\<exists>mp mm'. pmman_initialize sample_memmap 2 = Some (mp, mm') \<and> pmman_inv mp \<and>
    in_use mp = {..<1024} - (\<Union>e \<in> set sample_memmap. entry_blocks e) \<and>
    mset mm' = mset sample_memmap \<and> sorted (map mm_base mm')"
    by (rule pmman_initialize_correct) (simp_all add: sample_memmap_simps)
  moreover have "(\<Union>e \<in> set sample_memmap. entry_blocks e) = {..<40}"
    by (auto simp: sample_memmap_simps entry_blocks_def)
  ultimately show ?thesis by (auto simp: atLeastLessThan_def lessThan_def atLeast_def)
qed

text \<open>
  The start of a usable entry is rounded down and its length up to whole blocks, so memory the
  BIOS reserves becomes allocatable: with 639 KiB of usable memory below a reserved EBDA at
  \<open>0x9FC00\<close>, block 39, which holds the EBDA, is free after initialisation.
\<close>

lemma pmman_initialize_frees_reserved:
  "\<exists>mp mm'. pmman_initialize sample_memmap 2 = Some (mp, mm') \<and>
     unat (mm_base (hd sample_memmap)) div 16384 = 39 \<and> mm_type (hd sample_memmap) = MEMMAP_RESERVED \<and>
     39 \<notin> in_use mp"
proof -
  have "\<exists>mp mm'. pmman_initialize sample_memmap 2 = Some (mp, mm') \<and> pmman_inv mp \<and>
    in_use mp = {..<1024} - (\<Union>e \<in> set sample_memmap. entry_blocks e) \<and>
    mset mm' = mset sample_memmap \<and> sorted (map mm_base mm')"
    by (rule pmman_initialize_result) (simp_all add: sample_memmap_simps)
  then show ?thesis by (auto simp: sample_memmap_simps entry_blocks_def)
qed

text \<open>
  With an empty memory map the pass counter of the sort wraps around and the second pass swaps
  entries that do not exist.
\<close>

lemma pmman_initialize_empty_map: "pmman_initialize [] 0 = None"
proof -
  have "pmman_sort [] 0 = None"
    unfolding pmman_sort_def
    by (simp add: for_range.simps [of 0] for_range.simps [of 1]
        pmman_sort_pass_def pmman_find_min_def arr_get_def word_less_nat_alt)
  then show ?thesis by (simp add: pmman_initialize_def)
qed

end
