(* ===== verification/Proc.thy ===== *)
theory Proc
  imports Pmman Spinlock
begin

text \<open>
  The process scheduler: \<^verbatim>\<open>kernel/proc.h\<close>, \<^verbatim>\<open>kernel/proc.c\<close>, the context switch of
  \<^verbatim>\<open>kernel/x86/proc.asm\<close>, and the tick counter of \<^verbatim>\<open>kernel/drivers/pit.c\<close>.

  Process structures live in a heap indexed by their address; the queues are the linked lists of
  the code, with its pointers to pointers as the datatype \<open>proc_slot\<close>.  The two loops of
  \<^verbatim>\<open>proc_schedule\<close> follow pointers and are partial functions.  The assembly routines run on a
  register file and a stack of double words.  The local variable \<^verbatim>\<open>flags\<close> of a function that is
  inside the scheduler lives on the stack of the process that called it, so it is kept per stack
  owner: when \<^verbatim>\<open>proc_schedule\<close> switches, the \<^verbatim>\<open>proc_release\<close> that runs next is the one of the process
  switched to, with the flags of its own frame.

  The lemmas relate the linked lists to HOL lists, show that \<^verbatim>\<open>proc_schedule\<close> implements a scheduler
  on lists, and that no operation loses a process but one
  whose sleep is over at once.
\<close>

section \<open>State\<close>

definition PROC_ACTIVE :: u32 where "PROC_ACTIVE = 0"
definition PROC_READY :: u32 where "PROC_READY = 1"
definition PROC_SLEEP :: u32 where "PROC_SLEEP = 2"
definition PROC_IDLE :: u32 where "PROC_IDLE = 3"

record proc_t =
  p_sp :: addr
  p_entry :: addr
  p_next :: addr
  p_time_end :: u32
  p_name :: addr
  p_state :: u32

record cpu_t =
  c_ebx :: u32
  c_esi :: u32
  c_edi :: u32
  c_ebp :: u32
  c_esp :: addr
  c_eflags :: u32
  c_eip :: addr

record sched_t =
  procs :: "addr \<Rightarrow> proc_t"
  stack :: "addr \<Rightarrow> u32"
  cpu :: cpu_t
  proc_current :: addr
  proc_idle :: addr
  ready_q :: addr
  blocked_q :: addr
  waiting_q :: addr
  sched_lock :: u8
  pit_systime_msec :: u32
  pmman_kernel_map :: pmman_map_t
  stack_owner :: addr
  frame_flags :: "addr \<Rightarrow> u32"

definition PROC_SIZE :: u32 where "PROC_SIZE = KB 4"

abbreviation upd_proc :: "addr \<Rightarrow> (proc_t \<Rightarrow> proc_t) \<Rightarrow> sched_t \<Rightarrow> sched_t" where
  "upd_proc p f s \<equiv> s\<lparr>procs := (procs s)(p := f (procs s p))\<rparr>"

abbreviation upd_cpu :: "(cpu_t \<Rightarrow> cpu_t) \<Rightarrow> sched_t \<Rightarrow> sched_t" where
  "upd_cpu f s \<equiv> s\<lparr>cpu := f (cpu s)\<rparr>"

section \<open>The lock and the tick counter\<close>

definition EFLAGS_IF :: u32 where "EFLAGS_IF = 0x0200"

text \<open>The flag instructions of \<^verbatim>\<open>libk/asm.h\<close>.\<close>

definition getf :: "cpu_t \<Rightarrow> u32" where
  "getf c = c_eflags c"

definition setf :: "u32 \<Rightarrow> cpu_t \<Rightarrow> cpu_t" where
  "setf flags c = c\<lparr>c_eflags := flags\<rparr>"

definition cli :: "cpu_t \<Rightarrow> cpu_t" where
  "cli c = c\<lparr>c_eflags := c_eflags c AND NOT EFLAGS_IF\<rparr>"

definition sti :: "cpu_t \<Rightarrow> cpu_t" where
  "sti c = c\<lparr>c_eflags := c_eflags c OR EFLAGS_IF\<rparr>"

lemma interrupt_flag [simp]: "getf (cli c) AND EFLAGS_IF = 0" "getf (sti c) AND EFLAGS_IF = EFLAGS_IF" "getf (setf flags c) = flags"
  by (simp_all add: getf_def cli_def sti_def setf_def and.assoc bit.conj_disj_distrib2)

definition proc_lock :: "sched_t \<Rightarrow> (u32 \<times> sched_t) option" where
  "proc_lock s =
     (let flags = getf (cpu s);
          s = upd_cpu cli s
      in do { l \<leftarrow> spinlock_lock (sched_lock s); Some (flags, s\<lparr>sched_lock := l\<rparr>) })"

definition proc_release :: "u32 \<Rightarrow> sched_t \<Rightarrow> sched_t" where
  "proc_release flags s =
     upd_cpu (setf flags) (s\<lparr>sched_lock := spinlock_release (sched_lock s)\<rparr>)"

definition pit_handle_interrupt :: "sched_t \<Rightarrow> sched_t" where
  "pit_handle_interrupt s = s\<lparr>pit_systime_msec := pit_systime_msec s + 1\<rparr>"

definition pit_time_msec :: "sched_t \<Rightarrow> u32" where
  "pit_time_msec s = pit_systime_msec s"

section \<open>The assembly routines\<close>

definition push :: "u32 \<Rightarrow> sched_t \<Rightarrow> sched_t" where
  "push v s = upd_cpu (\<lambda>c. c\<lparr>c_esp := c_esp c - 4\<rparr>) (s\<lparr>stack := (stack s)(c_esp (cpu s) - 4 := v)\<rparr>)"

definition pop :: "sched_t \<Rightarrow> u32 \<times> sched_t" where
  "pop s = (stack s (c_esp (cpu s)), upd_cpu (\<lambda>c. c\<lparr>c_esp := c_esp c + 4\<rparr>) s)"

definition push_context :: "sched_t \<Rightarrow> sched_t" where
  "push_context s =
     (let s = push (c_ebx (cpu s)) s;
          s = push (c_esi (cpu s)) s;
          s = push (c_edi (cpu s)) s;
          s = push (c_ebp (cpu s)) s
      in push (c_eflags (cpu s)) s)"

definition pop_context :: "sched_t \<Rightarrow> sched_t" where
  "pop_context s =
     (let (fl, s) = pop s;
          (ebp, s) = pop s;
          (edi, s) = pop s;
          (esi, s) = pop s;
          (ebx, s) = pop s;
          (eip, s) = pop s
      in upd_cpu (\<lambda>c. c\<lparr>c_eflags := fl, c_ebp := ebp, c_edi := edi, c_esi := esi, c_ebx := ebx,
           c_eip := eip\<rparr>) s)"

definition proc_switch :: "sched_t \<Rightarrow> sched_t" where
  "proc_switch s =
     (let s = push_context s;
          edi = proc_current s;
          s = (if edi = 0 then s else upd_proc edi (\<lambda>p. p\<lparr>p_sp := c_esp (cpu s)\<rparr>) s);
          esi = stack s (c_esp (cpu s) + 6 * 4);
          edi = pit_systime_msec s + 8;
          s = upd_proc esi (\<lambda>p. p\<lparr>p_time_end := edi\<rparr>) s;
          s = upd_cpu (\<lambda>c. c\<lparr>c_esp := p_sp (procs s esi)\<rparr>) s;
          s = s\<lparr>proc_current := esi, stack_owner := esi\<rparr>
      in pop_context s)"

text \<open>
  \<open>proc_startup\<close> is the address of the code a new process starts at: it calls
  \<^verbatim>\<open>proc_release(0x200 | 0x200000)\<close> and returns to the entry point.
\<close>

definition proc_startup_flags :: u32 where "proc_startup_flags = 0x200 OR 0x200000"

definition proc_init :: "addr \<Rightarrow> sched_t \<Rightarrow> sched_t" where
  "proc_init proc_startup s =
     (let s = push (c_ebp (cpu s)) s;
          ebp = c_esp (cpu s);
          edi = stack s (ebp + 8);
          s = upd_cpu (\<lambda>c. c\<lparr>c_edi := edi, c_esp := p_sp (procs s edi)\<rparr>) s;
          s = push 0 s;
          s = push (p_entry (procs s edi)) s;
          s = push proc_startup s;
          s = push 0 s;
          s = push 0 s;
          s = push 0 s;
          s = push 0 s;
          s = push 0 s;
          s = upd_proc edi (\<lambda>p. p\<lparr>p_sp := c_esp (cpu s)\<rparr>) s;
          s = s\<lparr>frame_flags := (frame_flags s)(edi := proc_startup_flags)\<rparr>;
          s = upd_cpu (\<lambda>c. c\<lparr>c_esp := ebp\<rparr>) s;
          (ebp, s) = pop s;
          (eip, s) = pop s
      in upd_cpu (\<lambda>c. c\<lparr>c_ebp := ebp, c_eip := eip\<rparr>) s)"

text \<open>A C call of a routine with one argument: push the argument and the return address.\<close>

definition call1 :: "(sched_t \<Rightarrow> sched_t) \<Rightarrow> u32 \<Rightarrow> sched_t \<Rightarrow> sched_t" where
  "call1 f arg s = f (push (c_eip (cpu s)) (push arg s))"

section \<open>The scheduler\<close>

datatype proc_slot = ReadyQ | WaitingQ | NextOf addr

fun read_slot :: "sched_t \<Rightarrow> proc_slot \<Rightarrow> addr" where
  "read_slot s ReadyQ = ready_q s"
| "read_slot s WaitingQ = waiting_q s"
| "read_slot s (NextOf p) = p_next (procs s p)"

fun write_slot :: "proc_slot \<Rightarrow> addr \<Rightarrow> sched_t \<Rightarrow> sched_t" where
  "write_slot ReadyQ v s = s\<lparr>ready_q := v\<rparr>"
| "write_slot WaitingQ v s = s\<lparr>waiting_q := v\<rparr>"
| "write_slot (NextOf p) v s = upd_proc p (\<lambda>q. q\<lparr>p_next := v\<rparr>) s"

definition proc_wake :: "proc_slot \<Rightarrow> sched_t \<Rightarrow> sched_t" where
  "proc_wake it s =
     (let proc = read_slot s it;
          s = write_slot it (p_next (procs s proc)) s;
          s = upd_proc proc (\<lambda>p. p\<lparr>p_state := PROC_READY\<rparr>) s;
          s = upd_proc proc (\<lambda>p. p\<lparr>p_next := ready_q s\<rparr>) s
      in s\<lparr>ready_q := proc\<rparr>)"

partial_function (option) proc_wake_loop :: "proc_slot \<Rightarrow> sched_t \<Rightarrow> sched_t option" where
  "proc_wake_loop it s =
     (if read_slot s it = 0 then Some s
      else if pit_systime_msec s \<ge> p_time_end (procs s (read_slot s it))
      then proc_wake_loop it (proc_wake it s)
      else proc_wake_loop (NextOf (read_slot s it)) s)"

partial_function (option) proc_last_slot :: "proc_slot \<Rightarrow> sched_t \<Rightarrow> proc_slot option" where
  "proc_last_slot it s =
     (if read_slot s it = 0 then Some it else proc_last_slot (NextOf (read_slot s it)) s)"

definition proc_take_next :: "sched_t \<Rightarrow> sched_t" where
  "proc_take_next s =
     (let next_proc = ready_q s;
          s = s\<lparr>ready_q := p_next (procs s (ready_q s))\<rparr>;
          s = upd_proc next_proc (\<lambda>p. p\<lparr>p_next := 0\<rparr>) s
      in if proc_current s = next_proc then s
         else let s = upd_proc next_proc (\<lambda>p. p\<lparr>p_state := PROC_ACTIVE\<rparr>) s
              in call1 proc_switch next_proc s)"

definition proc_schedule :: "sched_t \<Rightarrow> sched_t option" where
  "proc_schedule s =
     do { s \<leftarrow> proc_wake_loop WaitingQ s;
          let cur_state = p_state (procs s (proc_current s));
          if ready_q s = 0 then
            if (proc_current s = 0 \<or> cur_state \<noteq> PROC_ACTIVE \<and> cur_state \<noteq> PROC_IDLE)
               \<and> proc_idle s \<noteq> 0
            then Some (call1 proc_switch (proc_idle s) s)
            else Some s
          else if proc_current s \<noteq> 0 \<and> cur_state = PROC_ACTIVE then
            if pit_systime_msec s < p_time_end (procs s (proc_current s)) then Some s
            else do { it \<leftarrow> proc_last_slot ReadyQ s;
                      let s = write_slot it (proc_current s) s;
                      let s = upd_proc (proc_current s) (\<lambda>p. p\<lparr>p_next := 0\<rparr>) s;
                      Some (proc_take_next s) }
          else Some (proc_take_next s) }"

section \<open>The operations of a process\<close>

definition proc_create :: "addr \<Rightarrow> addr \<Rightarrow> addr \<Rightarrow> sched_t \<Rightarrow> (addr \<times> sched_t) option" where
  "proc_create proc_startup entry name s =
     do { (new, mp) \<leftarrow> pmman_alloc (pmman_kernel_map s) PROC_SIZE;
          let s = s\<lparr>pmman_kernel_map := mp\<rparr>;
          let s = upd_proc new (\<lambda>p. p\<lparr>p_entry := entry, p_next := 0, p_name := name\<rparr>) s;
          let s = upd_proc new (\<lambda>p. p\<lparr>p_sp := new + PROC_SIZE\<rparr>) s;
          Some (new, call1 (proc_init proc_startup) new s) }"

definition proc_init_scheduler :: "addr \<Rightarrow> addr \<Rightarrow> addr \<Rightarrow> sched_t \<Rightarrow> sched_t option" where
  "proc_init_scheduler proc_startup proc_idle_fn idle_name s =
     do { (p, s) \<leftarrow> proc_create proc_startup proc_idle_fn idle_name s;
          let s = s\<lparr>proc_idle := p\<rparr>;
          Some (upd_proc p (\<lambda>q. q\<lparr>p_state := PROC_IDLE\<rparr>) s) }"

definition enter :: "sched_t \<Rightarrow> sched_t option" where
  "enter s =
     do { (flags, s) \<leftarrow> proc_lock s;
          Some (s\<lparr>frame_flags := (frame_flags s)(stack_owner s := flags)\<rparr>) }"

definition leave :: "sched_t \<Rightarrow> sched_t" where
  "leave s = proc_release (frame_flags s (stack_owner s)) s"

definition proc_register :: "addr \<Rightarrow> sched_t \<Rightarrow> sched_t option" where
  "proc_register proc s =
     do { s \<leftarrow> enter s;
          let s = upd_proc proc (\<lambda>p. p\<lparr>p_state := PROC_READY\<rparr>) s;
          let s = upd_proc proc (\<lambda>p. p\<lparr>p_next := ready_q s\<rparr>) s;
          Some (leave (s\<lparr>ready_q := proc\<rparr>)) }"

definition proc_exit :: "sched_t \<Rightarrow> sched_t option" where
  "proc_exit s =
     do { s \<leftarrow> enter s;
          mp \<leftarrow> pmman_free (pmman_kernel_map s) (proc_current s) PROC_SIZE;
          let s = s\<lparr>pmman_kernel_map := mp\<rparr>;
          s \<leftarrow> proc_schedule (s\<lparr>proc_current := 0\<rparr>);
          Some (leave s) }"

definition proc_sleep_msec :: "u32 \<Rightarrow> sched_t \<Rightarrow> sched_t option" where
  "proc_sleep_msec msec s =
     do { s \<leftarrow> enter s;
          let s = upd_proc (proc_current s) (\<lambda>p. p\<lparr>p_time_end := pit_systime_msec s + msec\<rparr>) s;
          let s = upd_proc (proc_current s) (\<lambda>p. p\<lparr>p_next := waiting_q s\<rparr>) s;
          let s = s\<lparr>waiting_q := proc_current s\<rparr>;
          let s = upd_proc (proc_current s) (\<lambda>p. p\<lparr>p_state := PROC_SLEEP\<rparr>) s;
          s \<leftarrow> proc_schedule s;
          Some (leave s) }"

definition proc_yield :: "sched_t \<Rightarrow> sched_t option" where
  "proc_yield s =
     do { s \<leftarrow> enter s;
          let s = upd_proc (proc_current s) (\<lambda>p. p\<lparr>p_time_end := pit_systime_msec s\<rparr>) s;
          Some (leave s) }"

text \<open>The timer interrupt, as the handler of \<^verbatim>\<open>IRQ_PIT\<close> runs it.\<close>

definition irq_pit :: "sched_t \<Rightarrow> sched_t option" where
  "irq_pit s =
     do { s \<leftarrow> enter (pit_handle_interrupt s);
          s \<leftarrow> proc_schedule s;
          Some (leave s) }"

section \<open>Linked lists as lists\<close>

fun plist :: "(addr \<Rightarrow> proc_t) \<Rightarrow> addr \<Rightarrow> addr list \<Rightarrow> bool" where
  "plist h a [] \<longleftrightarrow> a = 0"
| "plist h a (p # ps) \<longleftrightarrow> a = p \<and> p \<noteq> 0 \<and> plist h (p_next (h p)) ps"

definition slot_at :: "proc_slot \<Rightarrow> addr list \<Rightarrow> proc_slot" where
  "slot_at q pre = (if pre = [] then q else NextOf (last pre))"

lemma plist_cong:
  "(\<And>p. p \<in> set ps \<Longrightarrow> p_next (h p) = p_next (h' p)) \<Longrightarrow> plist h a ps = plist h' a ps"
  by (induction ps arbitrary: a) auto

lemma plist_notin:
  "p \<notin> set ps \<Longrightarrow> plist (h(p := v)) a ps = plist h a ps"
  by (rule plist_cong) auto

lemma plist_nonnull: "plist h a ps \<Longrightarrow> 0 \<notin> set ps"
  by (induction ps arbitrary: a) auto

lemma plist_null_iff: "plist h a ps \<Longrightarrow> a = 0 \<longleftrightarrow> ps = []"
  by (cases ps) auto

lemma read_slot_at:
  "plist (procs s) (read_slot s q) (pre @ ps) \<Longrightarrow> plist (procs s) (read_slot s (slot_at q pre)) ps"
proof (induction pre arbitrary: ps rule: rev_induct)
  case (snoc p pre)
  from snoc.prems have "plist (procs s) (read_slot s q) (pre @ p # ps)" by simp
  then have "plist (procs s) (read_slot s (slot_at q pre)) (p # ps)" by (rule snoc.IH)
  then show ?case by (simp add: slot_at_def)
qed (simp add: slot_at_def)

lemma plist_relink:
  assumes "plist h a (pre @ ps)" and "plist h b qs" and "pre \<noteq> []" and "distinct pre"
    and "last pre \<notin> set qs" and "v = (h (last pre))\<lparr>p_next := b\<rparr>"
  shows "plist (h(last pre := v)) a (pre @ qs)"
  using assms
proof (induction pre arbitrary: a)
  case (Cons p pre)
  then show ?case
    by (cases "pre = []") (auto simp: plist_notin [unfolded fun_upd_def] plist_notin)
qed simp

section \<open>Waking the processes whose time has come\<close>

definition due :: "sched_t \<Rightarrow> addr \<Rightarrow> bool" where
  "due s p \<longleftrightarrow> p_time_end (procs s p) \<le> pit_systime_msec s"

text \<open>The heaps \<open>h\<close> and \<open>h'\<close> differ in links only, and in the state of the processes of \<open>A\<close>.\<close>

definition relinked :: "addr set \<Rightarrow> (addr \<Rightarrow> proc_t) \<Rightarrow> (addr \<Rightarrow> proc_t) \<Rightarrow> bool" where
  "relinked A h h' \<longleftrightarrow>
     (\<forall>x. p_sp (h' x) = p_sp (h x) \<and> p_entry (h' x) = p_entry (h x) \<and>
          p_time_end (h' x) = p_time_end (h x) \<and> p_name (h' x) = p_name (h x) \<and>
          p_state (h' x) = (if x \<in> A then PROC_READY else p_state (h x)))"

lemma relinked_refl [simp]: "relinked {} h h"
  by (simp add: relinked_def)

lemma relinked_trans:
  "relinked A h h' \<Longrightarrow> relinked B h' h'' \<Longrightarrow> relinked (A \<union> B) h h''"
  by (simp add: relinked_def)

lemma proc_wake_lists:
  assumes W: "plist (procs s) (waiting_q s) (pre @ p # ws)" and R: "plist (procs s) (ready_q s) rs"
    and D: "distinct (pre @ p # ws @ rs)"
  shows "\<exists>h w. proc_wake (slot_at WaitingQ pre) s = s\<lparr>procs := h, ready_q := p, waiting_q := w\<rparr> \<and>
    plist h w (pre @ ws) \<and> plist h p (p # rs) \<and> relinked {p} (procs s) h"
proof -
  have P: "plist (procs s) (read_slot s (slot_at WaitingQ pre)) (p # ws)"
    by (rule read_slot_at) (use W in simp)
  show ?thesis
  proof (cases "pre = []")
    case True
    with P R D show ?thesis
      by (simp add: proc_wake_def slot_at_def Let_def plist_notin relinked_def)
        (rule exI, rule exI, rule conjI, rule sched_t.equality, auto simp: plist_notin)
  next
    case False
    let ?l = "last pre"
    from False have "?l \<in> set pre" by simp
    with D have L: "?l \<noteq> p" "?l \<notin> set ws" "?l \<notin> set rs" by auto
    let ?h = "(procs s)(?l := (procs s ?l)\<lparr>p_next := p_next (procs s p)\<rparr>)"
    let ?h2 = "?h(p := (procs s p)\<lparr>p_state := PROC_READY, p_next := ready_q s\<rparr>)"
    have "plist ?h (waiting_q s) (pre @ ws)"
      by (rule plist_relink [OF W _ False]) (use P D L in auto)
    then have 1: "plist ?h2 (waiting_q s) (pre @ ws)"
      using D by (subst plist_notin) auto
    have 2: "plist ?h2 p (p # rs)"
      using R P D L by (auto simp: plist_notin)
    have 3: "relinked {p} (procs s) ?h2"
      using L by (auto simp: relinked_def)
    have "proc_wake (slot_at WaitingQ pre) s = s\<lparr>procs := ?h2, ready_q := p, waiting_q := waiting_q s\<rparr>"
      using P L False by (simp add: proc_wake_def slot_at_def Let_def fun_upd_twist)
    with 1 2 3 show ?thesis by blast
  qed
qed

lemma proc_wake_loop_lists:
  assumes "plist (procs s) (waiting_q s) (pre @ ws)" and "plist (procs s) (ready_q s) rs"
    and "distinct (pre @ ws @ rs)"
  shows "\<exists>h r w. proc_wake_loop (slot_at WaitingQ pre) s =
      Some (s\<lparr>procs := h, ready_q := r, waiting_q := w\<rparr>) \<and>
    plist h w (pre @ filter (\<lambda>p. \<not> due s p) ws) \<and> plist h r (rev (filter (due s) ws) @ rs) \<and>
    relinked (set (filter (due s) ws)) (procs s) h"
  using assms
proof (induction ws arbitrary: pre rs s)
  case Nil
  then have "read_slot s (slot_at WaitingQ pre) = 0"
    using read_slot_at [of s WaitingQ pre "[]"] by simp
  with Nil show ?case
    by (subst proc_wake_loop.simps) (simp, rule exI [of _ "procs s"], rule exI [of _ "ready_q s"], rule exI [of _ "waiting_q s"], simp)
next
  case (Cons p ws)
  have P: "plist (procs s) (read_slot s (slot_at WaitingQ pre)) (p # ws)"
    by (rule read_slot_at) (use Cons.prems in simp)
  show ?case
  proof (cases "due s p")
    case False
    have "slot_at WaitingQ (pre @ [p]) = NextOf p" by (simp add: slot_at_def)
    moreover have "proc_wake_loop (slot_at WaitingQ pre) s = proc_wake_loop (NextOf p) s"
      using P False by (subst proc_wake_loop.simps) (simp add: due_def)
    ultimately show ?thesis
      using Cons.IH [of s "pre @ [p]" rs] Cons.prems False by simp
  next
    case True
    obtain h w where 1: "proc_wake (slot_at WaitingQ pre) s = s\<lparr>procs := h, ready_q := p, waiting_q := w\<rparr>"
      (is "_ = ?s") and 2: "plist h w (pre @ ws)" "plist h p (p # rs)" "relinked {p} (procs s) h"
      using proc_wake_lists [of s pre p ws rs] Cons.prems by auto
    have "due ?s = due s"
      by (rule ext) (use 2(3) in \<open>simp add: due_def relinked_def\<close>)
    moreover have "proc_wake_loop (slot_at WaitingQ pre) s = proc_wake_loop (slot_at WaitingQ pre) ?s"
      using P True 1 by (subst proc_wake_loop.simps) (simp add: due_def)
    ultimately show ?thesis
      using Cons.IH [of ?s pre "p # rs"] Cons.prems 2 True relinked_trans [OF 2(3)]
      by (fastforce simp del: plist.simps)
  qed
qed

section \<open>The context switch\<close>

text \<open>What a switch does to the process structures: it saves the stack pointer of the current
  process and gives the next one a slice of 8 milliseconds.\<close>

definition switch_procs :: "addr \<Rightarrow> sched_t \<Rightarrow> addr \<Rightarrow> proc_t" where
  "switch_procs p s =
     (let sp = c_esp (cpu s) - 28;
          h = (if proc_current s = 0 then procs s
               else (procs s)(proc_current s := (procs s (proc_current s))\<lparr>p_sp := sp\<rparr>))
      in h(p := (h p)\<lparr>p_time_end := pit_systime_msec s + 8\<rparr>))"

lemma push_fields [simp]:
  "procs (push v s) = procs s" "proc_current (push v s) = proc_current s"
  "proc_idle (push v s) = proc_idle s" "ready_q (push v s) = ready_q s"
  "blocked_q (push v s) = blocked_q s" "waiting_q (push v s) = waiting_q s"
  "sched_lock (push v s) = sched_lock s" "pit_systime_msec (push v s) = pit_systime_msec s"
  "pmman_kernel_map (push v s) = pmman_kernel_map s" "stack_owner (push v s) = stack_owner s"
  "frame_flags (push v s) = frame_flags s"
  "stack (push v s) = (stack s)(c_esp (cpu s) - 4 := v)"
  "cpu (push v s) = (cpu s)\<lparr>c_esp := c_esp (cpu s) - 4\<rparr>"
  by (simp_all add: push_def)

lemma push_context_fields [simp]:
  "procs (push_context s) = procs s" "proc_current (push_context s) = proc_current s"
  "proc_idle (push_context s) = proc_idle s" "ready_q (push_context s) = ready_q s"
  "blocked_q (push_context s) = blocked_q s" "waiting_q (push_context s) = waiting_q s"
  "sched_lock (push_context s) = sched_lock s"
  "pit_systime_msec (push_context s) = pit_systime_msec s"
  "pmman_kernel_map (push_context s) = pmman_kernel_map s"
  "stack_owner (push_context s) = stack_owner s" "frame_flags (push_context s) = frame_flags s"
  "c_esp (cpu (push_context s)) = c_esp (cpu s) - 20"
  by (simp_all add: push_context_def Let_def)

lemma stack_push_context:
  "stack (push_context s) = (let e = c_esp (cpu s); c = cpu s in
     (stack s)(e - 4 := c_ebx c, e - 8 := c_esi c, e - 12 := c_edi c, e - 16 := c_ebp c,
       e - 20 := c_eflags c))"
  by (simp add: push_context_def Let_def)

lemma pop_context_fields [simp]:
  "procs (pop_context s) = procs s" "proc_current (pop_context s) = proc_current s"
  "proc_idle (pop_context s) = proc_idle s" "ready_q (pop_context s) = ready_q s"
  "blocked_q (pop_context s) = blocked_q s" "waiting_q (pop_context s) = waiting_q s"
  "sched_lock (pop_context s) = sched_lock s"
  "pit_systime_msec (pop_context s) = pit_systime_msec s"
  "pmman_kernel_map (pop_context s) = pmman_kernel_map s"
  "stack_owner (pop_context s) = stack_owner s" "frame_flags (pop_context s) = frame_flags s"
  "stack (pop_context s) = stack s"
  by (simp_all add: pop_context_def pop_def Let_def)

lemma cpu_pop_context:
  "cpu (pop_context s) = (let e = c_esp (cpu s); w = stack s in
     \<lparr>c_ebx = w (e + 16), c_esi = w (e + 12), c_edi = w (e + 8), c_ebp = w (e + 4),
      c_esp = e + 24, c_eflags = w e, c_eip = w (e + 20)\<rparr>)"
  by (rule cpu_t.equality) (simp_all add: pop_context_def pop_def Let_def add.commute)

lemma call1_switch_fields [simp]:
  "procs (call1 proc_switch p s) = switch_procs p s"
  "proc_current (call1 proc_switch p s) = p"
  "stack_owner (call1 proc_switch p s) = p"
  "proc_idle (call1 proc_switch p s) = proc_idle s" "ready_q (call1 proc_switch p s) = ready_q s"
  "blocked_q (call1 proc_switch p s) = blocked_q s" "waiting_q (call1 proc_switch p s) = waiting_q s"
  "sched_lock (call1 proc_switch p s) = sched_lock s"
  "pit_systime_msec (call1 proc_switch p s) = pit_systime_msec s"
  "pmman_kernel_map (call1 proc_switch p s) = pmman_kernel_map s"
  "frame_flags (call1 proc_switch p s) = frame_flags s"
  by (simp_all add: call1_def proc_switch_def Let_def switch_procs_def stack_push_context)

lemma switch_procs_next [simp]: "p_next (switch_procs p s x) = p_next (procs s x)"
  and switch_procs_state [simp]: "p_state (switch_procs p s x) = p_state (procs s x)"
  and switch_procs_time: "p_time_end (switch_procs p s x) =
    (if x = p then pit_systime_msec s + 8 else p_time_end (procs s x))"
  by (simp_all add: switch_procs_def Let_def)

lemma plist_switch [simp]: "plist (switch_procs p s) a ps = plist (procs s) a ps"
  by (rule plist_cong) simp

lemma proc_last_slot_lists:
  assumes "plist (procs s) (read_slot s q) (pre @ ps)"
  shows "proc_last_slot (slot_at q pre) s = Some (slot_at q (pre @ ps))"
  using assms
proof (induction ps arbitrary: pre)
  case Nil
  then show ?case using read_slot_at [of s q pre "[]"]
    by (subst proc_last_slot.simps) simp
next
  case (Cons p ps)
  have "slot_at q (pre @ [p]) = NextOf p" by (simp add: slot_at_def)
  then show ?case using read_slot_at [OF Cons.prems] Cons.IH [of "pre @ [p]"] Cons.prems
    by (subst proc_last_slot.simps) simp
qed

section \<open>The scheduler on lists\<close>

definition queues :: "sched_t \<Rightarrow> addr list \<Rightarrow> addr list \<Rightarrow> bool" where
  "queues s rs ws \<longleftrightarrow> plist (procs s) (ready_q s) rs \<and> plist (procs s) (waiting_q s) ws \<and>
     distinct (rs @ ws)"

text \<open>
  The abstract scheduler: the current process, the ready list and the waiting list after a run of
  the scheduler.  Woken processes go to the front, the current one to the back once its slice is
  over, and the first ready process runs.
\<close>

definition schedule_spec ::
    "sched_t \<Rightarrow> addr list \<Rightarrow> addr list \<Rightarrow> addr \<times> addr list \<times> addr list" where
  "schedule_spec s rs ws =
     (let cur = proc_current s; st = p_state (procs s cur);
          rs1 = rev (filter (due s) ws) @ rs;
          ws1 = filter (\<lambda>p. \<not> due s p) ws
      in if rs1 = [] then
           (if (cur = 0 \<or> st \<noteq> PROC_ACTIVE \<and> st \<noteq> PROC_IDLE) \<and> proc_idle s \<noteq> 0
            then proc_idle s else cur, [], ws1)
         else if cur \<noteq> 0 \<and> st = PROC_ACTIVE then
           if pit_systime_msec s < p_time_end (procs s cur) then (cur, rs1, ws1)
           else (hd rs1, tl rs1 @ [cur], ws1)
         else (hd rs1, tl rs1, ws1))"

text \<open>The current process is in no queue, or it waits and is not to be woken.\<close>

definition cur_ok :: "sched_t \<Rightarrow> addr list \<Rightarrow> addr list \<Rightarrow> bool" where
  "cur_ok s rs ws \<longleftrightarrow> proc_current s \<notin> set rs \<and>
     (proc_current s \<in> set ws \<longrightarrow>
        p_state (procs s (proc_current s)) = PROC_SLEEP \<and> \<not> due s (proc_current s))"

text \<open>What the rest of the state looks like after a run that makes \<open>cur'\<close> the current process.\<close>

definition sched_frame :: "sched_t \<Rightarrow> sched_t \<Rightarrow> bool" where
  "sched_frame s s' \<longleftrightarrow> proc_idle s' = proc_idle s \<and> blocked_q s' = blocked_q s \<and>
     sched_lock s' = sched_lock s \<and> pit_systime_msec s' = pit_systime_msec s \<and>
     pmman_kernel_map s' = pmman_kernel_map s \<and> frame_flags s' = frame_flags s \<and>
     (proc_current s' \<noteq> proc_current s \<longrightarrow> stack_owner s' = proc_current s') \<and>
     (proc_current s' = proc_current s \<longrightarrow> stack_owner s' = stack_owner s)"

text \<open>The state \<open>s'\<close> after \<open>s\<close> switched to the ready process \<open>p\<close>.\<close>

definition switched_to :: "addr \<Rightarrow> sched_t \<Rightarrow> sched_t \<Rightarrow> bool" where
  "switched_to p s s' \<longleftrightarrow> proc_current s' = p \<and> sched_frame s s' \<and>
     (\<forall>x. p_state (procs s' x) = (if x = p then PROC_ACTIVE else p_state (procs s x))) \<and>
     (\<forall>x. p_time_end (procs s' x) =
        (if x = p then pit_systime_msec s + 8 else p_time_end (procs s x)))"

lemma proc_take_next_lists:
  assumes "queues s (p # rs) ws" and "proc_current s \<noteq> p"
  shows "queues (proc_take_next s) rs ws \<and> switched_to p s (proc_take_next s)"
  using assms
  by (auto simp: proc_take_next_def Let_def queues_def switched_to_def sched_frame_def
      switch_procs_time plist_notin)

lemma append_current_lists:
  assumes R: "plist (procs s) (ready_q s) rs" "rs \<noteq> []" "distinct rs"
    and C: "proc_current s \<notin> set rs" "proc_current s \<noteq> 0"
  shows "\<exists>it h. proc_last_slot ReadyQ s = Some it \<and>
    upd_proc (proc_current s) (\<lambda>p. p\<lparr>p_next := 0\<rparr>) (write_slot it (proc_current s) s) =
      s\<lparr>procs := h\<rparr> \<and> plist h (ready_q s) (rs @ [proc_current s]) \<and> relinked {} (procs s) h \<and>
    (\<forall>x. x \<notin> set (proc_current s # rs) \<longrightarrow> h x = procs s x)"
proof -
  let ?c = "proc_current s" and ?l = "last rs" and ?h = "procs s"
  let ?g = "?h(?c := (?h ?c)\<lparr>p_next := 0\<rparr>)"
  have slot: "proc_last_slot ReadyQ s = Some (NextOf ?l)"
    using proc_last_slot_lists [of s ReadyQ "[]" rs] R by (simp add: slot_at_def)
  have lc: "?l \<noteq> ?c" using C(1) last_in_set [OF R(2)] by auto
  have "plist ?g (ready_q s) rs" using R(1) C(1) by (simp add: plist_notin)
  then have "plist (?g(?l := (?g ?l)\<lparr>p_next := ?c\<rparr>)) (ready_q s) (rs @ [?c])"
    by (intro plist_relink [where ps = "[]" and b = ?c]) (use R C lc in auto)
  moreover have "relinked {} ?h (?g(?l := (?g ?l)\<lparr>p_next := ?c\<rparr>))"
    by (auto simp: relinked_def)
  moreover have "upd_proc ?c (\<lambda>p. p\<lparr>p_next := 0\<rparr>) (write_slot (NextOf ?l) ?c s) =
      s\<lparr>procs := ?g(?l := (?g ?l)\<lparr>p_next := ?c\<rparr>)\<rparr>"
    using lc by (simp add: fun_upd_twist)
  moreover have "\<forall>x. x \<notin> set (?c # rs) \<longrightarrow> (?g(?l := (?g ?l)\<lparr>p_next := ?c\<rparr>)) x = ?h x"
    using last_in_set [OF R(2)] by auto
  ultimately show ?thesis using slot by blast
qed

lemma proc_rotate_lists:
  assumes Q: "queues s (p # rs) ws" and C: "proc_current s \<notin> set (p # rs @ ws)" "proc_current s \<noteq> 0"
  shows "\<exists>it s'. proc_last_slot ReadyQ s = Some it \<and>
    proc_take_next (upd_proc (proc_current s) (\<lambda>q. q\<lparr>p_next := 0\<rparr>) (write_slot it (proc_current s) s)) = s' \<and>
    queues s' (rs @ [proc_current s]) ws \<and> switched_to p s s'"
proof -
  let ?c = "proc_current s"
  obtain it h where it: "proc_last_slot ReadyQ s = Some it"
      "upd_proc ?c (\<lambda>q. q\<lparr>p_next := 0\<rparr>) (write_slot it ?c s) = s\<lparr>procs := h\<rparr>" (is "_ = ?s")
    and h: "plist h (ready_q s) ((p # rs) @ [?c])" "relinked {} (procs s) h"
      "\<forall>x. x \<notin> set (?c # p # rs) \<longrightarrow> h x = procs s x"
    using append_current_lists [of s "p # rs"] Q C unfolding queues_def by auto
  have "h x = procs s x" if "x \<in> set ws" for x
    by (rule h(3) [rule_format]) (use that Q C in \<open>auto simp: queues_def\<close>)
  then have "plist h (waiting_q s) ws"
    using Q by (subst plist_cong [of _ _ "procs s"]) (auto simp: queues_def)
  then have "queues ?s (p # rs @ [?c]) ws"
    using h(1) Q C by (auto simp: queues_def)
  then have "queues (proc_take_next ?s) (rs @ [?c]) ws \<and> switched_to p ?s (proc_take_next ?s)"
    by (rule proc_take_next_lists) (use C in auto)
  moreover have "switched_to p ?s s' \<Longrightarrow> switched_to p s s'" for s'
    using h(2) by (simp add: switched_to_def sched_frame_def relinked_def)
  ultimately show ?thesis using it by auto
qed

text \<open>The states and time slices after a run: a process that was woken is ready, one taken from
  the ready list is active, and every switch starts a new slice.\<close>

definition sched_post :: "sched_t \<Rightarrow> addr list \<Rightarrow> addr list \<Rightarrow> sched_t \<Rightarrow> bool" where
  "sched_post s rs ws s' \<longleftrightarrow> sched_frame s s' \<and>
     (\<forall>x. p_state (procs s' x) =
        (if x = proc_current s' \<and> x \<noteq> proc_current s \<and> rev (filter (due s) ws) @ rs \<noteq> []
         then PROC_ACTIVE
         else if x \<in> set ws \<and> due s x then PROC_READY else p_state (procs s x))) \<and>
     (\<forall>x. p_time_end (procs s' x) =
        (if x = proc_current s' \<and> x \<noteq> proc_current s then pit_systime_msec s + 8
         else p_time_end (procs s x)))"

lemma write_slot_current [simp]: "proc_current (write_slot it v s) = proc_current s"
  by (cases it) auto

text \<open>The state after the first loop of \<^verbatim>\<open>proc_schedule\<close>.\<close>

definition woken :: "addr list \<Rightarrow> addr list \<Rightarrow> sched_t \<Rightarrow> sched_t \<Rightarrow> bool" where
  "woken rs ws s s1 \<longleftrightarrow> proc_wake_loop WaitingQ s = Some s1 \<and> sched_frame s s1 \<and>
     proc_current s1 = proc_current s \<and>
     queues s1 (rev (filter (due s) ws) @ rs) (filter (\<lambda>p. \<not> due s p) ws) \<and>
     relinked {x \<in> set ws. due s x} (procs s) (procs s1)"

lemma proc_wake_woken:
  assumes "queues s rs ws"
  shows "\<exists>s1. woken rs ws s s1"
proof -
  from proc_wake_loop_lists [of s "[]" ws rs] assms obtain h r w where
    "proc_wake_loop WaitingQ s = Some (s\<lparr>procs := h, ready_q := r, waiting_q := w\<rparr>)"
    "plist h w (filter (\<lambda>p. \<not> due s p) ws)" "plist h r (rev (filter (due s) ws) @ rs)"
    "relinked {x \<in> set ws. due s x} (procs s) h"
    by (auto simp: queues_def slot_at_def)
  then have "woken rs ws s (s\<lparr>procs := h, ready_q := r, waiting_q := w\<rparr>)"
    using assms by (auto simp: woken_def queues_def sched_frame_def)
  then show ?thesis ..
qed

lemma proc_schedule_lists:
  assumes Q: "queues s rs ws" and C: "cur_ok s rs ws" and I: "proc_idle s \<noteq> proc_current s \<or>
      p_state (procs s (proc_current s)) \<in> {PROC_ACTIVE, PROC_IDLE}"
  shows "\<exists>s' rs' ws'. proc_schedule s = Some s' \<and> queues s' rs' ws' \<and>
    schedule_spec s rs ws = (proc_current s', rs', ws') \<and> sched_post s rs ws s'"
proof -
  let ?c = "proc_current s" and ?rs = "rev (filter (due s) ws) @ rs"
  let ?ws = "filter (\<lambda>p. \<not> due s p) ws"
  obtain s1 where "woken rs ws s s1" using proc_wake_woken [OF Q] ..
  then have loop: "proc_wake_loop WaitingQ s = Some s1" and F: "sched_frame s s1"
    and c1: "proc_current s1 = ?c" and Q1: "queues s1 ?rs ?ws"
    and st: "\<And>x. p_state (procs s1 x) = (if x \<in> set ws \<and> due s x then PROC_READY else p_state (procs s x))"
      "\<And>x. p_time_end (procs s1 x) = p_time_end (procs s x)"
    by (auto simp: woken_def relinked_def)
  have stc: "p_state (procs s1 ?c) = p_state (procs s ?c)" using st C by (auto simp: cur_ok_def)
  have act: "?c \<notin> set ws" if "p_state (procs s ?c) = PROC_ACTIVE"
    using C that by (auto simp: cur_ok_def PROC_SLEEP_def PROC_ACTIVE_def)
  have cr: "?c \<notin> set ?rs" using C by (auto simp: cur_ok_def)
  have r0: "ready_q s1 = 0 \<longleftrightarrow> ?rs = []"
    using Q1 by (intro plist_null_iff [of "procs s1"]) (simp add: queues_def)
  have tm: "pit_systime_msec s1 = pit_systime_msec s" "proc_idle s1 = proc_idle s"
    using F by (simp_all add: sched_frame_def)
  note run = proc_schedule_def loop c1 stc st(2) tm Let_def r0
  have post: "sched_post s rs ws s'" if T: "switched_to p s1 s'" and P: "p \<in> set ?rs" for p s'
  proof -
    have pc: "p \<noteq> ?c" using cr P by auto
    have ne: "?rs \<noteq> []" using P by (cases ?rs) simp_all
    have cs: "proc_current s' = p" and fr: "sched_frame s1 s'"
      and ss: "\<And>x. p_state (procs s' x) = (if x = p then PROC_ACTIVE else p_state (procs s1 x))"
      and ts: "\<And>x. p_time_end (procs s' x) =
         (if x = p then pit_systime_msec s1 + 8 else p_time_end (procs s1 x))"
      using T by (simp_all add: switched_to_def)
    have "sched_frame s s'" using F fr pc cs by (simp add: sched_frame_def c1)
    then show ?thesis using ne pc unfolding sched_post_def by (simp add: cs ss ts st tm)
  qed
  consider (none) "?rs = []" | (slice) "?rs \<noteq> []" "?c \<noteq> 0" "p_state (procs s ?c) = PROC_ACTIVE"
      "pit_systime_msec s < p_time_end (procs s ?c)"
    | (expired) "?rs \<noteq> []" "?c \<noteq> 0" "p_state (procs s ?c) = PROC_ACTIVE"
      "\<not> pit_systime_msec s < p_time_end (procs s ?c)"
    | (other) "?rs \<noteq> []" "\<not> (?c \<noteq> 0 \<and> p_state (procs s ?c) = PROC_ACTIVE)"
    by blast
  then show ?thesis
  proof cases
    case none
    let ?go = "(?c = 0 \<or> p_state (procs s ?c) \<noteq> PROC_ACTIVE \<and> p_state (procs s ?c) \<noteq> PROC_IDLE)
      \<and> proc_idle s \<noteq> 0"
    let ?s' = "if ?go then call1 proc_switch (proc_idle s) s1 else s1"
    have "proc_schedule s = Some ?s'" using none by (simp add: run)
    moreover have "schedule_spec s rs ws = (proc_current ?s', [], ?ws)"
      using none by (simp add: schedule_spec_def Let_def c1)
    moreover have "queues ?s' [] ?ws" using Q1 none by (simp add: queues_def)
    moreover have "sched_post s rs ws s1" using F st by (simp add: sched_post_def none c1)
    moreover have "sched_post s rs ws (call1 proc_switch (proc_idle s) s1)" if ?go
      using F st I that none tm
      by (auto simp: sched_post_def sched_frame_def switch_procs_time PROC_ACTIVE_def PROC_IDLE_def)
    ultimately show ?thesis by (auto split: if_splits)
  next
    case slice
    have "proc_schedule s = Some s1" using slice by (simp add: run)
    moreover have "schedule_spec s rs ws = (proc_current s1, ?rs, ?ws)"
      using slice by (simp add: schedule_spec_def Let_def c1)
    moreover have "sched_post s rs ws s1" using F st by (simp add: sched_post_def c1)
    ultimately show ?thesis using Q1 by blast
  next
    case expired
    from expired(1) obtain p qs where pq: "?rs = p # qs" by (cases ?rs) auto
    have "?c \<notin> set (p # qs @ ?ws)" using cr act [OF expired(3)] unfolding pq by auto
    with proc_rotate_lists [of s1 p qs ?ws] Q1 expired(2) obtain it s' where
      it: "proc_last_slot ReadyQ s1 = Some it"
        "proc_take_next (upd_proc ?c (\<lambda>q. q\<lparr>p_next := 0\<rparr>) (write_slot it ?c s1)) = s'"
      and s': "queues s' (qs @ [?c]) ?ws" "switched_to p s1 s'"
      unfolding c1 pq by blast
    have "proc_schedule s = Some s'" using expired it by (auto simp: run)
    moreover have "schedule_spec s rs ws = (p, qs @ [?c], ?ws)"
      using expired by (simp add: schedule_spec_def Let_def pq)
    moreover have "p \<in> set ?rs" unfolding pq by simp
    ultimately show ?thesis using post [OF s'(2)] s' by (auto simp: switched_to_def)
  next
    case other
    from other(1) obtain p qs where pq: "?rs = p # qs" by (cases ?rs) auto
    then have "p \<in> set ?rs" by simp
    then have "p \<noteq> ?c" using cr by auto
    then have T: "queues (proc_take_next s1) qs ?ws" "switched_to p s1 (proc_take_next s1)"
      using proc_take_next_lists [of s1 p qs ?ws] Q1 c1 unfolding pq by auto
    have "proc_schedule s = Some (proc_take_next s1)" using other by (auto simp: run)
    moreover have "schedule_spec s rs ws = (p, qs, ?ws)"
      using other by (auto simp: schedule_spec_def Let_def pq)
    ultimately show ?thesis using post [OF T(2) \<open>p \<in> set ?rs\<close>] T by (auto simp: switched_to_def)
  qed
qed

section \<open>The invariant of the scheduler\<close>

text \<open>
  A process owns the block its structure and stack live in.  Between two operations the lock is
  free, the queues are proper lists without the idle process, every waiting process sleeps, and the
  current process is none, the idle process, or an active process that is in no queue.  A process whose
  sleep was over at once may run on in the state ready; such a state satisfies the same invariant but for
  the state of the current process, which is therefore a parameter.
\<close>

definition owns :: "sched_t \<Rightarrow> addr \<Rightarrow> bool" where
  "owns s p \<longleftrightarrow> (\<exists>b<1024. p = pmman_block_addr b \<and> b \<in> in_use (pmman_kernel_map s))"

definition tasks :: "sched_t \<Rightarrow> addr list \<Rightarrow> addr list \<Rightarrow> addr set" where
  "tasks s rs ws = set rs \<union> set ws \<union> ({proc_current s} - {0, proc_idle s})"

definition sched_core :: "sched_t \<Rightarrow> addr list \<Rightarrow> addr list \<Rightarrow> bool" where
  "sched_core s rs ws \<longleftrightarrow> queues s rs ws \<and> pmman_inv (pmman_kernel_map s) \<and>
     0 \<in> in_use (pmman_kernel_map s) \<and> proc_idle s \<noteq> 0 \<and>
     p_state (procs s (proc_idle s)) = PROC_IDLE \<and> proc_idle s \<notin> set (rs @ ws) \<and>
     (\<forall>p \<in> set ws. p_state (procs s p) = PROC_SLEEP) \<and>
     (\<forall>p \<in> insert (proc_idle s) (tasks s rs ws). owns s p)"

definition at_rest_as :: "u32 \<Rightarrow> sched_t \<Rightarrow> addr list \<Rightarrow> addr list \<Rightarrow> bool" where
  "at_rest_as st s rs ws \<longleftrightarrow> proc_current s = 0 \<or> proc_current s = proc_idle s \<or>
     (proc_current s \<notin> set (rs @ ws) \<and> p_state (procs s (proc_current s)) = st)"

definition sched_inv_as :: "u32 \<Rightarrow> sched_t \<Rightarrow> addr list \<Rightarrow> addr list \<Rightarrow> bool" where
  "sched_inv_as st s rs ws \<longleftrightarrow> sched_core s rs ws \<and> at_rest_as st s rs ws \<and> sched_lock s = 0"

abbreviation at_rest :: "sched_t \<Rightarrow> addr list \<Rightarrow> addr list \<Rightarrow> bool" where
  "at_rest \<equiv> at_rest_as PROC_ACTIVE"

abbreviation sched_inv :: "sched_t \<Rightarrow> addr list \<Rightarrow> addr list \<Rightarrow> bool" where
  "sched_inv \<equiv> sched_inv_as PROC_ACTIVE"

lemmas proc_states = PROC_ACTIVE_def PROC_READY_def PROC_SLEEP_def PROC_IDLE_def

lemma schedule_spec_tasks:
  assumes core: "sched_core s rs ws" and cur: "at_rest s rs ws \<or> proc_current s \<in> set ws"
    and spec: "schedule_spec s rs ws = (cur', rs', ws')"
  shows "set rs' \<union> set ws' \<union> ({cur'} - {0, proc_idle s}) = tasks s rs ws"
proof -
  let ?c = "proc_current s" and ?rs = "rev (filter (due s) ws) @ rs"
  let ?ws = "filter (\<lambda>p. \<not> due s p) ws" and ?st = "p_state (procs s (proc_current s))"
  have all: "set ?rs \<union> set ?ws = set rs \<union> set ws" by auto
  have idle: "proc_idle s \<notin> set rs \<union> set ws" "proc_idle s \<noteq> 0" "0 \<notin> set rs \<union> set ws"
    using core plist_nonnull by (fastforce simp: sched_core_def queues_def)+
  have c: "?c = 0 \<or> ?c = proc_idle s \<and> ?st = PROC_IDLE \<or> ?c \<noteq> proc_idle s \<and> ?st = PROC_ACTIVE \<or>
      ?c \<in> set ws \<and> ?st = PROC_SLEEP"
    using cur core by (auto simp: at_rest_as_def sched_core_def)
  show ?thesis
  proof (cases ?rs)
    case Nil
    then have "set rs \<union> set ws = set ?ws" using all by (metis Un_empty_left list.set(1))
    with Nil c idle spec show ?thesis
      by (auto simp: schedule_spec_def tasks_def Let_def proc_states split: if_splits)
  next
    case (Cons p qs)
    have "set rs \<union> set ws = insert p (set qs \<union> set ?ws)" using all Cons by (metis Un_insert_left list.simps(15))
    moreover have "p \<noteq> 0" "p \<noteq> proc_idle s" using idle calculation by auto
    moreover have "(cur', rs', ws') =
        (if ?c \<noteq> 0 \<and> ?st = PROC_ACTIVE then
           if pit_systime_msec s < p_time_end (procs s ?c) then (?c, p # qs, ?ws)
           else (p, qs @ [?c], ?ws)
         else (p, qs, ?ws))"
      using spec Cons by (auto simp: schedule_spec_def Let_def split: if_splits)
    ultimately show ?thesis using c idle
      by (auto simp: tasks_def proc_states split: if_splits)
  qed
qed

lemma schedule_spec_current:
  assumes core: "sched_core s rs ws" and C: "cur_ok s rs ws"
    and cur: "at_rest s rs ws \<or> proc_current s \<in> set ws"
    and spec: "schedule_spec s rs ws = (c', rs', ws')"
  shows "c' = proc_idle s \<and> rev (filter (due s) ws) @ rs = [] \<or>
    c' \<notin> set (rs' @ ws') \<and> (c' = proc_current s \<and> p_state (procs s c') = PROC_ACTIVE \<or>
      c' \<noteq> proc_current s \<and> c' \<in> set (rs @ ws) \<and> rev (filter (due s) ws) @ rs \<noteq> [])"
proof -
  let ?c = "proc_current s" and ?rs = "rev (filter (due s) ws) @ rs"
  let ?ws = "filter (\<lambda>p. \<not> due s p) ws" and ?st = "p_state (procs s (proc_current s))"
  have D: "distinct (?rs @ ?ws)" using core by (auto simp: sched_core_def queues_def)
  have c: "?c = 0 \<or> ?c = proc_idle s \<or> ?st = PROC_ACTIVE \<and> ?c \<notin> set ws \<or> ?st = PROC_SLEEP"
    using cur core by (auto simp: at_rest_as_def sched_core_def)
  have cr: "?c \<notin> set ?rs" using C by (auto simp: cur_ok_def)
  show ?thesis
  proof (cases ?rs)
    case Nil
    with c core spec show ?thesis
      by (auto simp: schedule_spec_def sched_core_def Let_def proc_states split: if_splits)
  next
    case (Cons p qs)
    have "p \<in> set ?rs" unfolding Cons by simp
    then have "p \<in> set (rs @ ws)" by auto
    moreover have "(c', rs', ws') =
        (if ?c \<noteq> 0 \<and> ?st = PROC_ACTIVE then
           if pit_systime_msec s < p_time_end (procs s ?c) then (?c, p # qs, ?ws)
           else (p, qs @ [?c], ?ws)
         else (p, qs, ?ws))"
      using spec Cons by (auto simp: schedule_spec_def Let_def split: if_splits)
    moreover have "?c \<notin> set ?ws \<or> ?st \<noteq> PROC_ACTIVE"
      using C by (auto simp: cur_ok_def proc_states)
    ultimately show ?thesis using D cr unfolding Cons by (auto split: if_splits)
  qed
qed

text \<open>Running the scheduler keeps the invariant and the set of processes.\<close>

lemma proc_schedule_inv:
  assumes core: "sched_core s rs ws"
    and cur: "at_rest s rs ws \<or> proc_current s \<in> set ws \<and> \<not> due s (proc_current s)"
  shows "\<exists>s' rs' ws'. proc_schedule s = Some s' \<and> sched_core s' rs' ws' \<and> at_rest s' rs' ws' \<and>
    tasks s' rs' ws' = tasks s rs ws \<and> sched_frame s s'"
proof -
  let ?c = "proc_current s"
  have Q: "queues s rs ws" and idle: "p_state (procs s (proc_idle s)) = PROC_IDLE"
    "proc_idle s \<notin> set (rs @ ws)" and sl: "\<And>p. p \<in> set ws \<Longrightarrow> p_state (procs s p) = PROC_SLEEP"
    using core by (auto simp: sched_core_def)
  have nn: "0 \<notin> set (rs @ ws)" using Q plist_nonnull by (auto simp: queues_def)
  have "?c \<notin> set rs"
    using cur nn idle Q by (auto simp: at_rest_as_def queues_def)
  then have C: "cur_ok s rs ws"
    using cur nn idle sl by (auto simp: cur_ok_def at_rest_as_def)
  obtain s' rs' ws' where run: "proc_schedule s = Some s'" and Q': "queues s' rs' ws'"
    and spec: "schedule_spec s rs ws = (proc_current s', rs', ws')" and post: "sched_post s rs ws s'"
    using proc_schedule_lists [OF Q C] idle(1) by (metis insertCI)
  have F: "sched_frame s s'" using post by (simp add: sched_post_def)
  then have eq: "proc_idle s' = proc_idle s" "pmman_kernel_map s' = pmman_kernel_map s"
    by (simp_all add: sched_frame_def)
  have T: "tasks s' rs' ws' = tasks s rs ws"
    using schedule_spec_tasks [OF core _ spec] cur by (auto simp: tasks_def eq)
  have ws': "ws' = filter (\<lambda>p. \<not> due s p) ws"
    using spec by (auto simp: schedule_spec_def Let_def split: if_splits)
  have sub: "set rs' \<union> set ws' \<subseteq> tasks s rs ws" using T by (auto simp: tasks_def)
  have i': "proc_idle s \<notin> tasks s rs ws" using idle by (auto simp: tasks_def)
  have st: "p_state (procs s' x) =
        (if x = proc_current s' \<and> x \<noteq> proc_current s \<and> rev (filter (due s) ws) @ rs \<noteq> []
         then PROC_ACTIVE
         else if x \<in> set ws \<and> due s x then PROC_READY else p_state (procs s x))" for x
    using post by (simp add: sched_post_def)
  have sc: "proc_current s' = proc_idle s \<and> rev (filter (due s) ws) @ rs = [] \<or>
      proc_current s' \<notin> set (rs' @ ws') \<and> (proc_current s' = ?c \<and> p_state (procs s (proc_current s')) = PROC_ACTIVE \<or>
        proc_current s' \<noteq> ?c \<and> proc_current s' \<in> set (rs @ ws) \<and> rev (filter (due s) ws) @ rs \<noteq> [])"
    using schedule_spec_current [OF core C _ spec] cur by fast
  have cd: "?c \<in> set ws \<Longrightarrow> \<not> due s ?c" using C by (simp add: cur_ok_def)
  have nx: "proc_current s' = proc_idle s \<or>
      proc_current s' \<notin> set (rs' @ ws') \<and> p_state (procs s' (proc_current s')) = PROC_ACTIVE"
    using sc cd by (auto simp: st)
  then have "at_rest s' rs' ws'" by (auto simp: at_rest_as_def eq)
  moreover have "p_state (procs s' p) = PROC_SLEEP" if "p \<in> set ws'" for p
    using that nx idle sl [of p] by (auto simp: ws' st)
  moreover have "p_state (procs s' (proc_idle s)) = PROC_IDLE"
    using sc idle by (auto simp: st)
  moreover have "owns s' p \<longleftrightarrow> owns s p" for p by (simp add: owns_def eq)
  ultimately have "sched_core s' rs' ws'" "at_rest s' rs' ws'"
    using Q' T core sub i' by (auto simp: sched_core_def eq)
  with run T F show ?thesis by blast
qed

section \<open>Every operation keeps the invariant\<close>

lemma enter_free:
  assumes "sched_lock s = 0"
  obtains c f where "enter s = Some (s\<lparr>cpu := c, sched_lock := 1, frame_flags := f\<rparr>)"
  using assms that by (simp add: enter_def proc_lock_def Let_def)

lemma sched_core_entered [simp]:
  "sched_core (s\<lparr>cpu := c, sched_lock := l, frame_flags := f\<rparr>) rs ws = sched_core s rs ws"
  "at_rest_as st (s\<lparr>cpu := c, sched_lock := l, frame_flags := f\<rparr>) rs ws = at_rest_as st s rs ws"
  "tasks (s\<lparr>cpu := c, sched_lock := l, frame_flags := f\<rparr>) rs ws = tasks s rs ws"
  "due (s\<lparr>cpu := c, sched_lock := l, frame_flags := f\<rparr>) p = due s p"
  by (simp_all add: sched_core_def at_rest_as_def tasks_def owns_def queues_def due_def)

lemma sched_core_left [simp]:
  "sched_core (leave s) rs ws = sched_core s rs ws" "at_rest_as st (leave s) rs ws = at_rest_as st s rs ws"
  "tasks (leave s) rs ws = tasks s rs ws" "sched_lock (leave s) = 0"
  "proc_current (leave s) = proc_current s" "procs (leave s) = procs s" "proc_idle (leave s) = proc_idle s"
  "pmman_kernel_map (leave s) = pmman_kernel_map s"
  by (simp_all add: sched_core_def at_rest_as_def tasks_def owns_def queues_def leave_def
      proc_release_def spinlock_release_def)

text \<open>The same idle process and the same memory in use.\<close>

abbreviation same_memory :: "sched_t \<Rightarrow> sched_t \<Rightarrow> bool" where
  "same_memory s s' \<equiv> proc_idle s' = proc_idle s \<and> pmman_kernel_map s' = pmman_kernel_map s"

lemma schedule_leave_inv:
  assumes "sched_core s rs ws"
    and "at_rest s rs ws \<or> proc_current s \<in> set ws \<and> \<not> due s (proc_current s)"
  shows "\<exists>s' rs' ws'. do { s \<leftarrow> proc_schedule s; Some (leave s) } = Some s' \<and>
    sched_inv s' rs' ws' \<and> tasks s' rs' ws' = tasks s rs ws \<and> same_memory s s'"
  using proc_schedule_inv [OF assms] by (fastforce simp: sched_inv_as_def sched_frame_def)

lemma irq_pit_inv:
  assumes "sched_inv s rs ws"
  shows "\<exists>s' rs' ws'. irq_pit s = Some s' \<and> sched_inv s' rs' ws' \<and>
    tasks s' rs' ws' = tasks s rs ws \<and> same_memory s s'"
proof -
  let ?s = "pit_handle_interrupt s"
  have "sched_core ?s rs ws" "at_rest ?s rs ws" "tasks ?s rs ws = tasks s rs ws" "sched_lock ?s = 0"
      "same_memory s ?s"
    using assms by (simp_all add: sched_inv_as_def sched_core_def at_rest_as_def tasks_def owns_def
        queues_def pit_handle_interrupt_def)
  moreover from this(4) obtain c f where
    "enter ?s = Some (?s\<lparr>cpu := c, sched_lock := 1, frame_flags := f\<rparr>)" by (rule enter_free)
  ultimately show ?thesis
    using schedule_leave_inv [of "?s\<lparr>cpu := c, sched_lock := 1, frame_flags := f\<rparr>" rs ws]
    by (simp add: irq_pit_def)
qed

text \<open>A running process is one that is neither none nor the idle process.\<close>

definition running :: "sched_t \<Rightarrow> bool" where
  "running s \<longleftrightarrow> proc_current s \<noteq> 0 \<and> proc_current s \<noteq> proc_idle s"

lemma proc_yield_inv:
  assumes "sched_inv_as st s rs ws"
  shows "\<exists>s'. proc_yield s = Some s' \<and> sched_inv_as st s' rs ws \<and> tasks s' rs ws = tasks s rs ws \<and> same_memory s s'"
proof -
  from assms obtain c f where ent: "enter s = Some (s\<lparr>cpu := c, sched_lock := 1, frame_flags := f\<rparr>)"
    by (auto simp: sched_inv_as_def elim: enter_free)
  let ?c = "proc_current s"
  let ?h = "(procs s)(?c := (procs s ?c)\<lparr>p_time_end := pit_systime_msec s\<rparr>)"
  let ?s = "s\<lparr>cpu := c, sched_lock := 1, frame_flags := f, procs := ?h\<rparr>"
  have "plist ?h a ps = plist (procs s) a ps" for a ps
    by (rule plist_cong) simp
  moreover have "p_state (?h x) = p_state (procs s x)" for x by simp
  ultimately have "sched_core ?s rs ws" "at_rest_as st ?s rs ws" "tasks ?s rs ws = tasks s rs ws"
    using assms by (simp_all add: sched_inv_as_def sched_core_def at_rest_as_def tasks_def owns_def queues_def
        del: fun_upd_apply)
  moreover have "proc_yield s = Some (leave ?s)" by (simp add: proc_yield_def ent)
  ultimately show ?thesis by (simp add: sched_inv_as_def)
qed

text \<open>
  What \<^verbatim>\<open>proc_sleep_msec\<close> does before it runs the scheduler: the current process waits at the front of the queue,
  and whether it is to be woken at once depends on its time alone.
\<close>

lemma proc_sleep_msec_waits:
  assumes inv: "sched_inv_as q0 s rs ws" and run: "running s"
  shows "\<exists>t. proc_sleep_msec msec s = do { s \<leftarrow> proc_schedule t; Some (leave s) } \<and>
    sched_core t rs (proc_current s # ws) \<and> proc_current t = proc_current s \<and> running t \<and>
    (due t (proc_current s) \<longleftrightarrow> pit_systime_msec s + msec \<le> pit_systime_msec s) \<and>
    tasks t rs (proc_current s # ws) = tasks s rs ws \<and> same_memory s t"
proof -
  let ?c = "proc_current s"
  from inv obtain c f where ent: "enter s = Some (s\<lparr>cpu := c, sched_lock := 1, frame_flags := f\<rparr>)"
    by (auto simp: sched_inv_as_def elim: enter_free)
  let ?p = "(procs s ?c)\<lparr>p_time_end := pit_systime_msec s + msec, p_next := waiting_q s,
      p_state := PROC_SLEEP\<rparr>"
  let ?s = "s\<lparr>cpu := c, sched_lock := 1, frame_flags := f, waiting_q := ?c, procs := (procs s)(?c := ?p)\<rparr>"
  have c: "?c \<noteq> 0" "?c \<noteq> proc_idle s" "?c \<notin> set (rs @ ws)"
    using inv run by (auto simp: running_def sched_inv_as_def at_rest_as_def)
  have "sched_core ?s rs (?c # ws)"
    using inv c by (auto simp: sched_inv_as_def sched_core_def queues_def plist_notin tasks_def owns_def)
  moreover have "due ?s ?c \<longleftrightarrow> pit_systime_msec s + msec \<le> pit_systime_msec s" by (simp add: due_def)
  moreover have "tasks ?s rs (?c # ws) = tasks s rs ws" using c by (auto simp: tasks_def)
  moreover have "proc_sleep_msec msec s = do { s \<leftarrow> proc_schedule ?s; Some (leave s) }"
    by (simp add: proc_sleep_msec_def ent)
  moreover have "proc_current ?s = ?c" "running ?s" "same_memory s ?s" using c by (simp_all add: running_def)
  ultimately show ?thesis by blast
qed

lemma proc_sleep_msec_inv:
  assumes inv: "sched_inv_as q0 s rs ws" and run: "running s"
    and later: "\<not> pit_systime_msec s + msec \<le> pit_systime_msec s"
  shows "\<exists>s' rs' ws'. proc_sleep_msec msec s = Some s' \<and> sched_inv s' rs' ws' \<and>
    tasks s' rs' ws' = tasks s rs ws \<and> same_memory s s'"
proof -
  from proc_sleep_msec_waits [OF inv run, of msec] later obtain t where
    t: "proc_sleep_msec msec s = do { s \<leftarrow> proc_schedule t; Some (leave s) }" "sched_core t rs (proc_current s # ws)"
      "proc_current t = proc_current s" "\<not> due t (proc_current s)"
      "tasks t rs (proc_current s # ws) = tasks s rs ws" "same_memory s t" by blast
  have "at_rest t rs (proc_current s # ws) \<or> proc_current t \<in> set (proc_current s # ws) \<and> \<not> due t (proc_current t)"
    using t(3,4) by simp
  from schedule_leave_inv [OF t(2) this] show ?thesis using t(1,5,6) by auto
qed

lemma nblocks_PROC_SIZE [simp]: "nblocks PROC_SIZE = 1"
  by (simp add: nblocks_def PROC_SIZE_def KB_def)

lemma proc_exit_inv:
  assumes inv: "sched_inv_as st s rs ws" and run: "running s"
  shows "\<exists>s' rs' ws'. proc_exit s = Some s' \<and> sched_inv s' rs' ws' \<and>
    tasks s' rs' ws' = tasks s rs ws - {proc_current s} \<and> proc_idle s' = proc_idle s \<and>
    (\<exists>b<1024. proc_current s = pmman_block_addr b \<and>
       in_use (pmman_kernel_map s') = in_use (pmman_kernel_map s) - {b})"
proof -
  let ?c = "proc_current s" and ?m = "pmman_kernel_map s"
  from inv obtain c f where ent: "enter s = Some (s\<lparr>cpu := c, sched_lock := 1, frame_flags := f\<rparr>)"
    by (auto simp: sched_inv_as_def elim: enter_free)
  have c: "?c \<noteq> 0" "?c \<noteq> proc_idle s" "?c \<notin> set (rs @ ws)" and core: "sched_core s rs ws"
    using inv run by (auto simp: running_def sched_inv_as_def at_rest_as_def)
  then have "owns s ?c" by (auto simp: sched_core_def tasks_def)
  then obtain b where b: "b < 1024" "?c = pmman_block_addr b" by (auto simp: owns_def)
  then have "b \<noteq> 0" using c(1) pm.block_addr_zero by metis
  from core have "pmman_inv ?m" by (simp add: sched_core_def)
  from pm.free_some [OF this b(1), of PROC_SIZE] b obtain mp where
    mp: "pmman_free ?m ?c PROC_SIZE = Some mp" "pmman_inv mp" "in_use mp = in_use ?m - {b}"
    by auto
  let ?s = "s\<lparr>cpu := c, sched_lock := 1, frame_flags := f, pmman_kernel_map := mp, proc_current := 0\<rparr>"
  have T: "tasks ?s rs ws = tasks s rs ws - {?c}" using c by (auto simp: tasks_def)
  have keep: "owns ?s p" if "owns s p" "p \<noteq> ?c" for p
    using that b mp(3) by (auto simp: owns_def)
  have "sched_core ?s rs ws"
    using core c keep mp(2,3) T \<open>b \<noteq> 0\<close> by (auto simp: sched_core_def queues_def)
  moreover have "at_rest ?s rs ws" by (simp add: at_rest_as_def)
  moreover have "proc_exit s = do { s \<leftarrow> proc_schedule ?s; Some (leave s) }"
    by (simp add: proc_exit_def ent mp)
  ultimately obtain s' rs' ws' where s': "proc_exit s = Some s'" "sched_inv s' rs' ws'" "tasks s' rs' ws' = tasks ?s rs ws"
    and same: "same_memory ?s s'" using schedule_leave_inv [of ?s rs ws] by metis
  have "in_use (pmman_kernel_map s') = in_use ?m - {b}" "proc_idle s' = proc_idle s" using same mp(3) by simp_all
  with s' b show ?thesis unfolding T by blast
qed

lemma call1_init_fields [simp]:
  "procs (call1 (proc_init st) p s) = (procs s)(p := (procs s p)\<lparr>p_sp := p_sp (procs s p) - 32\<rparr>)"
  "frame_flags (call1 (proc_init st) p s) = (frame_flags s)(p := proc_startup_flags)"
  "proc_current (call1 (proc_init st) p s) = proc_current s"
  "proc_idle (call1 (proc_init st) p s) = proc_idle s" "ready_q (call1 (proc_init st) p s) = ready_q s"
  "blocked_q (call1 (proc_init st) p s) = blocked_q s" "waiting_q (call1 (proc_init st) p s) = waiting_q s"
  "sched_lock (call1 (proc_init st) p s) = sched_lock s"
  "pit_systime_msec (call1 (proc_init st) p s) = pit_systime_msec s"
  "pmman_kernel_map (call1 (proc_init st) p s) = pmman_kernel_map s"
  "stack_owner (call1 (proc_init st) p s) = stack_owner s"
  by (simp_all add: call1_def proc_init_def pop_def Let_def)

lemma owns_fresh:
  assumes "owns s q" and "t < 1024" and "t \<notin> in_use (pmman_kernel_map s)"
  shows "q \<noteq> pmman_block_addr t"
proof
  assume "q = pmman_block_addr t"
  with assms(1) obtain b where b: "b < 1024" "pmman_block_addr b = pmman_block_addr t"
    "b \<in> in_use (pmman_kernel_map s)" by (auto simp: owns_def)
  from arg_cong [OF b(2), of unat] have "b = t"
    unfolding unat_block_addr [OF b(1)] unat_block_addr [OF assms(2)] by simp
  with assms(3) b(3) show False by simp
qed

lemma sched_inv_new_proc:
  assumes inv: "sched_inv_as q0 s rs ws" and new: "p \<notin> insert (proc_idle s) (tasks s rs ws)" "p \<noteq> 0"
    and upd: "procs s' = (procs s)(p := v)" "proc_current s' = proc_current s" "proc_idle s' = proc_idle s"
      "ready_q s' = ready_q s" "waiting_q s' = waiting_q s" "sched_lock s' = 0"
      "pmman_inv (pmman_kernel_map s')" "in_use (pmman_kernel_map s) \<subseteq> in_use (pmman_kernel_map s')"
  shows "sched_inv_as q0 s' rs ws \<and> tasks s' rs ws = tasks s rs ws"
proof -
  have p: "p \<notin> set (rs @ ws)" "p \<noteq> proc_current s" "p \<noteq> proc_idle s"
    using new by (auto simp: tasks_def)
  have T: "tasks s' rs ws = tasks s rs ws" by (simp add: tasks_def upd)
  have eq: "procs s' x = procs s x" if "x \<noteq> p" for x using that upd(1) by simp
  have "plist (procs s') a ps = plist (procs s) a ps" if "p \<notin> set ps" for a ps
    unfolding upd(1) by (rule plist_notin [OF that])
  then have "queues s' rs ws"
    using inv p(1) unfolding sched_inv_as_def sched_core_def queues_def upd(4,5) by simp
  moreover have "at_rest_as q0 s' rs ws"
    using inv p(2) unfolding sched_inv_as_def at_rest_as_def upd(2,3) by (simp add: eq)
  moreover have "\<forall>q \<in> insert (proc_idle s) (tasks s rs ws). owns s' q"
    using inv upd(8) unfolding sched_inv_as_def sched_core_def owns_def by blast
  moreover have "p_state (procs s' (proc_idle s)) = PROC_IDLE" "\<forall>q \<in> set ws. p_state (procs s' q) = PROC_SLEEP"
    using inv p eq unfolding sched_inv_as_def sched_core_def by (auto, metis)
  moreover have "0 \<in> in_use (pmman_kernel_map s')" "proc_idle s \<noteq> 0" "proc_idle s \<notin> set (rs @ ws)"
    using inv upd(8) unfolding sched_inv_as_def sched_core_def by blast+
  ultimately show ?thesis
    using upd(7) unfolding sched_inv_as_def sched_core_def T upd(2,3,6) by (simp add: T)
qed

lemma proc_create_inv:
  assumes inv: "sched_inv_as q0 s rs ws"
  shows "\<exists>p s'. proc_create st entry name s = Some (p, s') \<and>
    (p \<noteq> 0 \<longrightarrow> sched_inv_as q0 s' rs ws \<and> tasks s' rs ws = tasks s rs ws \<and> owns s' p \<and>
       p \<notin> insert (proc_idle s') (tasks s' rs ws))"
proof -
  let ?m = "pmman_kernel_map s"
  have m: "pmman_inv ?m" "0 \<in> in_use ?m" using inv by (auto simp: sched_inv_as_def sched_core_def)
  obtain p mp where al: "pmman_alloc ?m PROC_SIZE = Some (p, mp)" "pmman_inv mp"
    using pm.alloc_returns [OF m(1)] by blast
  then obtain s' where s': "proc_create st entry name s = Some (p, s')"
    and upd: "\<exists>v. procs s' = (procs s)(p := v)" "proc_current s' = proc_current s" "proc_idle s' = proc_idle s"
      "ready_q s' = ready_q s" "waiting_q s' = waiting_q s" "sched_lock s' = sched_lock s"
      "pmman_kernel_map s' = mp"
    by (auto simp: proc_create_def)
  have "sched_inv_as q0 s' rs ws \<and> tasks s' rs ws = tasks s rs ws \<and> owns s' p \<and>
       p \<notin> insert (proc_idle s') (tasks s' rs ws)" if nz: "p \<noteq> 0"
  proof -
    obtain t where t: "p = pmman_block_addr t" "t < 1024" "t \<notin> in_use ?m" "in_use mp = insert t (in_use ?m)"
      using pm.alloc_claims [OF m al(1) nz] by auto
    have own: "\<forall>q \<in> insert (proc_idle s) (tasks s rs ws). owns s q"
      using inv by (auto simp: sched_inv_as_def sched_core_def)
    have new: "p \<notin> insert (proc_idle s) (tasks s rs ws)"
    proof
      assume "p \<in> insert (proc_idle s) (tasks s rs ws)"
      with own have "owns s p" by (rule bspec)
      from owns_fresh [OF this t(2,3)] t(1) show False by simp
    qed
    from upd(1) obtain v where "procs s' = (procs s)(p := v)" ..
    from sched_inv_new_proc [OF inv new nz this] have "sched_inv_as q0 s' rs ws \<and> tasks s' rs ws = tasks s rs ws"
      using upd(2-) al(2) t(4) inv by (auto simp: sched_inv_as_def)
    moreover have "owns s' p" using t upd(7) by (auto simp: owns_def)
    ultimately show ?thesis using new upd(3) by auto
  qed
  with s' show ?thesis by blast
qed

lemma proc_register_inv:
  assumes inv: "sched_inv_as q0 s rs ws" and new: "p \<notin> insert (proc_idle s) (tasks s rs ws)" "p \<noteq> 0"
    and own: "owns s p"
  shows "\<exists>s'. proc_register p s = Some s' \<and> sched_inv_as q0 s' (p # rs) ws \<and>
    tasks s' (p # rs) ws = insert p (tasks s rs ws)"
proof -
  from inv obtain c f where ent: "enter s = Some (s\<lparr>cpu := c, sched_lock := 1, frame_flags := f\<rparr>)"
    by (auto simp: sched_inv_as_def elim: enter_free)
  let ?v = "(procs s p)\<lparr>p_state := PROC_READY, p_next := ready_q s\<rparr>"
  let ?s = "s\<lparr>cpu := c, sched_lock := 1, frame_flags := f, procs := (procs s)(p := ?v), ready_q := p\<rparr>"
  have p: "p \<notin> set (rs @ ws)" "p \<noteq> proc_current s" "p \<noteq> proc_idle s"
    using new by (auto simp: tasks_def)
  have T: "tasks ?s (p # rs) ws = insert p (tasks s rs ws)" by (auto simp: tasks_def)
  have Q: "queues ?s (p # rs) ws" "at_rest_as q0 ?s (p # rs) ws"
    using inv p new(2) by (auto simp: sched_inv_as_def sched_core_def at_rest_as_def queues_def plist_notin)
  have O: "owns ?s q = owns s q" for q by (simp add: owns_def)
  have "sched_core ?s (p # rs) ws"
    unfolding sched_core_def T O using inv Q(1) own p
    by (auto simp: sched_inv_as_def sched_core_def)
  moreover have "proc_register p s = Some (leave ?s)" by (simp add: proc_register_def ent)
  ultimately show ?thesis using T Q(2) by (simp add: sched_inv_as_def)
qed

section \<open>Sleeps that are over at once\<close>

text \<open>
  A sleep of 0 milliseconds, or one past the end of the 32-bit clock, is over before the scheduler looks at
  the queue.  If nobody was woken after the process, the scheduler takes it right back: it goes on running in the
  state ready, in no queue.
\<close>

lemma proc_schedule_short:
  assumes core: "sched_core s rs (proc_current s # ws)" and run: "running s" and due: "due s (proc_current s)"
  shows "\<exists>s' rs' ws' q. proc_schedule s = Some s' \<and> sched_core s' rs' ws' \<and> at_rest_as q s' rs' ws' \<and>
    (q = PROC_ACTIVE \<or> q = PROC_READY \<and> proc_current s' = proc_current s) \<and>
    tasks s' rs' ws' = tasks s rs (proc_current s # ws) \<and> sched_frame s s'"
proof -
  let ?c = "proc_current s" and ?d = "rev (filter (due s) ws)" and ?ws = "filter (\<lambda>p. \<not> due s p) ws"
  have Q: "queues s rs (?c # ws)" and idle: "proc_idle s \<noteq> 0" "p_state (procs s (proc_idle s)) = PROC_IDLE"
      "proc_idle s \<notin> set (rs @ ?c # ws)"
    and sl: "\<And>p. p \<in> set ws \<Longrightarrow> p_state (procs s p) = PROC_SLEEP"
    using core by (auto simp: sched_core_def)
  have nn: "0 \<notin> set (rs @ ?c # ws)" using Q plist_nonnull by (auto simp: queues_def)
  obtain s1 where "woken rs (?c # ws) s s1" using proc_wake_woken [OF Q] ..
  then have loop: "proc_wake_loop WaitingQ s = Some s1" and F: "sched_frame s s1"
    and c1: "proc_current s1 = ?c" and Q1: "queues s1 (?d @ ?c # rs) ?ws"
    and st: "\<And>x. p_state (procs s1 x) = (if x \<in> set (?c # ws) \<and> due s x then PROC_READY else p_state (procs s x))"
    using due by (auto simp: woken_def relinked_def)
  have eq: "proc_idle s1 = proc_idle s" "pmman_kernel_map s1 = pmman_kernel_map s"
    using F by (simp_all add: sched_frame_def)
  have "ready_q s1 = 0 \<longleftrightarrow> ?d @ ?c # rs = []"
    using Q1 by (intro plist_null_iff [of "procs s1"]) (simp add: queues_def)
  then have sched: "proc_schedule s = Some (proc_take_next s1)"
    using due c1 by (auto simp: proc_schedule_def loop Let_def st proc_states)
  have T: "tasks s rs (?c # ws) = set rs \<union> set ws \<union> {?c}" using run by (auto simp: tasks_def running_def)
  have pm: "pmman_inv (pmman_kernel_map s)" "0 \<in> in_use (pmman_kernel_map s)"
    and own: "\<forall>p \<in> insert (proc_idle s) (tasks s rs (?c # ws)). owns s p" using core by (simp_all add: sched_core_def)
  have goal: ?thesis
    if t: "proc_take_next s1 = t" "queues t rs' ?ws" "sched_frame s t" "at_rest_as q t rs' ?ws"
      "q = PROC_ACTIVE \<or> q = PROC_READY \<and> proc_current t = ?c"
      and S: "\<And>x. x \<noteq> proc_current t \<Longrightarrow> p_state (procs t x) = p_state (procs s1 x)"
      and cur: "proc_current t \<in> set ws \<union> set rs \<union> {?c}" "proc_current t \<notin> set (rs' @ ?ws)"
      and all: "set rs' \<union> set ?ws \<union> {proc_current t} = set rs \<union> set ws \<union> {?c}" for t rs' q
  proof -
    have eq': "proc_idle t = proc_idle s" "pmman_kernel_map t = pmman_kernel_map s"
      using t(3) by (simp_all add: sched_frame_def)
    have ni: "proc_current t \<noteq> 0" "proc_current t \<noteq> proc_idle s" using cur(1) idle(3) nn by auto
    have T': "tasks t rs' ?ws = tasks s rs (?c # ws)"
    proof -
      from ni have "{proc_current t} - {0, proc_idle s} = {proc_current t}" by simp
      then have "tasks t rs' ?ws = set rs' \<union> set ?ws \<union> {proc_current t}" by (simp only: tasks_def eq')
      then show ?thesis by (simp only: all T)
    qed
    have ow: "owns t p = owns s p" for p by (simp add: owns_def eq')
    have "p_state (procs t (proc_idle s)) = PROC_IDLE"
      using S [of "proc_idle s"] ni idle by (auto simp: st)
    moreover have "p_state (procs t p) = PROC_SLEEP" if "p \<in> set ?ws" for p
      using S [of p] cur(2) sl [of p] that Q by (auto simp: st queues_def)
    moreover have "proc_idle s \<notin> set (rs' @ ?ws)"
    proof
      assume "proc_idle s \<in> set (rs' @ ?ws)"
      then have "proc_idle s \<in> set rs \<union> set ws \<union> {?c}" unfolding all [symmetric] by simp
      with idle(3) show False by simp
    qed
    ultimately have "sched_core t rs' ?ws"
      using t(2) pm own idle(1) unfolding sched_core_def T' ow eq' by blast
    with t T' sched show ?thesis by blast
  qed
  show ?thesis
  proof (cases ?d)
    case Nil
    let ?t = "proc_take_next s1"
    have Q1': "queues s1 (?c # rs) ?ws" using Q1 Nil by simp
    have dw: "set ws = set ?ws"
    proof -
      have "filter (due s) ws = []" using Nil by simp
      then show ?thesis by (auto simp: filter_empty_conv)
    qed
    have r: "ready_q s1 = ?c" using Q1' by (simp add: queues_def)
    let ?h = "(procs s1)(?c := (procs s1 ?c)\<lparr>p_next := 0\<rparr>)"
    have t: "?t = s1\<lparr>ready_q := p_next (procs s1 ?c), procs := ?h\<rparr>"
      by (simp add: proc_take_next_def Let_def r c1)
    have q: "queues ?t rs ?ws"
      using Q1' unfolding t by (auto simp: queues_def plist_notin)
    have f: "sched_frame s ?t" using F unfolding t by (simp add: sched_frame_def c1)
    have c: "?c \<notin> set (rs @ ?ws)" using Q1' by (auto simp: queues_def)
    have a: "at_rest_as PROC_READY ?t rs ?ws"
      using c due unfolding t at_rest_as_def by (simp add: c1 st)
    have cur: "proc_current ?t = ?c" and S: "\<And>x. x \<noteq> ?c \<Longrightarrow> p_state (procs ?t x) = p_state (procs s1 x)"
      by (simp_all add: t c1)
    show ?thesis
    proof (rule goal [OF refl q f a])
      show "PROC_READY = PROC_ACTIVE \<or> PROC_READY = PROC_READY \<and> proc_current ?t = ?c" using cur by simp
      show "p_state (procs ?t x) = p_state (procs s1 x)" if "x \<noteq> proc_current ?t" for x using S that cur by simp
      show "proc_current ?t \<in> set ws \<union> set rs \<union> {?c}" unfolding cur by simp
      show "proc_current ?t \<notin> set (rs @ ?ws)" unfolding cur by (rule c)
      show "set rs \<union> set ?ws \<union> {proc_current ?t} = set rs \<union> set ws \<union> {?c}" by (simp only: cur dw [symmetric])
    qed
  next
    case (Cons p qs)
    let ?t = "proc_take_next s1"
    have pd: "p \<in> set ws" "due s p"
    proof -
      have "p \<in> set ?d" unfolding Cons by simp
      then show "p \<in> set ws" "due s p" by auto
    qed
    then have pc: "p \<noteq> ?c" using Q by (auto simp: queues_def)
    have Q1': "queues s1 (p # qs @ ?c # rs) ?ws" using Q1 unfolding Cons by simp
    from proc_take_next_lists [OF Q1'] pc c1 have
      q: "queues ?t (qs @ ?c # rs) ?ws" and sw: "switched_to p s1 ?t" by simp_all
    have cur: "proc_current ?t = p" and f: "sched_frame s ?t"
      and S: "\<And>x. p_state (procs ?t x) = (if x = p then PROC_ACTIVE else p_state (procs s1 x))"
      using sw F pc by (auto simp: switched_to_def sched_frame_def c1)
    have np: "p \<notin> set ((qs @ ?c # rs) @ ?ws)" using Q1' by (auto simp: queues_def)
    have a: "at_rest ?t (qs @ ?c # rs) ?ws" using np unfolding at_rest_as_def cur S by simp
    have dset: "set ws = insert p (set qs) \<union> set ?ws"
    proof -
      have "set ws = set ?d \<union> set ?ws" by auto
      then show ?thesis unfolding Cons by simp
    qed
    show ?thesis
    proof (rule goal [OF refl q f a])
      show "PROC_ACTIVE = PROC_ACTIVE \<or> PROC_ACTIVE = PROC_READY \<and> proc_current ?t = ?c" by simp
      show "p_state (procs ?t x) = p_state (procs s1 x)" if "x \<noteq> proc_current ?t" for x using S that cur by simp
      show "proc_current ?t \<in> set ws \<union> set rs \<union> {?c}" unfolding cur using pd(1) by simp
      show "proc_current ?t \<notin> set ((qs @ ?c # rs) @ ?ws)" unfolding cur by (rule np)
      show "set (qs @ ?c # rs) \<union> set ?ws \<union> {proc_current ?t} = set rs \<union> set ws \<union> {?c}"
        unfolding cur dset by (simp add: Un_ac insert_commute)
    qed
  qed
qed

text \<open>The next run of the scheduler switches away from such a process and puts it back nowhere.\<close>

lemma proc_schedule_drops:
  assumes core: "sched_core s rs ws" and rest: "at_rest_as PROC_READY s rs ws" and run: "running s"
  shows "\<exists>s' rs' ws'. proc_schedule s = Some s' \<and> sched_core s' rs' ws' \<and> at_rest s' rs' ws' \<and>
    tasks s' rs' ws' = tasks s rs ws - {proc_current s} \<and> sched_frame s s'"
proof -
  let ?c = "proc_current s"
  define R W where "R = rev (filter (due s) ws) @ rs" and "W = filter (\<lambda>p. \<not> due s p) ws"
  note RW = R_def W_def
  have Q: "queues s rs ws" and idle: "proc_idle s \<noteq> 0" "p_state (procs s (proc_idle s)) = PROC_IDLE"
      "proc_idle s \<notin> set (rs @ ws)"
    and sl: "\<And>p. p \<in> set ws \<Longrightarrow> p_state (procs s p) = PROC_SLEEP"
    using core by (auto simp: sched_core_def)
  have nn: "0 \<notin> set (rs @ ws)" using Q plist_nonnull by (auto simp: queues_def)
  have c: "?c \<noteq> 0" "?c \<noteq> proc_idle s" "?c \<notin> set (rs @ ws)" "p_state (procs s ?c) = PROC_READY"
    using rest run by (auto simp: at_rest_as_def running_def)
  have "cur_ok s rs ws" using c(3) by (simp add: cur_ok_def)
  from proc_schedule_lists [OF Q this] c(2) obtain s' rs' ws' where
    run': "proc_schedule s = Some s'" and Q': "queues s' rs' ws'"
    and spec: "schedule_spec s rs ws = (proc_current s', rs', ws')" and post: "sched_post s rs ws s'" by auto
  have F: "sched_frame s s'" using post by (simp add: sched_post_def)
  then have eq: "proc_idle s' = proc_idle s" "pmman_kernel_map s' = pmman_kernel_map s"
    by (simp_all add: sched_frame_def)
  have st: "p_state (procs s' x) =
        (if x = proc_current s' \<and> x \<noteq> ?c \<and> R \<noteq> [] then PROC_ACTIVE
         else if x \<in> set ws \<and> due s x then PROC_READY else p_state (procs s x))" for x
    using post by (simp add: sched_post_def RW)
  have D: "distinct (R @ W)" and all: "set R \<union> set W = set rs \<union> set ws" using Q by (auto simp: queues_def RW)
  have W: "set W \<subseteq> set ws" "\<And>x. x \<in> set W \<Longrightarrow> \<not> due s x" "set R \<subseteq> set (rs @ ws)" by (auto simp: RW)
  have res: "ws' = W \<and> (if R = [] then proc_current s' = proc_idle s \<and> rs' = []
      else R = proc_current s' # rs')"
  proof (cases R)
    case Nil
    then show ?thesis using spec c idle(1) by (auto simp: schedule_spec_def Let_def proc_states simp flip: RW)
  next
    case (Cons p qs)
    then show ?thesis using spec c by (simp add: schedule_spec_def Let_def proc_states flip: RW)
  qed
  then have dist: "distinct (proc_current s' # rs' @ ws') \<or> R = []" using D by (cases R) auto
  have set': "set rs' \<union> set ws' \<union> ({proc_current s'} - {0, proc_idle s}) = set rs \<union> set ws"
  proof (cases "R = []")
    case True
    with res all show ?thesis by auto
  next
    case False
    with res have r: "R = proc_current s' # rs'" by simp
    then have "proc_current s' \<in> set rs \<union> set ws" using all by auto
    then have "proc_current s' \<noteq> 0" "proc_current s' \<noteq> proc_idle s" using nn idle by auto
    with res all show ?thesis unfolding r by auto
  qed
  have T: "tasks s' rs' ws' = tasks s rs ws - {?c}"
    unfolding tasks_def eq set' using c by auto
  have cur: "proc_current s' = proc_idle s \<or> proc_current s' \<notin> set (rs' @ ws') \<and> proc_current s' \<noteq> ?c \<and> R \<noteq> []"
    using res dist set' c by (cases "R = []") auto
  then have rest': "at_rest s' rs' ws'" by (auto simp: at_rest_as_def eq st)
  have "p_state (procs s' p) = PROC_SLEEP" if "p \<in> set ws'" for p
  proof -
    have "p \<in> set ws" "\<not> due s p" using that res W by auto
    moreover have "p \<noteq> proc_current s' \<or> R = []" using dist that by auto
    ultimately show ?thesis using sl by (auto simp: st)
  qed
  moreover have "p_state (procs s' (proc_idle s)) = PROC_IDLE"
  proof -
    have "R \<noteq> [] \<Longrightarrow> proc_current s' \<in> set R" using res by auto
    then have "R \<noteq> [] \<Longrightarrow> proc_current s' \<noteq> proc_idle s" using idle(3) W(3) by auto
    then show ?thesis using idle by (auto simp: st)
  qed
  moreover have "proc_idle s \<notin> set (rs' @ ws')" using set' idle(3) by auto
  moreover have "owns s' p \<longleftrightarrow> owns s p" for p by (simp add: owns_def eq)
  ultimately have "sched_core s' rs' ws'" using Q' core T by (auto simp: sched_core_def eq)
  with run' rest' T F show ?thesis by blast
qed

text \<open>
  The invariant of a system whose processes may sleep for any time: a process that runs on in the state ready is
  lost at the next timer interrupt, unless it exits or sleeps again.
\<close>

definition sched_ok :: "sched_t \<Rightarrow> addr list \<Rightarrow> addr list \<Rightarrow> bool" where
  "sched_ok s rs ws \<longleftrightarrow> sched_inv_as PROC_ACTIVE s rs ws \<or> sched_inv_as PROC_READY s rs ws \<and> running s"

definition stray :: "sched_t \<Rightarrow> addr list \<Rightarrow> addr list \<Rightarrow> addr set" where
  "stray s rs ws = (if sched_inv_as PROC_ACTIVE s rs ws then {} else {proc_current s})"

lemma sched_okI: "sched_inv_as q s rs ws \<Longrightarrow> q = PROC_ACTIVE \<or> q = PROC_READY \<Longrightarrow> sched_ok s rs ws"
  by (auto simp: sched_ok_def sched_inv_as_def at_rest_as_def running_def)

lemma sched_okE:
  assumes "sched_ok s rs ws"
  obtains q where "sched_inv_as q s rs ws" "q = PROC_ACTIVE \<and> stray s rs ws = {} \<or>
    q = PROC_READY \<and> running s \<and> stray s rs ws = {proc_current s}"
  using assms by (cases "sched_inv_as PROC_ACTIVE s rs ws") (auto simp: sched_ok_def stray_def)

lemma sched_ok_core: "sched_ok s rs ws \<Longrightarrow> sched_core s rs ws"
  by (auto simp: sched_ok_def sched_inv_as_def)

lemma stray_subset: "stray s rs ws \<subseteq> {proc_current s}"
  by (simp add: stray_def)

lemma stray_active [simp]: "sched_inv_as PROC_ACTIVE s rs ws \<Longrightarrow> stray s rs ws = {}"
  by (simp add: stray_def)

lemma irq_pit_ok:
  assumes "sched_ok s rs ws"
  shows "\<exists>s' rs' ws'. irq_pit s = Some s' \<and> sched_inv s' rs' ws' \<and>
    tasks s' rs' ws' = tasks s rs ws - stray s rs ws \<and> same_memory s s'"
  using assms
proof (rule sched_okE)
  fix q assume inv: "sched_inv_as q s rs ws" and q: "q = PROC_ACTIVE \<and> stray s rs ws = {} \<or>
    q = PROC_READY \<and> running s \<and> stray s rs ws = {proc_current s}"
  show ?thesis
  proof (cases "q = PROC_ACTIVE")
    case True
    with inv q irq_pit_inv [of s rs ws] show ?thesis by (auto simp: proc_states)
  next
    case False
    let ?s = "pit_handle_interrupt s"
    have s: "sched_core ?s rs ws" "at_rest_as PROC_READY ?s rs ws" "tasks ?s rs ws = tasks s rs ws" "sched_lock ?s = 0"
        "same_memory s ?s" "running ?s" "proc_current ?s = proc_current s"
      using inv q False by (auto simp: sched_inv_as_def sched_core_def at_rest_as_def tasks_def owns_def
          queues_def running_def pit_handle_interrupt_def)
    from s(4) obtain c f where ent: "enter ?s = Some (?s\<lparr>cpu := c, sched_lock := 1, frame_flags := f\<rparr>)" (is "_ = Some ?u")
      by (rule enter_free)
    have "running ?u" using s(6) by (simp add: running_def)
    with proc_schedule_drops [of ?u rs ws] s(1,2) obtain s' rs' ws' where
      s': "proc_schedule ?u = Some s'" "sched_core s' rs' ws'" "at_rest s' rs' ws'"
        "tasks s' rs' ws' = tasks s rs ws - {proc_current s}" "sched_frame ?u s'"
      using s(3,7) by auto
    have "irq_pit s = Some (leave s')" by (simp add: irq_pit_def ent s'(1))
    moreover have "sched_inv (leave s') rs' ws'" "tasks (leave s') rs' ws' = tasks s rs ws - stray s rs ws"
      "same_memory s (leave s')"
      using s'(2-5) s(5) q False by (auto simp: sched_inv_as_def sched_frame_def)
    ultimately show ?thesis by blast
  qed
qed

lemma proc_sleep_msec_ok:
  assumes "sched_ok s rs ws" and run: "running s"
  shows "\<exists>s' rs' ws'. proc_sleep_msec msec s = Some s' \<and> sched_ok s' rs' ws' \<and>
    tasks s' rs' ws' = tasks s rs ws \<and> same_memory s s' \<and>
    stray s' rs' ws' \<subseteq> (if pit_systime_msec s + msec \<le> pit_systime_msec s then {proc_current s} else {})"
proof -
  from assms(1) obtain q where inv: "sched_inv_as q s rs ws" by (rule sched_okE)
  show ?thesis
  proof (cases "pit_systime_msec s + msec \<le> pit_systime_msec s")
    case False
    from proc_sleep_msec_inv [OF inv run False] obtain s' rs' ws' where
      "proc_sleep_msec msec s = Some s'" "sched_inv s' rs' ws'" "tasks s' rs' ws' = tasks s rs ws" "same_memory s s'" by blast
    moreover from this(2) have "sched_ok s' rs' ws'" "stray s' rs' ws' = {}" by (simp_all add: sched_ok_def)
    ultimately show ?thesis by blast
  next
    case True
    from proc_sleep_msec_waits [OF inv run, of msec] True obtain t where
      t: "proc_sleep_msec msec s = do { s \<leftarrow> proc_schedule t; Some (leave s) }" "sched_core t rs (proc_current t # ws)"
        "proc_current t = proc_current s" "running t" "due t (proc_current t)"
        "tasks t rs (proc_current t # ws) = tasks s rs ws" "same_memory s t" by auto
    from proc_schedule_short [OF t(2,4,5)] obtain s' rs' ws' q' where
      s': "proc_schedule t = Some s'" "sched_core s' rs' ws'" "at_rest_as q' s' rs' ws'"
        "q' = PROC_ACTIVE \<or> q' = PROC_READY \<and> proc_current s' = proc_current t"
        "tasks s' rs' ws' = tasks s rs ws" "sched_frame t s'" unfolding t(6) by blast
    have inv': "sched_inv_as q' (leave s') rs' ws'" using s'(2,3) by (simp add: sched_inv_as_def)
    then have "sched_ok (leave s') rs' ws'" using s'(4) by (auto intro: sched_okI)
    moreover have "stray (leave s') rs' ws' \<subseteq> {proc_current s}"
      using inv' s'(4) t(3) stray_subset [of "leave s'" rs' ws'] by auto
    moreover have "same_memory s (leave s')" using t(7) s'(6) by (simp add: sched_frame_def)
    ultimately show ?thesis using t(1) s'(1,5) True by auto
  qed
qed

lemma proc_yield_ok:
  assumes "sched_ok s rs ws"
  shows "\<exists>s'. proc_yield s = Some s' \<and> sched_ok s' rs ws \<and> tasks s' rs ws = tasks s rs ws \<and> same_memory s s' \<and>
    stray s' rs ws \<subseteq> stray s rs ws"
proof -
  from assms obtain q where inv: "sched_inv_as q s rs ws" and q: "q = PROC_ACTIVE \<and> stray s rs ws = {} \<or>
    q = PROC_READY \<and> running s \<and> stray s rs ws = {proc_current s}" by (rule sched_okE)
  from proc_yield_inv [OF inv] obtain s' where s': "proc_yield s = Some s'" "sched_inv_as q s' rs ws"
    "tasks s' rs ws = tasks s rs ws" "same_memory s s'" by blast
  have "proc_current s' = proc_current s"
    using s'(1) by (auto simp: proc_yield_def enter_def proc_lock_def leave_def proc_release_def Let_def split: bind_splits)
  then have "stray s' rs ws \<subseteq> stray s rs ws" using q s'(2) stray_subset [of s' rs ws] by auto
  moreover have "sched_ok s' rs ws" using sched_okI [OF s'(2)] q by auto
  ultimately show ?thesis using s' by blast
qed

lemma proc_exit_ok:
  assumes "sched_ok s rs ws" and "running s"
  shows "\<exists>s' rs' ws'. proc_exit s = Some s' \<and> sched_inv s' rs' ws' \<and>
    tasks s' rs' ws' = tasks s rs ws - {proc_current s} \<and> proc_idle s' = proc_idle s \<and>
    (\<exists>b<1024. proc_current s = pmman_block_addr b \<and>
       in_use (pmman_kernel_map s') = in_use (pmman_kernel_map s) - {b})"
  using assms(1) by (rule sched_okE) (rule proc_exit_inv [OF _ assms(2)])

lemma proc_create_register_ok:
  assumes "sched_ok s rs ws"
  shows "\<exists>p s1. proc_create st entry name s = Some (p, s1) \<and>
    (p \<noteq> 0 \<longrightarrow> p \<notin> insert (proc_idle s) (tasks s rs ws) \<and> (\<exists>s'. proc_register p s1 = Some s' \<and> sched_ok s' (p # rs) ws \<and>
       tasks s' (p # rs) ws = insert p (tasks s rs ws) \<and> stray s' (p # rs) ws \<subseteq> stray s rs ws))"
proof -
  from assms obtain q where inv: "sched_inv_as q s rs ws" and q: "q = PROC_ACTIVE \<and> stray s rs ws = {} \<or>
    q = PROC_READY \<and> running s \<and> stray s rs ws = {proc_current s}" by (rule sched_okE)
  from proc_create_inv [OF inv, of st entry name] obtain p s1 where c: "proc_create st entry name s = Some (p, s1)"
    and new: "p \<noteq> 0 \<Longrightarrow> sched_inv_as q s1 rs ws \<and> tasks s1 rs ws = tasks s rs ws \<and> owns s1 p \<and>
       p \<notin> insert (proc_idle s1) (tasks s1 rs ws)" by blast
  have fr: "proc_idle s1 = proc_idle s" "proc_current s1 = proc_current s"
    using c by (auto simp: proc_create_def split: bind_splits)
  have "p \<notin> insert (proc_idle s) (tasks s rs ws) \<and> (\<exists>s'. proc_register p s1 = Some s' \<and> sched_ok s' (p # rs) ws \<and>
       tasks s' (p # rs) ws = insert p (tasks s rs ws) \<and> stray s' (p # rs) ws \<subseteq> stray s rs ws)" if nz: "p \<noteq> 0"
  proof -
    from proc_register_inv [of q s1 rs ws p] new [OF nz] nz obtain s' where
      s': "proc_register p s1 = Some s'" "sched_inv_as q s' (p # rs) ws" "tasks s' (p # rs) ws = insert p (tasks s1 rs ws)"
      by blast
    have "proc_current s' = proc_current s"
      using s'(1) fr(2) by (auto simp: proc_register_def enter_def proc_lock_def leave_def proc_release_def Let_def split: bind_splits)
    then have "stray s' (p # rs) ws \<subseteq> stray s rs ws" using q s'(2) stray_subset [of s' "p # rs" ws] by auto
    moreover have "sched_ok s' (p # rs) ws" using sched_okI [OF s'(2)] q by auto
    ultimately show ?thesis using s' new [OF nz] fr(1) by auto
  qed
  with c show ?thesis by blast
qed

section \<open>Runs of the system\<close>

text \<open>
  The operations that may follow each other: a timer interrupt at any time, a call by the running
  process, or the creation and registration of a process.  The event of a sleep names the process, the time
  of the call and the argument.
\<close>

datatype sched_event = Tick | Sleep addr u32 u32 | Yield | Exit addr | Spawn addr

inductive sched_step :: "addr \<Rightarrow> sched_t \<Rightarrow> sched_event \<Rightarrow> sched_t \<Rightarrow> bool" for st where
  tick: "irq_pit s = Some s' \<Longrightarrow> sched_step st s Tick s'"
| sleep: "running s \<Longrightarrow> proc_sleep_msec msec s = Some s' \<Longrightarrow>
    sched_step st s (Sleep (proc_current s) (pit_systime_msec s) msec) s'"
| yield: "running s \<Longrightarrow> proc_yield s = Some s' \<Longrightarrow> sched_step st s Yield s'"
| exit: "running s \<Longrightarrow> proc_exit s = Some s' \<Longrightarrow> sched_step st s (Exit (proc_current s)) s'"
| spawn: "proc_create st entry name s = Some (p, s1) \<Longrightarrow> p \<noteq> 0 \<Longrightarrow> proc_register p s1 = Some s' \<Longrightarrow>
    sched_step st s (Spawn p) s'"

inductive sched_run :: "addr \<Rightarrow> sched_t \<Rightarrow> sched_event list \<Rightarrow> sched_t \<Rightarrow> bool" for st s0 where
  start: "sched_run st s0 [] s0"
| more: "sched_run st s0 evs s \<Longrightarrow> sched_step st s ev s' \<Longrightarrow> sched_run st s0 (evs @ [ev]) s'"

inductive_cases sched_stepE: "sched_step st s ev s'"

fun alive :: "sched_event \<Rightarrow> addr set \<Rightarrow> addr set" where
  "alive (Exit p) A = A - {p}"
| "alive (Spawn p) A = insert p A"
| "alive _ A = A"

text \<open>The processes that called for a sleep that is over at once: of 0 milliseconds, or past the end of the clock.\<close>

fun short_sleep :: "sched_event \<Rightarrow> addr set" where
  "short_sleep (Sleep p t msec) = (if t + msec \<le> t then {p} else {})"
| "short_sleep _ = {}"

definition short_sleepers :: "sched_event list \<Rightarrow> addr set" where
  "short_sleepers evs = (\<Union>ev \<in> set evs. short_sleep ev)"

text \<open>A step keeps the invariant; it costs no process but the one that runs in the state ready.\<close>

lemma sched_step_ok:
  assumes "sched_step st s ev s'" and ok: "sched_ok s rs ws"
  shows "\<exists>rs' ws'. sched_ok s' rs' ws' \<and> tasks s' rs' ws' \<subseteq> alive ev (tasks s rs ws) \<and>
    alive ev (tasks s rs ws) - stray s rs ws \<subseteq> tasks s' rs' ws' \<and>
    stray s' rs' ws' \<subseteq> stray s rs ws \<union> short_sleep ev"
  using assms(1)
proof cases
  case tick
  with irq_pit_ok [OF ok] show ?thesis by (fastforce intro: sched_okI)
next
  case (sleep msec)
  with proc_sleep_msec_ok [OF ok, of msec] show ?thesis by fastforce
next
  case yield
  with proc_yield_ok [OF ok] show ?thesis by fastforce
next
  case exit
  with proc_exit_ok [OF ok] show ?thesis by (fastforce intro: sched_okI)
next
  case (spawn entry name p s1)
  with proc_create_register_ok [OF ok, of st entry name] show ?thesis by fastforce
qed

lemma alive_mono: "A \<subseteq> B \<Longrightarrow> alive ev A \<subseteq> alive ev B"
  by (cases ev) auto

lemma alive_diff: "alive ev A - S \<subseteq> alive ev (A - S)"
  by (cases ev) auto

text \<open>Processes are lost, if at all, to short sleeps.\<close>

definition kept :: "addr set \<Rightarrow> addr set \<Rightarrow> addr set \<Rightarrow> bool" where
  "kept A L T \<longleftrightarrow> T \<subseteq> A \<and> A - L \<subseteq> T"

lemma kept_step:
  assumes "kept A L T" and "T' \<subseteq> alive ev T" and "alive ev T - S \<subseteq> T'" and "S \<subseteq> L" and "L \<subseteq> L'"
  shows "kept (alive ev A) L' T'"
proof -
  have "T' \<subseteq> alive ev A" using assms(1,2) alive_mono [of T A ev] by (auto simp: kept_def)
  moreover have "alive ev A - L \<subseteq> alive ev T"
    using alive_diff [of ev A L] alive_mono [of "A - L" T ev] assms(1) by (auto simp: kept_def)
  ultimately show ?thesis using assms(3-5) unfolding kept_def by blast
qed

lemma sched_run_ok:
  assumes "sched_run st s0 evs s" and "sched_inv s0 rs0 ws0"
  shows "\<exists>rs ws. sched_ok s rs ws \<and> stray s rs ws \<subseteq> short_sleepers evs \<and>
    kept (fold alive evs (tasks s0 rs0 ws0)) (short_sleepers evs) (tasks s rs ws)"
  using assms(1)
proof induction
  case start
  from assms(2) have "sched_ok s0 rs0 ws0" by (auto intro: sched_okI)
  moreover have "kept (tasks s0 rs0 ws0) (short_sleepers []) (tasks s0 rs0 ws0)" by (auto simp: kept_def)
  ultimately show ?case using assms(2) by (intro exI [of _ rs0] exI [of _ ws0]) simp
next
  case (more evs s ev s')
  then obtain rs ws where s: "sched_ok s rs ws" "stray s rs ws \<subseteq> short_sleepers evs"
    "kept (fold alive evs (tasks s0 rs0 ws0)) (short_sleepers evs) (tasks s rs ws)" by blast
  from sched_step_ok [OF more(2) s(1)] obtain rs' ws' where
    s': "sched_ok s' rs' ws'" "tasks s' rs' ws' \<subseteq> alive ev (tasks s rs ws)"
      "alive ev (tasks s rs ws) - stray s rs ws \<subseteq> tasks s' rs' ws'"
      "stray s' rs' ws' \<subseteq> stray s rs ws \<union> short_sleep ev" by blast
  have L: "short_sleepers (evs @ [ev]) = short_sleepers evs \<union> short_sleep ev" by (auto simp: short_sleepers_def)
  from kept_step [OF s(3) s'(2,3) s(2), of "short_sleepers (evs @ [ev])"] s'(1,4) s(2) show ?case
    unfolding L by (intro exI [of _ rs'] exI [of _ ws'] conjI) auto
qed

section \<open>A sample system\<close>

text \<open>Blocks 0 to 3 are in use; block 1 holds the idle process, blocks 2 and 3 two processes.\<close>

definition sample_proc :: "u32 \<Rightarrow> addr \<Rightarrow> proc_t" where
  "sample_proc st nx = \<lparr>p_sp = 0, p_entry = 0, p_next = nx, p_time_end = 0, p_name = 0, p_state = st\<rparr>"

definition sample_sched :: sched_t where
  "sample_sched =
     \<lparr>procs = (\<lambda>p. if p = 0x4000 then sample_proc PROC_IDLE 0
               else if p = 0x8000 then sample_proc PROC_ACTIVE 0 else sample_proc PROC_READY 0),
      stack = (\<lambda>_. 0), cpu = \<lparr>c_ebx = 0, c_esi = 0, c_edi = 0, c_ebp = 0, c_esp = 0x9000, c_eflags = 0x200, c_eip = 0\<rparr>,
      proc_current = 0x8000, proc_idle = 0x4000, ready_q = 0xC000, blocked_q = 0, waiting_q = 0,
      sched_lock = 0, pit_systime_msec = 0,
      pmman_kernel_map = \<lparr>pm_block_size = PMMAN_BLOCK_SIZE_SHIFT, pm_base = 0, pm_bits = 0xF # replicate 31 0\<rparr>,
      stack_owner = 0x8000, frame_flags = (\<lambda>_. 0)\<rparr>"

lemma sample_fields:
  "procs sample_sched 0x4000 = sample_proc PROC_IDLE 0"
  "procs sample_sched 0x8000 = sample_proc PROC_ACTIVE 0"
  "procs sample_sched 0xC000 = sample_proc PROC_READY 0"
  "proc_current sample_sched = 0x8000" "proc_idle sample_sched = 0x4000"
  "ready_q sample_sched = 0xC000" "waiting_q sample_sched = 0" "sched_lock sample_sched = 0"
  "pit_systime_msec sample_sched = 0" "p_next (sample_proc st n) = n" "p_state (sample_proc st n) = st"
  "p_time_end (sample_proc st n) = 0"
  by (simp_all add: sample_sched_def sample_proc_def)

lemma sample_map_inv: "pmman_inv (pmman_kernel_map sample_sched)"
  by (simp add: sample_sched_def pmman_inv_def)

lemma bit_15: "bit (0xF :: u32) 0" "bit (0xF :: u32) 1" "bit (0xF :: u32) 2" "bit (0xF :: u32) 3"
  by code_simp+

lemma sample_map_used:
  assumes "b < 4"
  shows "b \<in> in_use (pmman_kernel_map sample_sched)"
proof -
  have "pm_bits (pmman_kernel_map sample_sched) ! 0 = 0xF" by (simp add: sample_sched_def)
  moreover have "b = 0 \<or> b = 1 \<or> b = 2 \<or> b = 3" using assms by linarith
  ultimately show ?thesis using bit_15 assms by (auto simp: in_use_def used_def)
qed

lemma sample_owns:
  assumes "b < 4"
  shows "owns sample_sched (pmman_block_addr b)"
  unfolding owns_def using sample_map_used [OF assms] assms by (intro exI [of _ b]) simp

lemma sample_sched_inv: "sched_inv sample_sched [0xC000] []"
proof -
  have o: "owns sample_sched 0x4000" "owns sample_sched 0x8000" "owns sample_sched 0xC000"
    using sample_owns [of 1] sample_owns [of 2] sample_owns [of 3] by (simp_all add: pmman_block_addr_def)
  have t: "tasks sample_sched [0xC000] [] = {0x8000, 0xC000}"
    by (auto simp: tasks_def sample_fields)
  show ?thesis
    using o sample_map_used [of 0]
    by (simp add: sched_inv_as_def sched_core_def at_rest_as_def t queues_def sample_map_inv sample_fields)
qed

lemma sample_tasks: "tasks sample_sched [0xC000] [] = {0x8000, 0xC000}"
  by (auto simp: tasks_def sample_fields)

section \<open>Properties\<close>



text \<open>
  C7 \<^verbatim>\<open>proc_schedule\<close> implements the scheduler on lists: it returns, the linked queues after it hold
  the lists the specification computes, and the process it names is the current one.  A woken process
  is ready, one taken from the ready queue is active, and whoever is switched to has a slice of 8
  milliseconds.
\<close>

theorem proc_schedule_refines:
  assumes "queues s rs ws" and "cur_ok s rs ws"
    and "proc_idle s = proc_current s \<Longrightarrow> p_state (procs s (proc_current s)) = PROC_IDLE"
  shows "\<exists>s' rs' ws'. proc_schedule s = Some s' \<and> queues s' rs' ws' \<and>
    schedule_spec s rs ws = (proc_current s', rs', ws') \<and> sched_post s rs ws s'"
  using assms(3) by (intro proc_schedule_lists [OF assms(1,2)]) auto

theorem proc_schedule_refines_witness:
  "\<exists>s'. proc_schedule sample_sched = Some s' \<and> queues s' [0x8000] [] \<and> proc_current s' = 0xC000 \<and>
     p_time_end (procs s' 0xC000) = 8"
proof -
  have "queues sample_sched [0xC000] []" "cur_ok sample_sched [0xC000] []"
    by (simp_all add: queues_def cur_ok_def sample_fields)
  from proc_schedule_refines [OF this] obtain s' rs' ws' where
    "proc_schedule sample_sched = Some s'" "queues s' rs' ws'" "sched_post sample_sched [0xC000] [] s'"
    "schedule_spec sample_sched [0xC000] [] = (proc_current s', rs', ws')"
    by (auto simp: sample_fields)
  then show ?thesis
    by (auto simp: schedule_spec_def sched_post_def sample_fields proc_states)
qed

lemma proc_schedule_goes_idle:
  assumes "ready_q t = 0" and "waiting_q t = 0" and "proc_idle t \<noteq> 0"
    and "p_state (procs t (proc_current t)) = PROC_READY"
  shows "proc_schedule t = Some (call1 proc_switch (proc_idle t) t)"
  using assms by (simp add: proc_schedule_def proc_wake_loop.simps Let_def proc_states)

text \<open>
  C29 A process that sleeps for 0 milliseconds while no other process is ready or waiting is lost: it
  is woken at once, stays current with the state ready and in no queue, and the next timer interrupt
  switches to the idle process without putting it back anywhere.
\<close>

theorem proc_sleep_zero_loses_process:
  assumes "sched_inv s [] []" and "running s"
  shows "\<exists>s1 s2. proc_sleep_msec 0 s = Some s1 \<and> irq_pit s1 = Some s2 \<and>
    proc_current s2 = proc_idle s \<and> queues s2 [] []"
proof -
  let ?c = "proc_current s"
  from assms(1) obtain c f where ent: "enter s = Some (s\<lparr>cpu := c, sched_lock := 1, frame_flags := f\<rparr>)"
    by (auto simp: sched_inv_as_def elim: enter_free)
  have q: "ready_q s = 0" "waiting_q s = 0" "?c \<noteq> 0" "?c \<noteq> proc_idle s" "proc_idle s \<noteq> 0"
    using assms(1,2) by (auto simp: sched_inv_as_def sched_core_def queues_def running_def)
  let ?s = "s\<lparr>cpu := c, sched_lock := 1, frame_flags := f, waiting_q := ?c, procs := (procs s)
      (?c := (procs s ?c)\<lparr>p_time_end := pit_systime_msec s, p_next := 0, p_state := PROC_SLEEP\<rparr>)\<rparr>"
  obtain t where t: "proc_schedule ?s = Some t" "ready_q t = 0" "waiting_q t = 0"
      "proc_idle t = proc_idle s" "p_state (procs t (proc_current t)) = PROC_READY"
    using q by (simp add: proc_schedule_def proc_take_next_def proc_wake_def Let_def proc_states
        proc_wake_loop.simps)
  have s1: "proc_sleep_msec 0 s = Some (leave t)"
    using q t(1) by (simp add: proc_sleep_msec_def ent)
  let ?t = "pit_handle_interrupt (leave t)"
  have eq: "ready_q ?t = 0" "waiting_q ?t = 0" "proc_idle ?t = proc_idle s" "sched_lock ?t = 0"
      "p_state (procs ?t (proc_current ?t)) = PROC_READY"
    using t by (simp_all add: pit_handle_interrupt_def leave_def proc_release_def spinlock_release_def)
  from eq(4) obtain c' f' where "enter ?t = Some (?t\<lparr>cpu := c', sched_lock := 1, frame_flags := f'\<rparr>)"
    (is "_ = Some ?u") by (rule enter_free)
  moreover have "proc_schedule ?u = Some (call1 proc_switch (proc_idle s) ?u)"
    using proc_schedule_goes_idle [of ?u] eq q(5) by simp
  ultimately have "irq_pit (leave t) = Some (leave (call1 proc_switch (proc_idle s) ?u))"
    by (simp add: irq_pit_def)
  with s1 show ?thesis using eq
    by (auto simp: queues_def leave_def proc_release_def)
qed

theorem proc_sleep_zero_loses_process_witness:
  "\<exists>s1 s2. proc_sleep_msec 0 (sample_sched\<lparr>ready_q := 0\<rparr>) = Some s1 \<and> irq_pit s1 = Some s2 \<and>
     proc_current s2 = 0x4000 \<and> queues s2 [] []"
proof -
  let ?s = "sample_sched\<lparr>ready_q := 0\<rparr>"
  have "sched_inv ?s [] []"
    using sample_sched_inv
    by (simp add: sched_inv_as_def sched_core_def at_rest_as_def queues_def tasks_def owns_def) blast
  moreover have "running ?s" by (simp add: running_def sample_fields)
  ultimately show ?thesis using proc_sleep_zero_loses_process [of ?s] by (simp add: sample_fields)
qed

lemma stack_proc_switch: "stack (proc_switch s) = stack (push_context s)"
  by (simp add: proc_switch_def Let_def)

lemma saved_sp:
  "proc_current s \<noteq> 0 \<Longrightarrow> p_sp (procs (proc_switch s) (proc_current s)) = c_esp (cpu s) - 20"
  by (simp add: proc_switch_def Let_def)

lemma switch_param: "stack (push_context s) (c_esp (cpu s) + 4) = stack s (c_esp (cpu s) + 4)"
  by (simp add: stack_push_context Let_def)

lemma cpu_proc_switch:
  assumes "stack s (c_esp (cpu s) + 4) = p" and "proc_current s \<noteq> p"
  shows "cpu (proc_switch s) = (let e = p_sp (procs s p); w = stack (push_context s) in
     \<lparr>c_ebx = w (e + 16), c_esi = w (e + 12), c_edi = w (e + 8), c_ebp = w (e + 4),
      c_esp = e + 24, c_eflags = w e, c_eip = w (e + 20)\<rparr>)"
    "proc_current (proc_switch s) = p"
  using assms switch_param [of s] by (simp_all add: proc_switch_def Let_def cpu_pop_context add.commute [of 4])

text \<open>
  C30 The context switch restores what it saved.  When process \<open>a\<close> called \<^verbatim>\<open>proc_switch\<close> in state \<open>s\<close>,
  and a later call in state \<open>t\<close> names \<open>a\<close> again, with the saved stack pointer of \<open>a\<close> and the six words of its
  frame as the first call left them, then the second call returns to the instruction after the first
  one with the registers, the flags and the stack pointer of \<open>s\<close>, and \<open>a\<close> is current.
\<close>

theorem proc_switch_restores_context:
  assumes "proc_current s = a" and "a \<noteq> 0" and "proc_current t \<noteq> a"
    and "stack t (c_esp (cpu t) + 4) = a"
    and "p_sp (procs t a) = p_sp (procs (proc_switch s) a)"
    and "\<forall>k<6. stack (push_context t) (p_sp (procs t a) + 4 * of_nat k) =
           stack (proc_switch s) (p_sp (procs t a) + 4 * of_nat k)"
  shows "cpu (proc_switch t) =
      (cpu s)\<lparr>c_esp := c_esp (cpu s) + 4, c_eip := stack s (c_esp (cpu s))\<rparr> \<and>
    proc_current (proc_switch t) = a"
proof -
  let ?e = "c_esp (cpu s) - 20" and ?w = "stack (push_context s)"
  have e: "p_sp (procs t a) = ?e" using assms(1,2,5) saved_sp [of s] by simp
  have w: "stack (push_context t) (?e + 4 * of_nat k) = ?w (?e + 4 * of_nat k)" if "k < 6" for k
    using assms(6) that by (simp only: e stack_proc_switch)
  have c: "cpu (proc_switch t) =
     \<lparr>c_ebx = ?w (?e + 16), c_esi = ?w (?e + 12), c_edi = ?w (?e + 8), c_ebp = ?w (?e + 4),
      c_esp = ?e + 24, c_eflags = ?w ?e, c_eip = ?w (?e + 20)\<rparr>"
    using cpu_proc_switch(1) [OF assms(4,3)] w [of 0] w [of 1] w [of 2] w [of 3] w [of 4] w [of 5]
    by (simp add: e Let_def)
  have "cpu (proc_switch t) = (cpu s)\<lparr>c_esp := c_esp (cpu s) + 4, c_eip := stack s (c_esp (cpu s))\<rparr>"
    unfolding c by (rule cpu_t.equality) (simp_all add: stack_push_context Let_def)
  with cpu_proc_switch(2) [OF assms(4,3)] show ?thesis by simp
qed

theorem proc_switch_restores_context_witness:
  "\<exists>(s :: sched_t) t. proc_current s = 0x8000 \<and> proc_current t = 0xC000 \<and>
     cpu (proc_switch t) = (cpu s)\<lparr>c_esp := c_esp (cpu s) + 4, c_eip := stack s (c_esp (cpu s))\<rparr> \<and>
     c_ebx (cpu s) = 7 \<and> proc_current (proc_switch t) = 0x8000"
proof -
  let ?s = "sample_sched\<lparr>cpu := (cpu sample_sched)\<lparr>c_ebx := 7\<rparr>\<rparr>"
  let ?t = "(proc_switch ?s)\<lparr>proc_current := 0xC000, stack := (stack (proc_switch ?s))(0xD004 := 0x8000),
      cpu := (cpu ?s)\<lparr>c_esp := 0xD000\<rparr>\<rparr>"
  have e: "p_sp (procs ?t 0x8000) = 0x8FEC"
    using saved_sp [of ?s] by (simp add: sample_sched_def)
  have "stack (push_context ?t) (0x8FEC + 4 * of_nat k) = stack (proc_switch ?s) (0x8FEC + 4 * of_nat k)"
    if "k < 6" for k
  proof -
    have "k = 0 \<or> k = 1 \<or> k = 2 \<or> k = 3 \<or> k = 4 \<or> k = 5" using that by linarith
    then show ?thesis by (auto simp: stack_push_context Let_def)
  qed
  then have f: "\<forall>k<6. stack (push_context ?t) (p_sp (procs ?t 0x8000) + 4 * of_nat k) =
      stack (proc_switch ?s) (p_sp (procs ?t 0x8000) + 4 * of_nat k)" unfolding e by blast
  have "cpu (proc_switch ?t) = (cpu ?s)\<lparr>c_esp := c_esp (cpu ?s) + 4, c_eip := stack ?s (c_esp (cpu ?s))\<rparr> \<and>
      proc_current (proc_switch ?t) = 0x8000"
    by (rule proc_switch_restores_context [OF _ _ _ _ _ f]) (simp_all add: sample_fields)
  then show ?thesis
    by - (rule exI [of _ ?s], rule exI [of _ ?t], simp add: sample_fields)
qed

lemma stack_call1_init:
  "stack (call1 (proc_init st) p s) = (let e = c_esp (cpu s); sp = p_sp (procs s p) in
     (stack s)(e - 4 := p, e - 8 := c_eip (cpu s), e - 12 := c_ebp (cpu s), sp - 4 := 0,
       sp - 8 := p_entry (procs s p), sp - 12 := st, sp - 16 := 0, sp - 20 := 0, sp - 24 := 0,
       sp - 28 := 0, sp - 32 := 0))"
  by (simp add: call1_def proc_init_def pop_def Let_def)

text \<open>
  C31 The first switch to a process made by \<^verbatim>\<open>proc_create\<close> starts it at \<^verbatim>\<open>proc_startup\<close> with its
  registers and flags cleared and the entry point on top of its stack, below a null return address,
  as long as the eight words of its first frame are as \<^verbatim>\<open>proc_create\<close> left them.
\<close>

theorem proc_create_starts_at_entry:
  assumes "proc_create st entry name s = Some (p, s')" and "proc_current t \<noteq> p"
    and "stack t (c_esp (cpu t) + 4) = p" and "p_sp (procs t p) = p_sp (procs s' p)"
    and "\<forall>k<8. stack (push_context t) (p_sp (procs t p) + 4 * of_nat k) =
           stack s' (p_sp (procs t p) + 4 * of_nat k)"
  shows "cpu (proc_switch t) = \<lparr>c_ebx = 0, c_esi = 0, c_edi = 0, c_ebp = 0,
      c_esp = p + PROC_SIZE - 8, c_eflags = 0, c_eip = st\<rparr> \<and>
    stack (proc_switch t) (p + PROC_SIZE - 8) = entry \<and> stack (proc_switch t) (p + PROC_SIZE - 4) = 0"
proof -
  let ?e = "p + PROC_SIZE - 32"
  from assms(1) have sp: "p_sp (procs s' p) = ?e"
    and st: "\<exists>w. stack s' = w(?e + 28 := 0, ?e + 24 := entry, ?e + 20 := st, ?e + 16 := 0,
      ?e + 12 := 0, ?e + 8 := 0, ?e + 4 := 0, ?e := 0)"
    by (auto simp: proc_create_def stack_call1_init Let_def split: prod.splits bind_splits)
  have w: "stack (push_context t) (?e + 4 * of_nat k) = stack s' (?e + 4 * of_nat k)" if "k < 8" for k
    using assms(5) that by (simp only: assms(4) sp)
  have w: "stack (push_context t) ?e = 0" "stack (push_context t) (?e + 4) = 0"
      "stack (push_context t) (?e + 8) = 0" "stack (push_context t) (?e + 12) = 0"
      "stack (push_context t) (?e + 16) = 0" "stack (push_context t) (?e + 20) = st"
      "stack (push_context t) (?e + 24) = entry" "stack (push_context t) (?e + 28) = 0"
    using st w [of 0] w [of 1] w [of 2] w [of 3] w [of 4] w [of 5] w [of 6] w [of 7] by auto
  have c: "cpu (proc_switch t) = \<lparr>c_ebx = 0, c_esi = 0, c_edi = 0, c_ebp = 0,
      c_esp = ?e + 24, c_eflags = 0, c_eip = st\<rparr>"
    unfolding cpu_proc_switch(1) [OF assms(3,2)] assms(4) sp Let_def w ..
  have "?e + 24 = p + PROC_SIZE - 8" "?e + 28 = p + PROC_SIZE - 4" by simp_all
  with c w show ?thesis unfolding stack_proc_switch by metis
qed

theorem proc_create_starts_at_entry_witness:
  "\<exists>p s t. proc_create 0x100 0x200 0 sample_sched = Some (p, s) \<and>
     cpu (proc_switch t) = \<lparr>c_ebx = 0, c_esi = 0, c_edi = 0, c_ebp = 0,
       c_esp = p + PROC_SIZE - 8, c_eflags = 0, c_eip = 0x100\<rparr> \<and>
     stack (proc_switch t) (p + PROC_SIZE - 8) = 0x200"
proof -
  obtain p s where s: "proc_create 0x100 0x200 0 sample_sched = Some (p, s)"
    using proc_create_inv [OF sample_sched_inv] by blast
  let ?x = "p + 0x3000"
  let ?t = "s\<lparr>proc_current := p + 1, stack := (stack s)(?x + 4 := p), cpu := (cpu s)\<lparr>c_esp := ?x\<rparr>\<rparr>"
  from s have sp: "p_sp (procs ?t p) = p + 0xFE0"
    by (auto simp: proc_create_def PROC_SIZE_def KB_def split: prod.splits bind_splits)
  have "stack (push_context ?t) (p + 0xFE0 + 4 * of_nat k) = stack s (p + 0xFE0 + 4 * of_nat k)"
    if "k < 8" for k
  proof -
    have "k = 0 \<or> k = 1 \<or> k = 2 \<or> k = 3 \<or> k = 4 \<or> k = 5 \<or> k = 6 \<or> k = 7" using that by linarith
    then show ?thesis by (auto simp: stack_push_context Let_def)
  qed
  then have f: "\<forall>k<8. stack (push_context ?t) (p_sp (procs ?t p) + 4 * of_nat k) =
      stack s (p_sp (procs ?t p) + 4 * of_nat k)" unfolding sp by blast
  from proc_create_starts_at_entry [OF s _ _ _ f] s show ?thesis
    by - (rule exI [of _ p], rule exI [of _ s], rule exI [of _ ?t], simp)
qed

end
