(* ===== verification/Ps2.thy ===== *)
theory Ps2
  imports Hw
begin

text \<open>
  The PS/2 controller driver \<^verbatim>\<open>kernel/drivers/ps2.c\<close>.  Every access to the controller first polls its
  status register and gives up after \<^verbatim>\<open>PS2_TIMEOUT_MSEC\<close>; the polling loop is a partial function and the
  theorem of this file shows that it ends on any controller, even one that never answers, as long as
  the clock ticks.  The debug messages are left out.
\<close>

section \<open>Constants of \<^verbatim>\<open>kernel/drivers/ps2.h\<close>\<close>

definition PS2_ACK :: u8 where "PS2_ACK = 0xFA"
definition PS2_CMD :: u16 where "PS2_CMD = 0x64"
definition PS2_STATUS :: u16 where "PS2_STATUS = 0x64"
definition PS2_DATA :: u16 where "PS2_DATA = 0x60"
definition PS2_SR_OUT :: u8 where "PS2_SR_OUT = 0x01"
definition PS2_SR_INP :: u8 where "PS2_SR_INP = 0x02"
definition PS2_SR_MOUSE :: u8 where "PS2_SR_MOUSE = 0x20"
definition PS2_CMD_READ :: u8 where "PS2_CMD_READ = 0x20"
definition PS2_CMD_WRITE :: u8 where "PS2_CMD_WRITE = 0x60"
definition PS2_CMD_DISABLE_P2 :: u8 where "PS2_CMD_DISABLE_P2 = 0xA7"
definition PS2_CMD_ENABLE_P2 :: u8 where "PS2_CMD_ENABLE_P2 = 0xA8"
definition PS2_CMD_TEST_P2 :: u8 where "PS2_CMD_TEST_P2 = 0xA9"
definition PS2_CMD_TEST_CTRL :: u8 where "PS2_CMD_TEST_CTRL = 0xAA"
definition PS2_CMD_TEST_P1 :: u8 where "PS2_CMD_TEST_P1 = 0xAB"
definition PS2_CMD_DISABLE_P1 :: u8 where "PS2_CMD_DISABLE_P1 = 0xAD"
definition PS2_CMD_ENABLE_P1 :: u8 where "PS2_CMD_ENABLE_P1 = 0xAE"
definition PS2_CMD_WRITE_P2_INP :: u8 where "PS2_CMD_WRITE_P2_INP = 0xD4"
definition PS2_DCMD_RESET :: u8 where "PS2_DCMD_RESET = 0xFF"
definition PS2_DCMD_IDENTIFY :: u8 where "PS2_DCMD_IDENTIFY = 0xF2"
definition PS2_CFG_P1_IRQ :: i16 where "PS2_CFG_P1_IRQ = 0x01"
definition PS2_CFG_P2_IRQ :: i16 where "PS2_CFG_P2_IRQ = 0x02"
definition PS2_CFG_DISABLE_P2_CLOCK :: i16 where "PS2_CFG_DISABLE_P2_CLOCK = 0x20"
definition PS2_CFG_P1_TRANSLATION :: i16 where "PS2_CFG_P1_TRANSLATION = 0x40"
definition PS2_DEV_NONE :: u16 where "PS2_DEV_NONE = 0xFFFF"
definition PS2_DEV_GENERIC_MOUSE :: u16 where "PS2_DEV_GENERIC_MOUSE = 0x00"
definition PS2_DEV_ZAXIS_MOUSE :: u16 where "PS2_DEV_ZAXIS_MOUSE = 0x03"
definition PS2_DEV_5BTN_MOUSE :: u16 where "PS2_DEV_5BTN_MOUSE = 0x04"
definition PS2_PORT1 :: u8 where "PS2_PORT1 = 0"
definition PS2_PORT2 :: u8 where "PS2_PORT2 = 1"

lemmas ps2_consts =
  PS2_ACK_def PS2_CMD_def PS2_STATUS_def PS2_DATA_def PS2_SR_OUT_def PS2_SR_INP_def
  PS2_SR_MOUSE_def PS2_CMD_READ_def PS2_CMD_WRITE_def PS2_CMD_DISABLE_P2_def PS2_CMD_ENABLE_P2_def
  PS2_CMD_TEST_P2_def PS2_CMD_TEST_CTRL_def PS2_CMD_TEST_P1_def PS2_CMD_DISABLE_P1_def
  PS2_CMD_ENABLE_P1_def PS2_CMD_WRITE_P2_INP_def PS2_DCMD_RESET_def PS2_DCMD_IDENTIFY_def
  PS2_CFG_P1_IRQ_def PS2_CFG_P2_IRQ_def PS2_CFG_DISABLE_P2_CLOCK_def PS2_CFG_P1_TRANSLATION_def
  PS2_DEV_NONE_def PS2_DEV_GENERIC_MOUSE_def PS2_DEV_ZAXIS_MOUSE_def PS2_DEV_5BTN_MOUSE_def
  PS2_PORT1_def PS2_PORT2_def

section \<open>Definitions\<close>

record ps2_t =
  ps2_p1 :: u16
  ps2_p2 :: u16

definition PS2_TIMEOUT_MSEC :: u32 where "PS2_TIMEOUT_MSEC = 10"

text \<open>The polling loop the three primitives share; the flag tells whether the controller was ready.\<close>

partial_function (option) ps2_wait ::
    "'w bus \<Rightarrow> (u8 \<Rightarrow> bool) \<Rightarrow> u32 \<Rightarrow> 'w \<Rightarrow> (bool \<times> 'w) option" where
  "ps2_wait b ready timeout_at w =
     (let (status, w) = inb b PS2_STATUS w
      in if ready status then Some (True, w)
         else let (t, w) = bus_time b w
              in if t \<ge> timeout_at then Some (False, w) else ps2_wait b ready timeout_at w)"

definition ps2_send_cmd :: "'w bus \<Rightarrow> u8 \<Rightarrow> 'w \<Rightarrow> (i16 \<times> 'w) option" where
  "ps2_send_cmd b cmd w =
     (let (t, w) = bus_time b w
      in do { (ready, w) \<leftarrow> ps2_wait b (\<lambda>st. st AND PS2_SR_INP = 0) (t + PS2_TIMEOUT_MSEC) w;
              if ready then Some (0, outb b PS2_CMD cmd w) else Some (- 1, w) })"

definition ps2_send_data :: "'w bus \<Rightarrow> u8 \<Rightarrow> 'w \<Rightarrow> (i16 \<times> 'w) option" where
  "ps2_send_data b data w =
     (let (t, w) = bus_time b w
      in do { (ready, w) \<leftarrow> ps2_wait b (\<lambda>st. st AND PS2_SR_INP = 0) (t + PS2_TIMEOUT_MSEC) w;
              if ready then Some (0, outb b PS2_DATA data w) else Some (- 1, w) })"

definition ps2_recv :: "'w bus \<Rightarrow> 'w \<Rightarrow> (i16 \<times> 'w) option" where
  "ps2_recv b w =
     (let (t, w) = bus_time b w
      in do { (ready, w) \<leftarrow> ps2_wait b (\<lambda>st. st AND PS2_SR_OUT \<noteq> 0) (t + PS2_TIMEOUT_MSEC) w;
              if ready then let (v, w) = inb b PS2_DATA w in Some (ucast v, w)
              else Some (- 1, w) })"

definition ps2_send_port :: "'w bus \<Rightarrow> u8 \<Rightarrow> u8 \<Rightarrow> 'w \<Rightarrow> (i16 \<times> 'w) option" where
  "ps2_send_port b port cmd w =
     (if port \<noteq> 0 then
        do { (r, w) \<leftarrow> ps2_send_cmd b PS2_CMD_WRITE_P2_INP w;
             if r <s 0 then Some (- 1, w)
             else let (_, w) = inb b PS2_DATA w in ps2_send_data b cmd w }
      else ps2_send_data b cmd w)"

definition ps2_disable_port :: "'w bus \<Rightarrow> u8 \<Rightarrow> 'w \<Rightarrow> 'w option" where
  "ps2_disable_port b port w =
     do { (r, w) \<leftarrow> (if port \<noteq> 0 then ps2_send_cmd b PS2_CMD_DISABLE_P2 w else Some (0, w));
          if port \<noteq> 0 \<and> r <s 0 then Some w
          else do { (_, w) \<leftarrow> ps2_send_cmd b PS2_CMD_DISABLE_P1 w; Some w } }"

definition ps2_enable_port :: "'w bus \<Rightarrow> u8 \<Rightarrow> 'w \<Rightarrow> 'w option" where
  "ps2_enable_port b port w =
     do { (r, w) \<leftarrow> (if port \<noteq> 0 then ps2_send_cmd b PS2_CMD_ENABLE_P2 w else Some (0, w));
          if port \<noteq> 0 \<and> r <s 0 then Some w
          else do { (_, w) \<leftarrow> ps2_send_cmd b PS2_CMD_ENABLE_P1 w; Some w } }"

definition ps2_dev_str :: "u16 \<Rightarrow> string" where
  "ps2_dev_str type =
     (if type = 0 then ''Generic PS/2 Mouse''
      else if type = 3 then ''Z-Axis Mouse''
      else if type = 4 then ''5 Button Mouse''
      else if type = 0xAB83 then ''MF2 Keyboard''
      else if type = 0xAB41 \<or> type = 0xABC1 then ''Translated MF2 Keyboard''
      else ''Unknown PS/2 device'')"

definition ps2_enable_irqs :: "'w bus \<Rightarrow> 'w \<Rightarrow> 'w option" where
  "ps2_enable_irqs b w =
     do { (_, w) \<leftarrow> ps2_send_cmd b PS2_CMD_READ w;
          (cfg, w) \<leftarrow> ps2_recv b w;
          let cfg = cfg OR (PS2_CFG_P1_IRQ OR PS2_CFG_P2_IRQ);
          (_, w) \<leftarrow> ps2_send_cmd b PS2_CMD_WRITE w;
          (_, w) \<leftarrow> ps2_send_data b (ucast cfg) w;
          Some w }"

definition ps2_identify :: "'w bus \<Rightarrow> u8 \<Rightarrow> 'w \<Rightarrow> (u16 \<times> 'w) option" where
  "ps2_identify b dev w =
     do { (_, w) \<leftarrow> ps2_send_port b dev PS2_DCMD_IDENTIFY w;
          (_, w) \<leftarrow> ps2_recv b w;
          (type, w) \<leftarrow> ps2_recv b w;
          if type = 0xAB then do { (r, w) \<leftarrow> ps2_recv b w; Some (push_bit 8 type OR r, w) }
          else Some (type, w) }"

text \<open>Enable, reset and identify the device at a port; \<^term>\<open>None\<close> in the result is no device.\<close>

definition ps2_reset_port :: "'w bus \<Rightarrow> u8 \<Rightarrow> 'w \<Rightarrow> (u16 option \<times> 'w) option" where
  "ps2_reset_port b port w =
     do { w \<leftarrow> ps2_enable_port b port w;
          (_, w) \<leftarrow> ps2_send_port b port PS2_DCMD_RESET w;
          (r, w) \<leftarrow> ps2_recv b w;
          if r = ucast PS2_ACK then
            do { (r, w) \<leftarrow> ps2_recv b w;
                 if r = 0xAA then do { (type, w) \<leftarrow> ps2_identify b port w; Some (Some type, w) }
                 else Some (None, w) }
          else Some (None, w) }"

definition ps2_initialize :: "'w bus \<Rightarrow> ps2_t \<Rightarrow> 'w \<Rightarrow> (ps2_t \<times> 'w) option" where
  "ps2_initialize b s w =
     do { let s = s\<lparr>ps2_p1 := PS2_DEV_NONE, ps2_p2 := PS2_DEV_NONE\<rparr>;
          w \<leftarrow> ps2_disable_port b PS2_PORT1 w;
          w \<leftarrow> ps2_disable_port b PS2_PORT2 w;
          let (_, w) = inb b PS2_DATA w;
          (_, w) \<leftarrow> ps2_send_cmd b PS2_CMD_READ w;
          (cfg, w) \<leftarrow> ps2_recv b w;
          let cfg = cfg AND NOT (PS2_CFG_P1_IRQ OR PS2_CFG_P2_IRQ OR PS2_CFG_P1_TRANSLATION);
          let dual_channel = (cfg AND PS2_CFG_DISABLE_P2_CLOCK \<noteq> 0);
          (_, w) \<leftarrow> ps2_send_cmd b PS2_CMD_WRITE w;
          (_, w) \<leftarrow> ps2_send_data b (ucast cfg) w;
          (_, w) \<leftarrow> ps2_send_cmd b PS2_CMD_TEST_CTRL w;
          (r, w) \<leftarrow> ps2_recv b w;
          if r \<noteq> 0x55 then Some (s, w)
          else do {
            (_, w) \<leftarrow> ps2_send_cmd b PS2_CMD_TEST_P1 w;
            (_, w) \<leftarrow> ps2_recv b w;
            (dual_channel, w) \<leftarrow>
              (if dual_channel then
                 do { (_, w) \<leftarrow> ps2_send_cmd b PS2_CMD_TEST_P2 w;
                      (r, w) \<leftarrow> ps2_recv b w;
                      Some (r = 0, w) }
               else Some (False, w));
            (dev, w) \<leftarrow> ps2_reset_port b PS2_PORT1 w;
            let s = (case dev of None \<Rightarrow> s | Some type \<Rightarrow> s\<lparr>ps2_p1 := type\<rparr>);
            if dual_channel then
              do { (dev, w) \<leftarrow> ps2_reset_port b PS2_PORT2 w;
                   Some (case dev of None \<Rightarrow> s | Some type \<Rightarrow> s\<lparr>ps2_p2 := type\<rparr>, w) }
            else Some (s, w) } }"

section \<open>Every operation returns\<close>

text \<open>
  One round of the polling loop reads the status register and then the clock.  The clock ticks when
  from every world some number of rounds sees it advance by one millisecond.
\<close>

definition clock_at :: "'w bus \<Rightarrow> 'w \<Rightarrow> u32" where
  "clock_at b w = fst (bus_time b (snd (inb b PS2_STATUS w)))"

definition next_poll :: "'w bus \<Rightarrow> 'w \<Rightarrow> 'w" where
  "next_poll b w = snd (bus_time b (snd (inb b PS2_STATUS w)))"

definition ticks :: "'w bus \<Rightarrow> bool" where
  "ticks b = (\<forall>w. \<exists>n. (\<forall>k < n. clock_at b ((next_poll b ^^ k) w) = clock_at b w) \<and>
     clock_at b ((next_poll b ^^ n) w) = clock_at b w + 1)"

lemma ps2_wait_round:
  "ps2_wait b ready timeout_at w =
     (if ready (fst (inb b PS2_STATUS w)) then Some (True, snd (inb b PS2_STATUS w))
      else if clock_at b w \<ge> timeout_at then Some (False, next_poll b w)
      else ps2_wait b ready timeout_at (next_poll b w))"
  by (subst ps2_wait.simps) (simp add: case_prod_beta clock_at_def next_poll_def)

text \<open>If the loop returns from the world after some rounds, it returns from the first one.\<close>

lemma ps2_wait_rounds:
  assumes "\<exists>r. ps2_wait b ready timeout_at ((next_poll b ^^ n) w) = Some r"
  shows "\<exists>r. ps2_wait b ready timeout_at w = Some r"
  using assms
proof (induction n arbitrary: w)
  case (Suc n)
  then have "\<exists>r. ps2_wait b ready timeout_at (next_poll b w) = Some r"
    by (simp add: funpow_swap1)
  then show ?case by (subst ps2_wait_round) auto
qed simp

lemma ps2_wait_terminates:
  assumes "ticks b"
  shows "\<exists>r. ps2_wait b ready timeout_at w = Some r"
proof (induction "unat timeout_at - unat (clock_at b w)" arbitrary: w rule: less_induct)
  case less
  show ?case
  proof (cases "clock_at b w \<ge> timeout_at")
    case True
    then show ?thesis by (subst ps2_wait_round) auto
  next
    case False
    then have lt: "clock_at b w < timeout_at" by simp
    from assms obtain n where n: "clock_at b ((next_poll b ^^ n) w) = clock_at b w + 1"
      unfolding ticks_def by blast
    from lt have "unat (clock_at b w) < unat timeout_at" by (simp add: word_less_nat_alt)
    then have "\<exists>r. ps2_wait b ready timeout_at ((next_poll b ^^ n) w) = Some r"
      by (intro less) (simp add: n unat_succ_less [OF lt])
    then show ?thesis by (rule ps2_wait_rounds)
  qed
qed

lemma ps2_wait_returns [returns_rules]: "ticks b \<Longrightarrow> returns (ps2_wait b ready timeout_at w)"
  unfolding returns_def by (rule ps2_wait_terminates)

lemma ps2_send_cmd_returns [returns_rules]: "ticks b \<Longrightarrow> returns (ps2_send_cmd b cmd w)"
  unfolding ps2_send_cmd_def by (intro returns_rules)

lemma ps2_send_data_returns [returns_rules]: "ticks b \<Longrightarrow> returns (ps2_send_data b data w)"
  unfolding ps2_send_data_def by (intro returns_rules)

lemma ps2_recv_returns [returns_rules]: "ticks b \<Longrightarrow> returns (ps2_recv b w)"
  unfolding ps2_recv_def by (intro returns_rules)

lemma ps2_send_port_returns [returns_rules]: "ticks b \<Longrightarrow> returns (ps2_send_port b port cmd w)"
  unfolding ps2_send_port_def by (intro returns_rules)

lemma ps2_enable_port_returns [returns_rules]: "ticks b \<Longrightarrow> returns (ps2_enable_port b port w)"
  unfolding ps2_enable_port_def by (intro returns_rules)

lemma ps2_disable_port_returns [returns_rules]: "ticks b \<Longrightarrow> returns (ps2_disable_port b port w)"
  unfolding ps2_disable_port_def by (intro returns_rules)

lemma ps2_enable_irqs_returns [returns_rules]: "ticks b \<Longrightarrow> returns (ps2_enable_irqs b w)"
  unfolding ps2_enable_irqs_def by (intro returns_rules)

lemma ps2_identify_returns [returns_rules]: "ticks b \<Longrightarrow> returns (ps2_identify b dev w)"
  unfolding ps2_identify_def by (intro returns_rules)

lemma ps2_reset_port_returns [returns_rules]: "ticks b \<Longrightarrow> returns (ps2_reset_port b port w)"
  unfolding ps2_reset_port_def by (intro returns_rules)

lemma ps2_initialize_returns [returns_rules]: "ticks b \<Longrightarrow> returns (ps2_initialize b s w)"
  unfolding ps2_initialize_def by (intro returns_rules)

text \<open>
  C26 On any controller, also one that is absent or never becomes ready, \<^verbatim>\<open>ps2_initialize\<close> and
  \<^verbatim>\<open>ps2_enable_irqs\<close> return as long as the clock ticks, from every value of the clock, also across
  its wrap-around.
\<close>

theorem ps2_initialize_terminates:
  assumes "ticks b"
  shows "(\<exists>s' w'. ps2_initialize b s w = Some (s', w')) \<and> (\<exists>w'. ps2_enable_irqs b w = Some w')"
  using ps2_initialize_returns [OF assms] ps2_enable_irqs_returns [OF assms] by (simp add: returns_def)

text \<open>A machine without a controller: every port reads as ones and every second read of the clock sees
  it advance.\<close>

definition absent_bus :: "nat bus" where
  "absent_bus = \<lparr>bus_inb = \<lambda>_ w. (0xFF, w), bus_inw = \<lambda>_ w. (0xFFFF, w), bus_inl = \<lambda>_ w. (0xFFFFFFFF, w),
     bus_outb = \<lambda>_ _ w. w, bus_outw = \<lambda>_ _ w. w, bus_outl = \<lambda>_ _ w. w,
     bus_ldl = \<lambda>_ w. (0, w), bus_stl = \<lambda>_ _ w. w, bus_time = \<lambda>w. (of_nat (w div 2), w + 1)\<rparr>"

lemma absent_bus_ticks: "ticks absent_bus"
proof -
  have at: "clock_at absent_bus w = of_nat (w div 2)" for w
    by (simp add: clock_at_def absent_bus_def inb_def)
  have np: "(next_poll absent_bus ^^ k) w = w + k" for k w
    by (induction k) (simp_all add: next_poll_def absent_bus_def inb_def)
  show ?thesis unfolding ticks_def
  proof
    fix w
    show "\<exists>n. (\<forall>k < n. clock_at absent_bus ((next_poll absent_bus ^^ k) w) = clock_at absent_bus w) \<and>
        clock_at absent_bus ((next_poll absent_bus ^^ n) w) = clock_at absent_bus w + 1"
      by (rule exI [of _ "2 - w mod 2"])
        (cases "even w"; auto simp: at np elim!: evenE oddE simp: less_2_cases_iff)
  qed
qed

theorem ps2_initialize_terminates_witness:
  "ticks absent_bus \<and>
   (\<exists>s' w'. ps2_initialize absent_bus \<lparr>ps2_p1 = 1, ps2_p2 = 1\<rparr> 5 = Some (s', w'))"
  using ps2_initialize_terminates [OF absent_bus_ticks] absent_bus_ticks by blast

section \<open>Ports\<close>

text \<open>
  The controller is ready when its input buffer is empty at every read of the status register; a
  command then goes out at once.
\<close>

definition input_ready :: "'w bus \<Rightarrow> bool" where
  "input_ready b = (\<forall>w. fst (inb b PS2_STATUS w) AND PS2_SR_INP = 0)"

lemma ps2_send_cmd_ready:
  assumes "input_ready b"
  shows "ps2_send_cmd b cmd w = Some (0, outb b PS2_CMD cmd (snd (inb b PS2_STATUS (snd (bus_time b w)))))"
  using assms by (simp add: ps2_send_cmd_def case_prod_beta ps2_wait_round [of b "\<lambda>st. st AND PS2_SR_INP = 0"]
    input_ready_def)

text \<open>Neither operation on port 2 leaves port 1 alone: both go on to send the command of port 1.\<close>

lemma ps2_port_2_sends_both:
  assumes "input_ready b"
  shows "ps2_disable_port b PS2_PORT2 w =
      map_option snd (ps2_send_cmd b PS2_CMD_DISABLE_P1
        (outb b PS2_CMD PS2_CMD_DISABLE_P2 (snd (inb b PS2_STATUS (snd (bus_time b w))))))"
    and "ps2_enable_port b PS2_PORT2 w =
      map_option snd (ps2_send_cmd b PS2_CMD_ENABLE_P1
        (outb b PS2_CMD PS2_CMD_ENABLE_P2 (snd (inb b PS2_STATUS (snd (bus_time b w))))))"
  by (simp_all add: ps2_disable_port_def ps2_enable_port_def ps2_send_cmd_ready [OF assms] PS2_PORT2_def)

end
