(* ===== verification/Keyboard.thy ===== *)
theory Keyboard
  imports Ps2 Io
begin

text \<open>
  The keyboard driver \<^verbatim>\<open>kernel/drivers/keyboard.c\<close>: the two tables for scan code set 2 and the interrupt
  handler, which collects the bytes of a scan code in \<^verbatim>\<open>scan_buf\<close>, keeps track of the shift keys and
  writes the character of a pressed key to the debug output.  That output is the list of bytes
  written.

  The lemmas show that the handler, interrupted once per byte, implements a decoder of key presses and
  releases, and what happens to the buffer on a stream of prefixes.
\<close>

section \<open>Tables\<close>

datatype keycode_t =
    KEY_INVAL
  | KEY_LALT | KEY_RALT | KEY_LSHIFT | KEY_RSHIFT | KEY_LCTRL | KEY_RCTRL | KEY_LMETA | KEY_RMETA 
  | KEY_CAPSLOCK | KEY_NUMLOCK | KEY_SCROLLLOCK | KEY_PAGEUP | KEY_PAGEDOWN | KEY_DELETE 
  | KEY_INSERT | KEY_HOME | KEY_END | KEY_UP | KEY_DOWN | KEY_LEFT | KEY_RIGHT | KEY_ESC | KEY_F1 
  | KEY_F2 | KEY_F3 | KEY_F4 | KEY_F5 | KEY_F6 | KEY_F7 | KEY_F8 | KEY_F9 | KEY_F10 | KEY_F11 
  | KEY_F12 | KEY_PREV | KEY_NEXT | KEY_PLAY_PAUSE | KEY_STOP | KEY_MUTE | KEY_VOL_DOWN 
  | KEY_VOL_UP | KEY_MAX

fun key :: "keycode_t \<Rightarrow> u32" where
  "key KEY_INVAL = 0"
| "key KEY_LALT = 256"
| "key KEY_RALT = 257"
| "key KEY_LSHIFT = 258"
| "key KEY_RSHIFT = 259"
| "key KEY_LCTRL = 260"
| "key KEY_RCTRL = 261"
| "key KEY_LMETA = 262"
| "key KEY_RMETA = 263"
| "key KEY_CAPSLOCK = 264"
| "key KEY_NUMLOCK = 265"
| "key KEY_SCROLLLOCK = 266"
| "key KEY_PAGEUP = 267"
| "key KEY_PAGEDOWN = 268"
| "key KEY_DELETE = 269"
| "key KEY_INSERT = 270"
| "key KEY_HOME = 271"
| "key KEY_END = 272"
| "key KEY_UP = 273"
| "key KEY_DOWN = 274"
| "key KEY_LEFT = 275"
| "key KEY_RIGHT = 276"
| "key KEY_ESC = 277"
| "key KEY_F1 = 278"
| "key KEY_F2 = 279"
| "key KEY_F3 = 280"
| "key KEY_F4 = 281"
| "key KEY_F5 = 282"
| "key KEY_F6 = 283"
| "key KEY_F7 = 284"
| "key KEY_F8 = 285"
| "key KEY_F9 = 286"
| "key KEY_F10 = 287"
| "key KEY_F11 = 288"
| "key KEY_F12 = 289"
| "key KEY_PREV = 290"
| "key KEY_NEXT = 291"
| "key KEY_PLAY_PAUSE = 292"
| "key KEY_STOP = 293"
| "key KEY_MUTE = 294"
| "key KEY_VOL_DOWN = 295"
| "key KEY_VOL_UP = 296"
| "key KEY_MAX = 297"

definition kb_keymap1 :: "(u32 \<times> u32) list" where
  "kb_keymap1 = [
    (0, 0), (key KEY_F9, key KEY_F9), (0, 0), (key KEY_F5, key KEY_F5), (key KEY_F3, key KEY_F3),
    (key KEY_F1, key KEY_F1), (key KEY_F2, key KEY_F2), (key KEY_F12, key KEY_F12), (0, 0),
    (key KEY_F10, key KEY_F10), (key KEY_F8, key KEY_F8), (key KEY_F6, key KEY_F6),
    (key KEY_F4, key KEY_F4), (of_char (CHR 0x09), of_char (CHR 0x09)),
    (of_char (CHR 0x60), of_char (CHR ''~'')), (0, 0), (0, 0), (key KEY_LALT, key KEY_LALT),
    (key KEY_LSHIFT, key KEY_LSHIFT), (0, 0), (key KEY_LCTRL, key KEY_LCTRL),
    (of_char (CHR ''q''), of_char (CHR ''Q'')), (of_char (CHR ''1''), of_char (CHR ''!'')), (0, 0),
    (0, 0), (0, 0), (of_char (CHR ''z''), of_char (CHR ''Z'')),
    (of_char (CHR ''s''), of_char (CHR ''S'')), (of_char (CHR ''a''), of_char (CHR ''A'')),
    (of_char (CHR ''w''), of_char (CHR ''W'')), (of_char (CHR ''2''), of_char (CHR ''@'')), (0, 0),
    (0, 0), (of_char (CHR ''c''), of_char (CHR ''C'')), (of_char (CHR ''x''), of_char (CHR ''X'')),
    (of_char (CHR ''d''), of_char (CHR ''D'')), (of_char (CHR ''e''), of_char (CHR ''E'')),
    (of_char (CHR ''4''), of_char (CHR ''$'')), (of_char (CHR ''3''), of_char (CHR ''#'')), (0, 0),
    (0, 0), (of_char (CHR '' ''), of_char (CHR '' '')), (of_char (CHR ''v''), of_char (CHR ''V'')),
    (of_char (CHR ''f''), of_char (CHR ''F'')), (of_char (CHR ''t''), of_char (CHR ''T'')),
    (of_char (CHR ''r''), of_char (CHR ''R'')), (of_char (CHR ''5''), of_char (CHR ''%'')), (0, 0),
    (0, 0), (of_char (CHR ''n''), of_char (CHR ''N'')), (of_char (CHR ''b''), of_char (CHR ''B'')),
    (of_char (CHR ''h''), of_char (CHR ''H'')), (of_char (CHR ''g''), of_char (CHR ''G'')),
    (of_char (CHR ''y''), of_char (CHR ''Y'')), (of_char (CHR ''6''), of_char (CHR ''^'')), (0, 0),
    (0, 0), (0, 0), (of_char (CHR ''m''), of_char (CHR ''M'')),
    (of_char (CHR ''j''), of_char (CHR ''J'')), (of_char (CHR ''u''), of_char (CHR ''U'')),
    (of_char (CHR ''7''), of_char (CHR ''&'')), (of_char (CHR ''8''), of_char (CHR ''*'')), (0, 0),
    (0, 0), (of_char (CHR '',''), of_char (CHR ''<'')), (of_char (CHR ''k''), of_char (CHR ''K'')),
    (of_char (CHR ''i''), of_char (CHR ''I'')), (of_char (CHR ''o''), of_char (CHR ''O'')),
    (of_char (CHR ''0''), of_char (CHR '')'')), (of_char (CHR ''9''), of_char (CHR ''('')), (0, 0),
    (0, 0), (of_char (CHR ''.''), of_char (CHR ''>'')), (of_char (CHR ''/''), of_char (CHR ''?'')),
    (of_char (CHR ''l''), of_char (CHR ''L'')), (of_char (CHR '';''), of_char (CHR '':'')),
    (of_char (CHR ''p''), of_char (CHR ''P'')), (of_char (CHR ''-''), of_char (CHR ''_'')), (0, 0),
    (0, 0), (0, 0), (of_char (CHR 0x27), of_char (CHR 0x22)), (0, 0),
    (of_char (CHR ''[''), of_char (CHR ''{'')), (of_char (CHR ''=''), of_char (CHR ''+'')), (0, 0),
    (0, 0), (key KEY_CAPSLOCK, key KEY_CAPSLOCK), (key KEY_RSHIFT, key KEY_RSHIFT),
    (of_char (CHR 0x0A), of_char (CHR 0x0A)), (of_char (CHR '']''), of_char (CHR ''}'')), (0, 0),
    (of_char (CHR 0x5C), of_char (CHR ''|'')), (0, 0), (0, 0), (0, 0), (0, 0), (0, 0), (0, 0),
    (0, 0), (0, 0), (of_char (CHR 0x08), of_char (CHR 0x08)), (0, 0), (0, 0), (0, 0), (0, 0),
    (0, 0), (0, 0), (0, 0), (0, 0), (0, 0), (0, 0), (0, 0), (0, 0), (0, 0), (0, 0), (0, 0),
    (key KEY_ESC, key KEY_ESC), (key KEY_NUMLOCK, key KEY_NUMLOCK), (key KEY_F11, key KEY_F11),
    (0, 0), (0, 0), (0, 0), (0, 0), (0, 0), (key KEY_SCROLLLOCK, key KEY_SCROLLLOCK), (0, 0),
    (0, 0), (0, 0), (0, 0), (key KEY_F7, key KEY_F7)] @ replicate 124 (0, 0)"

text \<open>\<^verbatim>\<open>kb_keymap2\<close> gives the entries it names by index; the others are zero.\<close>

definition kb_keymap2 :: "(u32 \<times> u32) list" where
  "kb_keymap2 = fold (\<lambda>(i, e) km. km[i := e]) [
    (0x10, (0, 0)), (0x11, (key KEY_RALT, key KEY_RALT)), (0x14, (key KEY_RCTRL, key KEY_RCTRL)),
    (0x15, (key KEY_PREV, key KEY_PREV)), (0x18, (0, 0)), (0x1F, (key KEY_LMETA, key KEY_LMETA)),
    (0x20, (0, 0)), (0x21, (key KEY_VOL_DOWN, key KEY_VOL_DOWN)),
    (0x23, (key KEY_MUTE, key KEY_MUTE)), (0x27, (key KEY_RMETA, key KEY_RMETA)), (0x28, (0, 0)),
    (0x2B, (0, 0)), (0x2F, (0, 0)), (0x30, (0, 0)), (0x32, (key KEY_VOL_UP, key KEY_VOL_UP)),
    (0x34, (key KEY_PLAY_PAUSE, key KEY_PLAY_PAUSE)), (0x37, (0, 0)), (0x38, (0, 0)),
    (0x3A, (0, 0)), (0x3B, (key KEY_STOP, key KEY_STOP)), (0x3F, (0, 0)), (0x40, (0, 0)),
    (0x48, (0, 0)), (0x4A, (0, 0)), (0x4D, (key KEY_NEXT, key KEY_NEXT)), (0x50, (0, 0)),
    (0x5A, (0, 0)), (0x5E, (0, 0)), (0x69, (key KEY_END, key KEY_END)),
    (0x6B, (key KEY_LEFT, key KEY_LEFT)), (0x6C, (key KEY_HOME, key KEY_HOME)),
    (0x70, (key KEY_INSERT, key KEY_INSERT)), (0x71, (key KEY_DELETE, key KEY_DELETE)),
    (0x72, (key KEY_DOWN, key KEY_DOWN)), (0x74, (key KEY_RIGHT, key KEY_RIGHT)),
    (0x75, (key KEY_UP, key KEY_UP)), (0x7A, (key KEY_PAGEDOWN, key KEY_PAGEDOWN)),
    (0x7D, (key KEY_PAGEUP, key KEY_PAGEUP))] (replicate 256 (0, 0))"

section \<open>Definitions\<close>

record kb_t =
  kb_scan_buf :: "u8 list"
  kb_scan_len :: usz
  kb_shift_pressed :: u8
  kb_out :: "u8 list"

definition kb_init :: kb_t where
  "kb_init = \<lparr>kb_scan_buf = replicate 16 0, kb_scan_len = 0, kb_shift_pressed = 0, kb_out = []\<rparr>"

text \<open>The bytes of a literal; \<^verbatim>\<open>dbg_printf\<close> with \<^verbatim>\<open>%hd\<close> on a byte prints it in hexadecimal.\<close>

definition lit :: "string \<Rightarrow> u8 list" where
  "lit s = map of_char s"

definition unknown_scancode :: "u8 list \<Rightarrow> u8 list" where
  "unknown_scancode codes =
     lit ''Unknown scancode '' @ concat (map (\<lambda>c. lit '' 0x'' @ hex_str (unat c)) codes) @ [10]"

definition is_prefix :: "u8 \<Rightarrow> bool" where
  "is_prefix c \<longleftrightarrow> c = 0xF0 \<or> c = 0xE0 \<or> c = 0xE1"

text \<open>
  The part of the handler that runs once a scan code is complete: what a key does, and the decoding of
  the buffer that finds the key.
\<close>

definition kb_key :: "u8 \<Rightarrow> u32 \<Rightarrow> kb_t \<Rightarrow> kb_t" where
  "kb_key press c s =
     (let s = (if c = key KEY_LSHIFT \<or> c = key KEY_RSHIFT then s\<lparr>kb_shift_pressed := press\<rparr> else s);
          s = (if c = 0 then
                 s\<lparr>kb_out := kb_out s @ unknown_scancode (take (unat (kb_scan_len s)) (kb_scan_buf s))\<rparr>
               else if press \<noteq> 0 \<and> c < 256 then s\<lparr>kb_out := kb_out s @ [ucast c]\<rparr>
               else s)
      in s\<lparr>kb_scan_len := 0\<rparr>)"

definition kb_decode :: "kb_t \<Rightarrow> kb_t option" where
  "kb_decode s =
     do { b \<leftarrow> arr_get (kb_scan_buf s) 0;
          let (keymap, it) = (if b = 0xE0 then (kb_keymap2, 1) else (kb_keymap1, 0));
          b \<leftarrow> arr_get (kb_scan_buf s) it;
          let (press, it) = (if b = 0xF0 then (0, it + 1) else (1, it));
          b \<leftarrow> arr_get (kb_scan_buf s) it;
          (normal, shifted) \<leftarrow> arr_get keymap (ucast b);
          c \<leftarrow> arr_get [normal, shifted] (ucast (kb_shift_pressed s));
          Some (kb_key press c s) }"

definition kb_byte :: "u8 \<Rightarrow> kb_t \<Rightarrow> kb_t option" where
  "kb_byte scan_code s =
     do { buf \<leftarrow> arr_set (kb_scan_buf s) (kb_scan_len s) scan_code;
          let s = s\<lparr>kb_scan_buf := buf, kb_scan_len := kb_scan_len s + 1\<rparr>;
          if \<not> is_prefix scan_code then kb_decode s else Some s }"

definition kb_handle_interrupt :: "'w bus \<Rightarrow> kb_t \<Rightarrow> 'w \<Rightarrow> (kb_t \<times> 'w) option" where
  "kb_handle_interrupt b s w =
     (let (scan_code, w) = inb b PS2_DATA w in do { s \<leftarrow> kb_byte scan_code s; Some (s, w) })"

section \<open>Key presses and releases\<close>

text \<open>
  The specification: a keyboard sends presses and releases of keys, the keys of the second table with
  the prefix \<open>E0\<close> and releases with the prefix \<open>F0\<close>.
\<close>

datatype key_event = Key (released: bool) (extended: bool) (code: u8)

fun scan_codes :: "key_event \<Rightarrow> u8 list" where
  "scan_codes (Key rel ext c) = (if ext then [0xE0] else []) @ (if rel then [0xF0] else []) @ [c]"

definition key_of :: "bool \<Rightarrow> bool \<Rightarrow> u8 \<Rightarrow> u32" where
  "key_of shift ext c = (if shift then snd else fst) ((if ext then kb_keymap2 else kb_keymap1) ! unat c)"

fun key_step :: "key_event \<Rightarrow> bool \<times> u8 list \<Rightarrow> bool \<times> u8 list" where
  "key_step (Key rel ext c) (shift, out) =
     (let k = key_of shift ext c
      in (if k = key KEY_LSHIFT \<or> k = key KEY_RSHIFT then \<not> rel else shift,
          out @ (if k = 0 then unknown_scancode (scan_codes (Key rel ext c))
                 else if \<not> rel \<and> k < 256 then [ucast k] else [])))"

definition kb_idle :: "kb_t \<Rightarrow> bool" where
  "kb_idle s \<longleftrightarrow> length (kb_scan_buf s) = 16 \<and> kb_scan_len s = 0 \<and> kb_shift_pressed s \<in> {0, 1}"

definition kb_abs :: "kb_t \<Rightarrow> bool \<times> u8 list" where
  "kb_abs s = (kb_shift_pressed s = 1, kb_out s)"

fun kb_bytes :: "u8 list \<Rightarrow> kb_t \<Rightarrow> kb_t option" where
  "kb_bytes [] s = Some s"
| "kb_bytes (c # cs) s = do { s \<leftarrow> kb_byte c s; kb_bytes cs s }"

fun kb_interrupts :: "'w bus \<Rightarrow> nat \<Rightarrow> kb_t \<Rightarrow> 'w \<Rightarrow> (kb_t \<times> 'w) option" where
  "kb_interrupts b 0 s w = Some (s, w)"
| "kb_interrupts b (Suc n) s w = do { (s, w) \<leftarrow> kb_handle_interrupt b s w; kb_interrupts b n s w }"

text \<open>A read of the data port takes the next byte of the queue \<open>q\<close> of bytes the keyboard has sent.\<close>

definition sends :: "'w bus \<Rightarrow> ('w \<Rightarrow> u8 list) \<Rightarrow> bool" where
  "sends b q \<longleftrightarrow> (\<forall>w. q w \<noteq> [] \<longrightarrow> fst (inb b PS2_DATA w) = hd (q w) \<and> q (snd (inb b PS2_DATA w)) = tl (q w))"

lemma kb_bytes_append: "kb_bytes (xs @ ys) s = do { s \<leftarrow> kb_bytes xs s; kb_bytes ys s }"
  by (induction xs arbitrary: s) (auto split: Option.bind_splits)

lemma length_keymaps [simp]: "length kb_keymap1 = 256" "length kb_keymap2 = 256"
proof -
  have fold: "length (fold (\<lambda>(i, e) km. km[i := e]) ups km) = length km" for ups :: "(nat \<times> 'e) list" and km
    by (induction ups arbitrary: km) auto
  show "length kb_keymap1 = 256" unfolding kb_keymap1_def by (simp del: key.simps)
  show "length kb_keymap2 = 256" unfolding kb_keymap2_def fold by simp
qed

lemma kb_keymap_get: "arr_get kb_keymap1 (ucast (c :: u8)) = Some (kb_keymap1 ! unat c)"
  "arr_get kb_keymap2 (ucast c) = Some (kb_keymap2 ! unat c)"
proof -
  have "unat c < 2 ^ 8" using unsigned_less [of c] by simp
  then have "unat (ucast c :: u32) = unat c" "unat c < 256"
    by (simp_all add: unsigned_ucast_eq take_bit_nat_eq_self)
  then show "arr_get kb_keymap1 (ucast (c :: u8)) = Some (kb_keymap1 ! unat c)"
    "arr_get kb_keymap2 (ucast c) = Some (kb_keymap2 ! unat c)"
    by (simp_all add: arr_get_def)
qed

lemma arr_get_Cons:
  "arr_get (x # xs) 0 = Some x" "arr_get (x # y # xs) 1 = Some y" "arr_get (x # y # z # xs) 2 = Some z"
  by (simp_all add: arr_get_def)

lemma kb_decode_result:
  assumes "kb_scan_buf s = scan_codes (Key rel ext c) @ rest" and "\<not> is_prefix c"
    and "kb_shift_pressed s = (if shift then 1 else 0)"
  shows "kb_decode s = Some (kb_key (if rel then 0 else 1) (key_of shift ext c) s)"
proof -
  from assms(2) have np: "c \<noteq> 0xF0" "c \<noteq> 0xE0" by (auto simp: is_prefix_def)
  show ?thesis
    unfolding kb_decode_def assms(1,3) key_of_def
    by (cases rel; cases ext; cases shift)
      (simp_all add: np arr_get_Cons kb_keymap_get case_prod_beta)
qed

lemma kb_key_abs:
  assumes "take (unat (kb_scan_len s)) (kb_scan_buf s) = scan_codes (Key rel ext c)"
    and "kb_shift_pressed s = (if shift then 1 else 0)"
  defines "s' \<equiv> kb_key (if rel then 0 else 1) (key_of shift ext c) s"
  shows "kb_abs s' = key_step (Key rel ext c) (shift, kb_out s)"
    "kb_scan_len s' = 0" "kb_scan_buf s' = kb_scan_buf s" "kb_shift_pressed s' \<in> {0, 1}"
proof -
  define k where "k = key_of shift ext c"
  show "kb_abs s' = key_step (Key rel ext c) (shift, kb_out s)"
    unfolding s'_def kb_key_def Let_def kb_abs_def key_step.simps k_def [symmetric]
    using assms(1,2) by (simp del: scan_codes.simps key.simps)
  show "kb_scan_len s' = 0" "kb_scan_buf s' = kb_scan_buf s" "kb_shift_pressed s' \<in> {0, 1}"
    using assms(2) by (simp_all add: s'_def kb_key_def Let_def k_def [symmetric] del: key.simps)
qed

section \<open>The scan code buffer\<close>

definition kb_wf :: "kb_t \<Rightarrow> bool" where
  "kb_wf s \<longleftrightarrow> length (kb_scan_buf s) = 16 \<and> kb_scan_len s \<le> 16 \<and> kb_shift_pressed s \<in> {0, 1}"

text \<open>A byte of the keyboard finds its place in the buffer, and the tables have an entry for every code.\<close>

lemma kb_decode_wf:
  assumes "kb_wf s"
  shows "\<exists>s'. kb_decode s = Some s' \<and> kb_wf s'"
proof -
  have len: "length (kb_scan_buf s) = 16" and sh: "kb_shift_pressed s = 0 \<or> kb_shift_pressed s = 1"
    using assms by (auto simp: kb_wf_def)
  have get: "\<exists>v. arr_get (kb_scan_buf s) i = Some v" if "i < 16" for i :: u32
    using that len by (simp add: word_less_nat_alt)
  from get [of 0] get [of 1] get [of 2] obtain c0 c1 c2 where
    c: "arr_get (kb_scan_buf s) 0 = Some c0" "arr_get (kb_scan_buf s) 1 = Some c1" "arr_get (kb_scan_buf s) 2 = Some c2"
    by fastforce
  have pick: "\<exists>v. arr_get [x, y] (ucast (kb_shift_pressed s)) = Some v" for x y :: u32
    using sh by (auto simp: arr_get_Cons)
  have wf: "kb_wf (kb_key press v s)" if "press \<in> {0, 1}" for press v
    using assms that by (auto simp: kb_key_def kb_wf_def Let_def simp del: key.simps)
  have dec: "kb_decode s = Some (kb_key press v s)"
    if "kb_decode s = do { c \<leftarrow> arr_get [x, y] (ucast (kb_shift_pressed s)); Some (kb_key press c s) }"
      and "arr_get [x, y] (ucast (kb_shift_pressed s)) = Some v" for x y press v
    using that by simp
  have "\<exists>x y press. press \<in> {0, 1} \<and>
    kb_decode s = do { c \<leftarrow> arr_get [x, y] (ucast (kb_shift_pressed s)); Some (kb_key press c s) }"
    unfolding kb_decode_def
    by (cases "c0 = 0xE0"; cases "c0 = 0xF0"; cases "c1 = 0xF0")
      (auto simp: c kb_keymap_get case_prod_beta)
  with pick dec wf show ?thesis by metis
qed

lemma kb_byte_wf:
  assumes "kb_wf s" and "kb_scan_len s < 16"
  shows "\<exists>s'. kb_byte c s = Some s' \<and> kb_wf s'"
proof -
  let ?s = "s\<lparr>kb_scan_buf := (kb_scan_buf s)[unat (kb_scan_len s) := c], kb_scan_len := kb_scan_len s + 1\<rparr>"
  have len: "length (kb_scan_buf s) = 16" "unat (kb_scan_len s) < 16" using assms by (auto simp: kb_wf_def word_less_nat_alt)
  have succ: "kb_scan_len s + 1 \<le> 16"
    using len(2) unat_succ_less [OF assms(2)] by (simp add: word_le_nat_alt)
  have byte: "kb_byte c s = (if is_prefix c then Some ?s else kb_decode ?s)" using len by (simp add: kb_byte_def)
  have wf: "kb_wf ?s" using assms(1) succ by (simp add: kb_wf_def)
  from kb_decode_wf [OF wf] wf show ?thesis unfolding byte by simp
qed

lemma kb_byte_full: "kb_wf s \<Longrightarrow> kb_scan_len s = 16 \<Longrightarrow> kb_byte c s = None"
  by (simp add: kb_byte_def kb_wf_def arr_set_def)


text \<open>The buffer holds the prefixes since the last scan code.\<close>

definition prefix_run :: "u8 list \<Rightarrow> nat" where
  "prefix_run cs = length (takeWhile is_prefix (rev cs))"

lemma prefix_run_snoc [simp]:
  "prefix_run [] = 0" "prefix_run (cs @ [c]) = (if is_prefix c then Suc (prefix_run cs) else 0)"
  by (simp_all add: prefix_run_def)

lemma prefix_run_ge:
  "n \<le> prefix_run xs \<longleftrightarrow> (\<exists>zs ps. xs = zs @ ps \<and> list_all is_prefix ps \<and> length ps = n)"
proof
  assume n: "n \<le> prefix_run xs"
  let ?r = "takeWhile is_prefix (rev xs)"
  have "list_all is_prefix (take n ?r)" by (auto simp: list_all_iff dest: in_set_takeD set_takeWhileD)
  moreover have "rev xs = take n ?r @ drop n ?r @ dropWhile is_prefix (rev xs)"
    by (metis append.assoc append_take_drop_id takeWhile_dropWhile_id)
  then have "xs = rev (drop n ?r @ dropWhile is_prefix (rev xs)) @ rev (take n ?r)" by (metis rev_append rev_rev_ident)
  ultimately show "\<exists>zs ps. xs = zs @ ps \<and> list_all is_prefix ps \<and> length ps = n"
    using n by (intro exI [of _ "rev (drop n ?r @ dropWhile is_prefix (rev xs))"] exI [of _ "rev (take n ?r)"])
      (simp add: prefix_run_def list_all_iff)
next
  assume "\<exists>zs ps. xs = zs @ ps \<and> list_all is_prefix ps \<and> length ps = n"
  then obtain zs ps where xs: "xs = zs @ ps" "\<And>x. x \<in> set (rev ps) \<Longrightarrow> is_prefix x" "length ps = n"
    by (auto simp: list_all_iff)
  have "takeWhile is_prefix (rev ps @ rev zs) = rev ps @ takeWhile is_prefix (rev zs)"
    by (rule takeWhile_append2) (rule xs(2))
  then show "n \<le> prefix_run xs" by (simp add: prefix_run_def xs(1) xs(3) [symmetric])
qed

lemma kb_decode_empties: "kb_decode s = Some s' \<Longrightarrow> kb_scan_len s' = 0"
  by (auto simp: kb_decode_def kb_key_def Let_def case_prod_beta simp del: key.simps split: bind_splits)

lemma kb_byte_run:
  assumes "kb_wf s" and "kb_byte c s = Some s'"
  shows "unat (kb_scan_len s') = (if is_prefix c then Suc (unat (kb_scan_len s)) else 0)"
proof -
  have "kb_scan_len s < 16" using assms kb_byte_full by (fastforce simp: kb_wf_def order_less_le)
  then show ?thesis using assms(2) unat_succ_less [of "kb_scan_len s" 16] kb_decode_empties
    by (auto simp: kb_byte_def split: if_splits bind_splits)
qed

text \<open>A sequence of bytes overruns the buffer if some proper part of it ends in sixteen prefixes.\<close>

definition overrun :: "u8 list \<Rightarrow> bool" where
  "overrun cs \<longleftrightarrow> (\<exists>xs ys. cs = xs @ ys \<and> 16 \<le> prefix_run xs \<and> ys \<noteq> [])"

lemma overrun_snoc: "overrun (cs @ [c]) \<longleftrightarrow> overrun cs \<or> 16 \<le> prefix_run cs"
proof
  assume "overrun (cs @ [c])"
  then obtain xs ys where xy: "cs @ [c] = xs @ ys" "16 \<le> prefix_run xs" "ys \<noteq> []" unfolding overrun_def by blast
  from \<open>ys \<noteq> []\<close> obtain zs z where ys: "ys = zs @ [z]" by (metis rev_exhaust)
  with xy(1) have cs: "cs = xs @ zs" by simp
  show "overrun cs \<or> 16 \<le> prefix_run cs"
  proof (cases "zs = []")
    case True
    with cs xy(2) show ?thesis by simp
  next
    case False
    with cs xy(2) show ?thesis unfolding overrun_def by blast
  qed
next
  assume "overrun cs \<or> 16 \<le> prefix_run cs"
  then show "overrun (cs @ [c])"
  proof
    assume "overrun cs"
    then obtain xs ys where "cs = xs @ ys" "16 \<le> prefix_run xs" unfolding overrun_def by blast
    then have "cs @ [c] = xs @ (ys @ [c]) \<and> 16 \<le> prefix_run xs \<and> ys @ [c] \<noteq> []" by simp
    then show ?thesis unfolding overrun_def by (intro exI)
  next
    assume "16 \<le> prefix_run cs"
    then show ?thesis unfolding overrun_def by blast
  qed
qed

lemma kb_bytes_run:
  "if overrun cs then kb_bytes cs kb_init = None
   else \<exists>s. kb_bytes cs kb_init = Some s \<and> kb_wf s \<and> unat (kb_scan_len s) = prefix_run cs"
proof (induction cs rule: rev_induct)
  case Nil
  show ?case by (simp add: overrun_def kb_wf_def kb_init_def)
next
  case (snoc c cs)
  show ?case
  proof (cases "overrun cs")
    case True
    with snoc show ?thesis by (simp add: overrun_snoc kb_bytes_append)
  next
    case False
    with snoc obtain s where s: "kb_bytes cs kb_init = Some s" "kb_wf s" "unat (kb_scan_len s) = prefix_run cs" by auto
    show ?thesis
    proof (cases "kb_scan_len s = 16")
      case True
      with s kb_byte_full [OF s(2) True] show ?thesis by (simp add: overrun_snoc kb_bytes_append)
    next
      case less: False
      then have less: "kb_scan_len s < 16" using s(2) by (simp add: kb_wf_def order_less_le)
      then have "\<not> overrun (cs @ [c])" using s(3) False by (simp add: overrun_snoc word_less_nat_alt)
      moreover from kb_byte_wf [OF s(2) less] obtain s' where s': "kb_byte c s = Some s'" "kb_wf s'" by blast
      moreover have "unat (kb_scan_len s') = prefix_run (cs @ [c])" using kb_byte_run [OF s(2) s'(1)] s(3) by simp
      ultimately show ?thesis using s(1) by (simp add: kb_bytes_append)
    qed
  qed
qed

section \<open>Scan codes\<close>

lemma kb_prefixes_stored:
  assumes "list_all is_prefix cs" and "unat (kb_scan_len s) + length cs \<le> length (kb_scan_buf s)"
    and "length (kb_scan_buf s) = 16"
  shows "\<exists>buf. kb_bytes cs s = Some (s\<lparr>kb_scan_buf := buf, kb_scan_len := kb_scan_len s + of_nat (length cs)\<rparr>) \<and>
    length buf = 16 \<and> take (unat (kb_scan_len s) + length cs) buf = take (unat (kb_scan_len s)) (kb_scan_buf s) @ cs"
  using assms
proof (induction cs arbitrary: s)
  case Nil
  then show ?case by (intro exI [of _ "kb_scan_buf s"]) simp
next
  case (Cons c cs)
  let ?n = "unat (kb_scan_len s)"
  let ?s = "s\<lparr>kb_scan_buf := (kb_scan_buf s)[?n := c], kb_scan_len := kb_scan_len s + 1\<rparr>"
  from Cons.prems have n: "?n < 16" by simp
  then have n1: "unat (kb_scan_len s + 1) = Suc ?n"
    using unat_succ_less [of "kb_scan_len s" 16] by (simp add: word_less_nat_alt)
  from Cons.prems n have step: "kb_byte c s = Some ?s" by (simp add: kb_byte_def arr_set_def)
  have tk: "take (Suc ?n) ((kb_scan_buf s)[?n := c]) = take ?n (kb_scan_buf s) @ [c]"
    using n Cons.prems(3) by (simp add: take_Suc_conv_app_nth)
  from Cons.IH [of ?s] Cons.prems n1 obtain buf where
    "kb_bytes cs ?s = Some (?s\<lparr>kb_scan_buf := buf, kb_scan_len := kb_scan_len s + 1 + of_nat (length cs)\<rparr>)"
    "length buf = 16" "take (Suc ?n + length cs) buf = take (Suc ?n) ((kb_scan_buf s)[?n := c]) @ cs"
    by auto
  then show ?case by (intro exI [of _ buf]) (simp add: step tk add.assoc)
qed

lemma kb_event:
  assumes idle: "kb_idle s" and c: "\<not> is_prefix c"
  shows "\<exists>s'. kb_bytes (scan_codes (Key rel ext c)) s = Some s' \<and> kb_idle s' \<and>
    kb_abs s' = key_step (Key rel ext c) (kb_abs s)"
proof -
  define ps where "ps = (if ext then [0xE0] else []) @ (if rel then [0xF0 :: u8] else [])"
  have codes: "scan_codes (Key rel ext c) = ps @ [c]" and lp: "length ps \<le> 2" and ap: "list_all is_prefix ps"
    by (auto simp: ps_def is_prefix_def)
  from idle have len: "length (kb_scan_buf s) = 16" and sl: "kb_scan_len s = 0"
    and sh: "kb_shift_pressed s = (if kb_shift_pressed s = 1 then 1 else 0)"
    by (auto simp: kb_idle_def)
  from kb_prefixes_stored [OF ap, of s] len lp sl obtain buf where
    ps: "kb_bytes ps s = Some (s\<lparr>kb_scan_buf := buf, kb_scan_len := of_nat (length ps)\<rparr>)"
    and buf: "length buf = 16" "take (length ps) buf = ps" by auto
  have n: "unat (of_nat (length ps) :: usz) = length ps" using lp by (intro unat_of_nat_small) simp
  let ?s = "s\<lparr>kb_scan_buf := buf[length ps := c], kb_scan_len := of_nat (length ps) + 1\<rparr>"
  have tk: "take (Suc (length ps)) (buf[length ps := c]) = ps @ [c]"
    using buf lp by (simp add: take_Suc_conv_app_nth)
  have n1: "unat (of_nat (length ps) + 1 :: usz) = Suc (length ps)"
    using lp unat_of_nat_small [of "Suc (length ps)"] by (simp add: add.commute)
  have byte: "kb_byte c (s\<lparr>kb_scan_buf := buf, kb_scan_len := of_nat (length ps)\<rparr>) = kb_decode ?s"
    using c buf(1) lp by (simp add: kb_byte_def arr_set_def n)
  have "buf[length ps := c] = scan_codes (Key rel ext c) @ drop (Suc (length ps)) (buf[length ps := c])"
    unfolding codes tk [symmetric] by (rule append_take_drop_id [symmetric])
  from kb_decode_result [OF _ c, of ?s rel ext _ "kb_shift_pressed s = 1"] this sh
  have dec: "kb_decode ?s = Some (kb_key (if rel then 0 else 1) (key_of (kb_shift_pressed s = 1) ext c) ?s)"
    by simp
  have "take (unat (kb_scan_len ?s)) (kb_scan_buf ?s) = scan_codes (Key rel ext c)"
    unfolding codes by (simp add: tk n1)
  note key = kb_key_abs [OF this, of "kb_shift_pressed s = 1"]
  have "kb_bytes (scan_codes (Key rel ext c)) s =
      Some (kb_key (if rel then 0 else 1) (key_of (kb_shift_pressed s = 1) ext c) ?s)"
    unfolding codes kb_bytes_append ps by (simp add: byte dec)
  moreover have "kb_idle (kb_key (if rel then 0 else 1) (key_of (kb_shift_pressed s = 1) ext c) ?s)"
    using key(2-4) sh by (simp add: kb_idle_def buf(1))
  moreover have "kb_abs (kb_key (if rel then 0 else 1) (key_of (kb_shift_pressed s = 1) ext c) ?s) =
      key_step (Key rel ext c) (kb_abs s)"
    using key(1) sh by (simp add: kb_abs_def [of s] del: key_step.simps)
  ultimately show ?thesis by blast
qed

lemma kb_events:
  assumes "kb_idle s" and "\<forall>e \<in> set evs. \<not> is_prefix (code e)"
  shows "\<exists>s'. kb_bytes (concat (map scan_codes evs)) s = Some s' \<and> kb_idle s' \<and>
    kb_abs s' = fold key_step evs (kb_abs s)"
  using assms
proof (induction evs arbitrary: s)
  case (Cons e evs)
  obtain rel ext c where e: "e = Key rel ext c" by (cases e)
  with Cons.prems obtain s1 where s1: "kb_bytes (scan_codes e) s = Some s1" "kb_idle s1"
      "kb_abs s1 = key_step e (kb_abs s)"
    using kb_event [of s c rel ext] by auto
  with Cons.IH [of s1] Cons.prems show ?case by (auto simp: kb_bytes_append simp del: scan_codes.simps)
qed simp

lemma kb_interrupts_bytes:
  assumes "sends b q" and "q w = cs @ rest"
  shows "\<exists>w'. q w' = rest \<and>
    kb_interrupts b (length cs) s w = map_option (\<lambda>s. (s, w')) (kb_bytes cs s)"
  using assms(2)
proof (induction cs arbitrary: s w)
  case (Cons c cs)
  let ?w = "snd (inb b PS2_DATA w)"
  from assms(1) Cons.prems have "fst (inb b PS2_DATA w) = c" and qw: "q ?w = cs @ rest"
    by (auto simp: sends_def)
  then have step: "kb_handle_interrupt b s w = map_option (\<lambda>s. (s, ?w)) (kb_byte c s)"
    by (cases "kb_byte c s") (simp_all add: kb_handle_interrupt_def case_prod_beta)
  show ?case
  proof (cases "kb_byte c s")
    case None
    from Cons.IH [OF qw, of s] obtain w' where "q w' = rest" by blast
    with None show ?thesis by (auto simp: step)
  next
    case (Some s1)
    with Cons.IH [OF qw, of s1] show ?thesis by (auto simp: step)
  qed
qed simp

text \<open>
  C21 Interrupted once for each byte, \<^verbatim>\<open>kb_handle_interrupt\<close> implements the decoder of key events: for
  every sequence of presses and releases it leaves \<^verbatim>\<open>scan_buf\<close> empty, tracks the shift keys and has
  written exactly the characters of the pressed keys, shifted or not, and a message for each key
  that has no entry in the tables.
\<close>

theorem kb_interrupts_decode:
  assumes "sends b q" and "q w = concat (map scan_codes evs) @ rest"
    and "\<forall>e \<in> set evs. \<not> is_prefix (code e)" and "kb_idle s"
  shows "\<exists>s' w'. kb_interrupts b (length (concat (map scan_codes evs))) s w = Some (s', w') \<and>
    q w' = rest \<and> kb_idle s' \<and> kb_abs s' = fold key_step evs (kb_abs s)"
  using kb_interrupts_bytes [OF assms(1,2), of s] kb_events [OF assms(4,3)] by auto

text \<open>A world that is the queue itself.\<close>

definition queue_bus :: "u8 list bus" where
  "queue_bus = \<lparr>bus_inb = \<lambda>_ w. (hd w, tl w), bus_inw = \<lambda>_ w. (0, w), bus_inl = \<lambda>_ w. (0, w),
     bus_outb = \<lambda>_ _ w. w, bus_outw = \<lambda>_ _ w. w, bus_outl = \<lambda>_ _ w. w,
     bus_ldl = \<lambda>_ w. (0, w), bus_stl = \<lambda>_ _ w. w, bus_time = \<lambda>w. (0, w)\<rparr>"

lemma queue_bus_sends: "sends queue_bus id"
  by (simp add: sends_def queue_bus_def inb_def)

lemma kb_init_idle: "kb_idle kb_init"
  by (simp add: kb_idle_def kb_init_def)

text \<open>Press the left shift key, press and release A, release shift, press A.\<close>

definition sample_keys :: "key_event list" where
  "sample_keys = [Key False False 0x12, Key False False 0x1C, Key True False 0x1C, Key True False 0x12,
     Key False False 0x1C]"

theorem kb_interrupts_decode_witness:
  "\<exists>s' w'. kb_interrupts queue_bus 7 kb_init [0x12, 0x1C, 0xF0, 0x1C, 0xF0, 0x12, 0x1C, 0xE0] = Some (s', w') \<and>
    w' = [0xE0] \<and> kb_idle s' \<and> kb_abs s' = (False, lit ''Aa'')"
proof -
  have codes: "concat (map scan_codes sample_keys) = [0x12, 0x1C, 0xF0, 0x1C, 0xF0, 0x12, 0x1C]"
    by (simp add: sample_keys_def)
  have len: "Suc (Suc (Suc (Suc (Suc (Suc (Suc 0)))))) = 7" by simp
  have ok: "\<forall>e \<in> set sample_keys. \<not> is_prefix (code e)" by (simp add: sample_keys_def is_prefix_def)
  have spec: "fold key_step sample_keys (kb_abs kb_init) = (False, lit ''Aa'')"
    by code_simp
  show ?thesis
    using kb_interrupts_decode [OF queue_bus_sends _ ok kb_init_idle, of "[0x12, 0x1C, 0xF0, 0x1C, 0xF0, 0x12, 0x1C, 0xE0]" "[0xE0]"]
    by (simp add: codes spec len del: kb_interrupts.simps)
qed

text \<open>
  C22 The exact bound of the scan code buffer.  \<^verbatim>\<open>scan_len\<close> is only reset by a byte that is not a prefix and
  never compared with the size of \<^verbatim>\<open>scan_buf\<close>: from the initial state, the handler leaves its arrays on some
  sequence of bytes if and only if the sequence has sixteen prefix bytes in a row and then another byte.
\<close>

theorem kb_overrun_iff:
  assumes "sends b q" and "q w = cs @ rest"
  shows "kb_interrupts b (length cs) kb_init w = None \<longleftrightarrow>
    (\<exists>xs ps ys. cs = xs @ ps @ ys \<and> list_all is_prefix ps \<and> length ps = 16 \<and> ys \<noteq> [])"
proof -
  have "kb_interrupts b (length cs) kb_init w = None \<longleftrightarrow> kb_bytes cs kb_init = None"
    using kb_interrupts_bytes [OF assms, of kb_init] by auto
  also have "\<dots> \<longleftrightarrow> overrun cs" using kb_bytes_run [of cs] by (auto split: if_splits)
  also have "\<dots> \<longleftrightarrow> (\<exists>xs ps ys. cs = xs @ ps @ ys \<and> list_all is_prefix ps \<and> length ps = 16 \<and> ys \<noteq> [])"
    unfolding overrun_def prefix_run_ge by (metis append.assoc)
  finally show ?thesis .
qed

theorem kb_overrun_iff_witness:
  "kb_interrupts queue_bus 17 kb_init (replicate 17 0xE0) = None"
proof -
  have "replicate 17 0xE0 = [] @ replicate 16 0xE0 @ [0xE0 :: u8]" "list_all is_prefix (replicate 16 0xE0)"
    by (simp_all add: numeral_eq_Suc is_prefix_def)
  then have "replicate 17 0xE0 = [] @ replicate 16 0xE0 @ [0xE0 :: u8] \<and> list_all is_prefix (replicate 16 0xE0) \<and>
    length (replicate 16 (0xE0 :: u8)) = 16 \<and> [0xE0 :: u8] \<noteq> []" by simp
  then have "\<exists>xs ps ys. replicate 17 0xE0 = xs @ ps @ ys \<and> list_all is_prefix ps \<and> length ps = 16 \<and> ys \<noteq> []"
    by (intro exI)
  moreover have "id (replicate 17 (0xE0 :: u8)) = replicate 17 0xE0 @ []" by simp
  note kb_overrun_iff [OF queue_bus_sends this]
  ultimately show ?thesis unfolding length_replicate by (rule iffD2 [rotated])
qed

end
