(* ===== verification/Mouse.thy ===== *)
theory Mouse
  imports Ps2
begin

text \<open>
  The mouse driver \<^verbatim>\<open>kernel/drivers/mouse.c\<close>: the interrupt handler, which drains the controller of mouse
  bytes and decodes a packet each time three or four of them have arrived, and the initialisation,
  which negotiates the packet size.

  The lemmas show that the handler is a fold of a function of one byte over the queued bytes, what a
  sequence of packets does to the pointer, and which displacements it gets right.
\<close>

section \<open>Constants of \<^verbatim>\<open>kernel/drivers/mouse.h\<close>\<close>

definition MS_CMD_SET_DEFAULTS :: u8 where "MS_CMD_SET_DEFAULTS = 0xF6"
definition MS_CMD_ENABLE_DREP :: u8 where "MS_CMD_ENABLE_DREP = 0xF4"
definition MS_CMD_SET_SAMPLE_RATE :: u8 where "MS_CMD_SET_SAMPLE_RATE = 0xF3"
definition MS_CMD_GET_DEVICE_ID :: u8 where "MS_CMD_GET_DEVICE_ID = 0xF2"
definition MS_CPKT_LMB :: u8 where "MS_CPKT_LMB = 0x01"
definition MS_CPKT_RMB :: u8 where "MS_CPKT_RMB = 0x02"
definition MS_CPKT_MMB :: u8 where "MS_CPKT_MMB = 0x04"
definition MS_CPKT_XSIGN :: u8 where "MS_CPKT_XSIGN = 0x10"
definition MS_CPKT_YSIGN :: u8 where "MS_CPKT_YSIGN = 0x20"
definition MS_5PKT_ZM :: u8 where "MS_5PKT_ZM = 0x0F"
definition MS_5PKT_4MB :: u8 where "MS_5PKT_4MB = 0x10"
definition MS_5PKT_5MB :: u8 where "MS_5PKT_5MB = 0x20"
definition MS_BTN_1 :: nat where "MS_BTN_1 = 0"
definition MS_BTN_2 :: nat where "MS_BTN_2 = 1"
definition MS_BTN_3 :: nat where "MS_BTN_3 = 2"
definition MS_BTN_4 :: nat where "MS_BTN_4 = 3"
definition MS_BTN_5 :: nat where "MS_BTN_5 = 4"

lemmas mouse_consts =
  MS_CPKT_LMB_def MS_CPKT_RMB_def MS_CPKT_MMB_def MS_CPKT_XSIGN_def MS_CPKT_YSIGN_def MS_5PKT_ZM_def
  MS_5PKT_4MB_def MS_5PKT_5MB_def MS_BTN_1_def MS_BTN_2_def MS_BTN_3_def MS_BTN_4_def MS_BTN_5_def

section \<open>Definitions\<close>

record mouse_t =
  mouse_type :: u32
  mouse_packet_size :: u32
  mouse_x :: i32
  mouse_y :: i32
  mouse_z :: i32
  mouse_button_states :: "u8 list"
  packet_byte :: u32
  packet :: "u8 list"

definition mouse_start :: mouse_t where
  "mouse_start = \<lparr>mouse_type = ucast PS2_DEV_GENERIC_MOUSE, mouse_packet_size = 3, mouse_x = 0, mouse_y = 0,
     mouse_z = 0, mouse_button_states = replicate 5 0, packet_byte = 0, packet = replicate 4 0\<rparr>"

text \<open>\<^verbatim>\<open>(i16)((((p0 & sign) << 8) | byte) << 8) >> 8\<close>, computed in \<^verbatim>\<open>int\<close>.\<close>

definition mouse_offset :: "u8 \<Rightarrow> u8 \<Rightarrow> u8 \<Rightarrow> i32" where
  "mouse_offset p0 sign byte =
     (let v = push_bit 8 (push_bit 8 (ucast (p0 AND sign)) OR ucast byte) :: 32 word
      in signed_drop_bit 8 (scast (ucast v :: 16 word)))"

text \<open>\<^verbatim>\<open>(i8)((byte & MS_5PKT_ZM) << 4) >> 4\<close>.\<close>

definition mouse_scroll :: "u8 \<Rightarrow> i32" where
  "mouse_scroll byte =
     (let v = push_bit 4 (ucast (byte AND MS_5PKT_ZM)) :: 32 word in signed_drop_bit 4 (scast (ucast v :: 8 word)))"

text \<open>What a complete packet does.\<close>

definition mouse_packet :: "mouse_t \<Rightarrow> mouse_t" where
  "mouse_packet s =
     (let p0 = packet s ! 0;
          bs = (mouse_button_states s)[MS_BTN_1 := p0 AND MS_CPKT_LMB, MS_BTN_2 := p0 AND MS_CPKT_RMB,
                 MS_BTN_3 := p0 AND MS_CPKT_MMB];
          s = s\<lparr>mouse_button_states := bs,
                mouse_x := mouse_x s + mouse_offset p0 MS_CPKT_XSIGN (packet s ! 1),
                mouse_y := mouse_y s - mouse_offset p0 MS_CPKT_YSIGN (packet s ! 2)\<rparr>
      in if mouse_type s = ucast PS2_DEV_ZAXIS_MOUSE then s\<lparr>mouse_z := mouse_z s + scast (packet s ! 3)\<rparr>
         else if mouse_type s = ucast PS2_DEV_5BTN_MOUSE then
           let p3 = packet s ! 3
           in s\<lparr>mouse_z := mouse_z s + mouse_scroll p3,
                mouse_button_states := bs[MS_BTN_4 := p3 AND MS_5PKT_4MB, MS_BTN_5 := p3 AND MS_5PKT_5MB]\<rparr>
         else s)"

definition mouse_byte :: "u8 \<Rightarrow> mouse_t \<Rightarrow> mouse_t option" where
  "mouse_byte byte s =
     do { p \<leftarrow> arr_set (packet s) (packet_byte s) byte;
          let s = s\<lparr>packet := p, packet_byte := packet_byte s + 1\<rparr>;
          if packet_byte s < mouse_packet_size s then Some s
          else Some (mouse_packet (s\<lparr>packet_byte := 0\<rparr>)) }"

partial_function (option) mouse_handle_interrupt :: "'w bus \<Rightarrow> mouse_t \<Rightarrow> 'w \<Rightarrow> (mouse_t \<times> 'w) option" where
  "mouse_handle_interrupt b s w =
     (let (status, w) = inb b PS2_STATUS w
      in if status AND PS2_SR_OUT \<noteq> 0 \<and> status AND PS2_SR_MOUSE \<noteq> 0 then
           let (byte, w) = inb b PS2_DATA w
           in do { s \<leftarrow> mouse_byte byte s; mouse_handle_interrupt b s w }
         else Some (s, w))"

definition mouse_set_rate :: "'w bus \<Rightarrow> u8 \<Rightarrow> u8 \<Rightarrow> 'w \<Rightarrow> 'w option" where
  "mouse_set_rate b port rate w =
     do { (_, w) \<leftarrow> ps2_send_port b port MS_CMD_SET_SAMPLE_RATE w;
          (_, w) \<leftarrow> ps2_recv b w;
          (_, w) \<leftarrow> ps2_send_port b port rate w;
          Some w }"

definition mouse_initialize :: "'w bus \<Rightarrow> u8 \<Rightarrow> mouse_t \<Rightarrow> 'w \<Rightarrow> (mouse_t \<times> 'w) option" where
  "mouse_initialize b port s w =
     do { (_, w) \<leftarrow> ps2_send_port b port MS_CMD_SET_DEFAULTS w;
          (_, w) \<leftarrow> ps2_recv b w;
          (_, w) \<leftarrow> ps2_send_port b port MS_CMD_ENABLE_DREP w;
          (_, w) \<leftarrow> ps2_recv b w;
          w \<leftarrow> mouse_set_rate b port 200 w;
          w \<leftarrow> mouse_set_rate b port 100 w;
          w \<leftarrow> mouse_set_rate b port 80 w;
          (_, w) \<leftarrow> ps2_send_port b port MS_CMD_GET_DEVICE_ID w;
          (_, w) \<leftarrow> ps2_recv b w;
          (r, w) \<leftarrow> ps2_recv b w;
          let s = s\<lparr>mouse_type := scast r\<rparr>;
          if mouse_type s = 3 then
            do { let s = s\<lparr>mouse_packet_size := 4\<rparr>;
                 w \<leftarrow> mouse_set_rate b port 200 w;
                 w \<leftarrow> mouse_set_rate b port 200 w;
                 w \<leftarrow> mouse_set_rate b port 80 w;
                 (_, w) \<leftarrow> ps2_send_port b port MS_CMD_GET_DEVICE_ID w;
                 (_, w) \<leftarrow> ps2_recv b w;
                 (r, w) \<leftarrow> ps2_recv b w;
                 Some (s\<lparr>mouse_type := scast r\<rparr>, w) }
          else Some (s, w) }"

section \<open>Offsets\<close>

text \<open>The sign bit of the packet is shifted out by the cast: the offset is the byte, sign extended.\<close>

lemma mouse_offset_byte: "mouse_offset p0 sign byte = scast byte"
proof (rule bit_word_eqI)
  fix n assume "n < LENGTH(32)"
  then have "n < 32" by simp
  have mn: "min 15 (8 + n) - 8 = min 7 n" by auto
  from \<open>n < 32\<close> show "bit (mouse_offset p0 sign byte) n = bit (scast byte :: i32) n"
    by (auto simp: mouse_offset_def Let_def bit_simps mn)
qed

lemma sint_mouse_offset: "sint (mouse_offset p0 sign (of_int d)) = signed_take_bit 7 d"
proof -
  have "sint (scast (of_int d :: u8) :: i32) = sint (of_int d :: u8)"
    by (rule sint_up_scast) (simp add: is_up)
  then show ?thesis by (simp add: mouse_offset_byte sint_sbintrunc')
qed

lemma mouse_offset_small:
  assumes "- 128 \<le> d" "d < 128"
  shows "mouse_offset p0 sign (of_int d) = of_int d"
proof -
  from assms have "signed_take_bit 7 d = d" "sint (of_int d :: i32) = d"
    by (simp_all add: signed_take_bit_int_eq_self sint_sbintrunc')
  with sint_mouse_offset [of p0 sign d] show ?thesis by (metis signed_of_int of_int_sint scast_id)
qed

section \<open>The handler\<close>

text \<open>
  The bytes the mouse has sent wait in the queue \<open>q\<close>: the status register tells whether there is one,
  and a read of the data port takes it.
\<close>

definition mouse_sends :: "'w bus \<Rightarrow> ('w \<Rightarrow> u8 list) \<Rightarrow> bool" where
  "mouse_sends b q \<longleftrightarrow> (\<forall>w. q (snd (inb b PS2_STATUS w)) = q w \<and>
     (fst (inb b PS2_STATUS w) AND PS2_SR_OUT \<noteq> 0 \<and> fst (inb b PS2_STATUS w) AND PS2_SR_MOUSE \<noteq> 0
        \<longleftrightarrow> q w \<noteq> []) \<and>
     (q w \<noteq> [] \<longrightarrow> fst (inb b PS2_DATA w) = hd (q w) \<and> q (snd (inb b PS2_DATA w)) = tl (q w)))"

fun mouse_bytes :: "u8 list \<Rightarrow> mouse_t \<Rightarrow> mouse_t option" where
  "mouse_bytes [] s = Some s"
| "mouse_bytes (c # cs) s = do { s \<leftarrow> mouse_byte c s; mouse_bytes cs s }"

lemma mouse_handle_bytes:
  assumes "mouse_sends b q" and "mouse_bytes (q w) s = Some s'"
  shows "\<exists>w'. mouse_handle_interrupt b s w = Some (s', w') \<and> q w' = []"
  using assms(2)
proof (induction "q w" arbitrary: s w)
  case Nil
  with assms(1) show ?case
    by (subst mouse_handle_interrupt.simps) (auto simp: case_prod_beta mouse_sends_def)
next
  case (Cons c cs)
  let ?w1 = "snd (inb b PS2_STATUS w)"
  let ?w = "snd (inb b PS2_DATA ?w1)"
  from assms(1) Cons(2) have q1: "q ?w1 = c # cs" by (simp add: mouse_sends_def)
  with assms(1) have d: "fst (inb b PS2_DATA ?w1) = c" "q ?w = cs" by (auto simp: mouse_sends_def)
  from assms(1) Cons(2) have st: "fst (inb b PS2_STATUS w) AND PS2_SR_OUT \<noteq> 0 \<and>
      fst (inb b PS2_STATUS w) AND PS2_SR_MOUSE \<noteq> 0" by (metis list.distinct(1) mouse_sends_def)
  from Cons(2,3) obtain s1 where s1: "mouse_byte c s = Some s1" "mouse_bytes cs s1 = Some s'"
    by (metis bind_eq_Some_conv mouse_bytes.simps(2))
  with Cons(1) [of ?w s1] d(2) obtain w' where "mouse_handle_interrupt b s1 ?w = Some (s', w')" "q w' = []"
    by auto
  then show ?case
    by (subst mouse_handle_interrupt.simps) (simp add: case_prod_beta st d(1) s1(1))
qed

section \<open>The state of the driver\<close>

text \<open>The buffers have their sizes, and the next byte of a packet its place.\<close>

definition mouse_wf :: "mouse_t \<Rightarrow> bool" where
  "mouse_wf s \<longleftrightarrow> length (packet s) = 4 \<and> length (mouse_button_states s) = 5 \<and> mouse_packet_size s \<in> {3, 4} \<and>
     packet_byte s < mouse_packet_size s"

lemma mouse_packet_fields [simp]:
  "packet (mouse_packet s) = packet s" "mouse_packet_size (mouse_packet s) = mouse_packet_size s"
  "packet_byte (mouse_packet s) = packet_byte s"
  "length (mouse_button_states (mouse_packet s)) = length (mouse_button_states s)"
  by (simp_all add: mouse_packet_def Let_def)

lemma mouse_byte_wf:
  assumes "mouse_wf s"
  shows "\<exists>s'. mouse_byte c s = Some s' \<and> mouse_wf s'"
proof -
  have "mouse_packet_size s = 3 \<or> mouse_packet_size s = 4" "packet_byte s < mouse_packet_size s" "length (packet s) = 4"
    using assms by (auto simp: mouse_wf_def)
  then have "unat (packet_byte s) < length (packet s)" by (auto simp: word_less_nat_alt)
  then show ?thesis using assms by (auto simp: mouse_byte_def mouse_wf_def Let_def)
qed

lemma mouse_bytes_wf: "mouse_wf s \<Longrightarrow> \<exists>s'. mouse_bytes cs s = Some s' \<and> mouse_wf s'"
proof (induction cs arbitrary: s)
  case (Cons c cs)
  with mouse_byte_wf [of s c] show ?case by auto
qed simp

text \<open>Whenever the handler of the mouse returns, it has run through some bytes.\<close>

lemma mouse_handle_interrupt_bytes:
  assumes "mouse_handle_interrupt b s w = Some r"
  shows "\<exists>cs. mouse_bytes cs s = Some (fst r)"
proof (rule mouse_handle_interrupt.raw_induct [rotated, OF assms])
  fix f b s w r
  assume IH: "\<And>b s w r. f b s w = Some r \<Longrightarrow> \<exists>cs. mouse_bytes cs s = Some (fst r)"
    and run: "(let (status, w) = inb b PS2_STATUS w
      in if status AND PS2_SR_OUT \<noteq> 0 \<and> status AND PS2_SR_MOUSE \<noteq> 0 then
           let (byte, w) = inb b PS2_DATA w
           in do { s \<leftarrow> mouse_byte byte s; f b s w }
         else Some (s, w)) = Some r"
  have "s = fst r \<or> (\<exists>c s' w'. mouse_byte c s = Some s' \<and> f b s' w' = Some r)"
    using run by (auto simp: case_prod_beta Let_def split: if_splits bind_splits)
  then show "\<exists>cs. mouse_bytes cs s = Some (fst r)"
  proof (elim disjE exE conjE)
    fix c s' w' assume "mouse_byte c s = Some s'" "f b s' w' = Some r"
    moreover from IH [OF this(2)] obtain cs where "mouse_bytes cs s' = Some (fst r)" ..
    ultimately have "mouse_bytes (c # cs) s = Some (fst r)" by simp
    then show ?thesis ..
  qed (intro exI [of _ "[]"], simp)
qed

lemma mouse_handle_interrupt_wf:
  assumes "mouse_handle_interrupt b s w = Some r" and "mouse_wf s"
  shows "mouse_wf (fst r)"
  using mouse_handle_interrupt_bytes [OF assms(1)] mouse_bytes_wf [OF assms(2)] by (metis option.sel)

lemma mouse_initialize_wf:
  assumes "mouse_initialize b port s w = Some (s', w')" and "mouse_wf s"
  shows "mouse_wf s'"
proof -
  have "x < 4" if "x < 3" for x :: u32 using that by (simp add: word_less_nat_alt)
  then show ?thesis using assms
    by (auto simp: mouse_initialize_def mouse_wf_def Let_def split: if_splits bind_splits)
qed

section \<open>Reports\<close>

text \<open>
  A packet of a plain mouse reports the buttons and the displacement since the last packet, a pair of
  9-bit two's complement numbers whose upper bits are in the first byte.
\<close>

datatype mouse_report = Report (buttons: u8) (dx: int) (dy: int)

definition report_packet :: "mouse_report \<Rightarrow> u8 list" where
  "report_packet r =
     [(buttons r AND 7) OR 8 OR (if dx r < 0 then MS_CPKT_XSIGN else 0) OR (if dy r < 0 then MS_CPKT_YSIGN else 0),
      of_int (dx r), of_int (dy r)]"

definition mouse_ready :: "mouse_t \<Rightarrow> bool" where
  "mouse_ready s \<longleftrightarrow> mouse_type s = ucast PS2_DEV_GENERIC_MOUSE \<and> mouse_packet_size s = 3 \<and>
     packet_byte s = 0 \<and> length (packet s) = 4 \<and> length (mouse_button_states s) = 5"

definition small_report :: "mouse_report \<Rightarrow> bool" where
  "small_report r \<longleftrightarrow> - 128 \<le> dx r \<and> dx r < 128 \<and> - 128 \<le> dy r \<and> dy r < 128"

text \<open>
  What the driver takes a displacement for: the low byte as a signed number.  It is the displacement if and only if
  that is in the range of a signed byte.
\<close>

definition low_byte :: "int \<Rightarrow> int" where
  "low_byte d = (d + 128) mod 256 - 128"

lemma low_byte_exact: "low_byte d = d \<longleftrightarrow> - 128 \<le> d \<and> d < 128"
proof
  assume "low_byte d = d"
  then have "(d + 128) mod 256 = d + 128" by (simp add: low_byte_def)
  then show "- 128 \<le> d \<and> d < 128" using pos_mod_bound [of 256 "d + 128"] pos_mod_sign [of 256 "d + 128"] by linarith
qed (simp add: low_byte_def mod_pos_pos_trivial)

lemma low_byte_small: "small_report r \<Longrightarrow> low_byte (dx r) = dx r \<and> low_byte (dy r) = dy r"
  by (simp add: small_report_def low_byte_exact)

lemma mouse_offset_low_byte: "mouse_offset p0 sign (of_int d) = of_int (low_byte d)"
proof -
  have "sint (mouse_offset p0 sign (of_int d)) = low_byte d"
    by (simp add: sint_mouse_offset low_byte_def signed_take_bit_eq_take_bit_shift take_bit_eq_mod)
  then have "of_int (sint (mouse_offset p0 sign (of_int d))) = (of_int (low_byte d) :: i32)" by (rule arg_cong)
  then show ?thesis by simp
qed

lemma mouse_bytes_append: "mouse_bytes (xs @ ys) s = do { s \<leftarrow> mouse_bytes xs s; mouse_bytes ys s }"
  by (induction xs arbitrary: s) (auto split: Option.bind_splits)

lemma mouse_report_step:
  assumes "mouse_ready s"
  shows "\<exists>s'. mouse_bytes (report_packet r) s = Some s' \<and> mouse_ready s' \<and>
    mouse_x s' = mouse_x s + of_int (low_byte (dx r)) \<and> mouse_y s' = mouse_y s - of_int (low_byte (dy r)) \<and>
    take 3 (mouse_button_states s') = [buttons r AND 1, buttons r AND 2, buttons r AND 4]"
proof -
  from assms have rd: "mouse_type s = 0" "mouse_packet_size s = 3" "packet_byte s = 0"
      "length (packet s) = 4" "length (mouse_button_states s) = 5"
    by (auto simp: mouse_ready_def ps2_consts)
  from rd(4) obtain p0 p1 p2 p3 where p: "packet s = [p0, p1, p2, p3]"
    by (auto simp: numeral_eq_Suc length_Suc_conv)
  from rd(5) obtain b0 b1 b2 b3 b4 where bs: "mouse_button_states s = [b0, b1, b2, b3, b4]"
    by (auto simp: numeral_eq_Suc length_Suc_conv)
  define f where "f = hd (report_packet r)"
  have f: "report_packet r = [f, of_int (dx r), of_int (dy r)]"
    and fb: "f AND 1 = buttons r AND 1" "f AND 2 = buttons r AND 2" "f AND 4 = buttons r AND 4"
    by (simp_all add: f_def report_packet_def mouse_consts bit.conj_disj_distrib2 and.assoc)
  show ?thesis
    by (simp add: f mouse_byte_def arr_set_def rd(1-3) p bs mouse_packet_def Let_def mouse_offset_low_byte fb mouse_ready_def
      mouse_consts ps2_consts)
qed

lemma mouse_reports:
  assumes "mouse_ready s"
  shows "\<exists>s'. mouse_bytes (concat (map report_packet rs)) s = Some s' \<and> mouse_ready s' \<and>
    mouse_x s' = mouse_x s + of_int (\<Sum>r\<leftarrow>rs. low_byte (dx r)) \<and>
    mouse_y s' = mouse_y s - of_int (\<Sum>r\<leftarrow>rs. low_byte (dy r)) \<and>
    (rs \<noteq> [] \<longrightarrow> take 3 (mouse_button_states s') =
       [buttons (last rs) AND 1, buttons (last rs) AND 2, buttons (last rs) AND 4])"
  using assms
proof (induction rs arbitrary: s)
  case (Cons r rs)
  then obtain s1 where s1: "mouse_bytes (report_packet r) s = Some s1" "mouse_ready s1"
      "mouse_x s1 = mouse_x s + of_int (low_byte (dx r))" "mouse_y s1 = mouse_y s - of_int (low_byte (dy r))"
      "take 3 (mouse_button_states s1) = [buttons r AND 1, buttons r AND 2, buttons r AND 4]"
    using mouse_report_step [of s r] by auto
  with Cons.IH [of s1] Cons.prems show ?case by (cases rs) (auto simp: mouse_bytes_append)
qed simp

lemma small_sums:
  "list_all small_report rs \<Longrightarrow> (\<Sum>r\<leftarrow>rs. low_byte (dx r)) = (\<Sum>r\<leftarrow>rs. dx r) \<and> (\<Sum>r\<leftarrow>rs. low_byte (dy r)) = (\<Sum>r\<leftarrow>rs. dy r)"
  by (induction rs) (simp_all add: low_byte_small)

text \<open>
  C35 One interrupt handles all packets of a plain mouse that have arrived: \<^verbatim>\<open>mouse_handle_interrupt\<close> returns with the
  queue of the controller empty, the buttons of the last report, and the pointer moved, in screen coordinates, by the
  sum of the low bytes of the reported displacements taken as signed bytes.  That is the sum of the displacements
  themselves when all of them are in the range of a signed byte; the sign bits of the packet are ignored, so a
  larger one is misread.
\<close>

theorem mouse_handle_interrupt_moves:
  assumes "mouse_sends b q" and "q w = concat (map report_packet rs)" and "rs \<noteq> []" and "mouse_ready s"
  shows "\<exists>s' w'. mouse_handle_interrupt b s w = Some (s', w') \<and> q w' = [] \<and> mouse_ready s' \<and>
    mouse_x s' = mouse_x s + of_int (\<Sum>r\<leftarrow>rs. low_byte (dx r)) \<and>
    mouse_y s' = mouse_y s - of_int (\<Sum>r\<leftarrow>rs. low_byte (dy r)) \<and>
    (list_all small_report rs \<longrightarrow> mouse_x s' = mouse_x s + of_int (\<Sum>r\<leftarrow>rs. dx r) \<and>
       mouse_y s' = mouse_y s - of_int (\<Sum>r\<leftarrow>rs. dy r)) \<and>
    take 3 (mouse_button_states s') =
      [buttons (last rs) AND 1, buttons (last rs) AND 2, buttons (last rs) AND 4]"
proof -
  from mouse_reports [OF assms(4), of rs] assms(2,3) obtain s' where
    "mouse_bytes (q w) s = Some s'" and r: "mouse_ready s'" "mouse_x s' = mouse_x s + of_int (\<Sum>r\<leftarrow>rs. low_byte (dx r))"
      "mouse_y s' = mouse_y s - of_int (\<Sum>r\<leftarrow>rs. low_byte (dy r))" "take 3 (mouse_button_states s') =
      [buttons (last rs) AND 1, buttons (last rs) AND 2, buttons (last rs) AND 4]" by auto
  with mouse_handle_bytes [OF assms(1), of w s s'] small_sums [of rs] show ?thesis by auto
qed

definition mouse_bus :: "u8 list bus" where
  "mouse_bus = \<lparr>bus_inb = \<lambda>port w. if port = PS2_STATUS then (if w = [] then 0 else 0x21, w) else (hd w, tl w),
     bus_inw = \<lambda>_ w. (0, w), bus_inl = \<lambda>_ w. (0, w),
     bus_outb = \<lambda>_ _ w. w, bus_outw = \<lambda>_ _ w. w, bus_outl = \<lambda>_ _ w. w,
     bus_ldl = \<lambda>_ w. (0, w), bus_stl = \<lambda>_ _ w. w, bus_time = \<lambda>w. (0, w)\<rparr>"

lemma mouse_bus_sends: "mouse_sends mouse_bus id"
  by (simp add: mouse_sends_def mouse_bus_def inb_def ps2_consts)

text \<open>Two reports, the second with a displacement of 200 to the right, which moves the pointer 56 to the left.\<close>

theorem mouse_handle_interrupt_moves_witness:
  "\<exists>s' w'. mouse_handle_interrupt mouse_bus mouse_start [0x18, 0xFE, 3, 0x09, 200, 1] = Some (s', w') \<and>
    w' = [] \<and> mouse_ready s' \<and> mouse_x s' = - 58 \<and> mouse_y s' = - 4 \<and>
    take 3 (mouse_button_states s') = [1, 0, 0]"
proof -
  have "mouse_ready mouse_start" by (simp add: mouse_ready_def mouse_start_def)
  from mouse_handle_interrupt_moves [OF mouse_bus_sends _ _ this,
      of "[0x18, 0xFE, 3, 0x09, 200, 1]" "[Report 0 (- 2) 3, Report 1 200 1]"]
  show ?thesis by (simp add: report_packet_def low_byte_def small_report_def mouse_consts mouse_start_def)
qed

text \<open>
  The handler ignores the sign bits of the packet: of the 512 displacements that a packet can
  report, it decodes exactly those in the range of a signed byte.  A faster motion is applied in the
  wrong direction or with the wrong size.
\<close>

lemma mouse_offset_ignores_sign:
  assumes "- 256 \<le> d" and "d < 256"
  shows "mouse_offset (if d < 0 then sign else 0) sign (of_int d) = of_int d \<longleftrightarrow> - 128 \<le> d \<and> d < 128"
proof
  assume "mouse_offset (if d < 0 then sign else 0) sign (of_int d) = of_int d"
  with sint_mouse_offset [of "if d < 0 then sign else 0" sign d] have "signed_take_bit 7 d = sint (of_int d :: i32)"
    by simp
  also from assms have "sint (of_int d :: i32) = d" by (simp add: sint_sbintrunc' signed_take_bit_int_eq_self)
  finally show "- 128 \<le> d \<and> d < 128"
    using signed_take_bit_int_less_exp [of 7 d] signed_take_bit_int_greater_eq_minus_exp [of 7 d] by simp
qed (simp add: mouse_offset_small)

lemma mouse_offset_ignores_sign_witness: "mouse_offset 0 MS_CPKT_XSIGN 200 \<noteq> 200"
  using mouse_offset_ignores_sign [of 200 MS_CPKT_XSIGN] by simp

section \<open>Initialisation\<close>

lemma mouse_set_rate_returns [returns_rules]: "ticks b \<Longrightarrow> returns (mouse_set_rate b port rate w)"
  unfolding mouse_set_rate_def by (intro returns_rules)

lemma mouse_initialize_returns: "ticks b \<Longrightarrow> returns (mouse_initialize b port s w)"
  unfolding mouse_initialize_def by (intro returns_rules)

text \<open>The scroll offset of a five-button mouse is its low nibble, sign extended.\<close>

lemma mouse_scroll_nibble: "mouse_scroll byte = signed_take_bit 3 (ucast byte)"
proof (rule bit_word_eqI)
  fix n assume "n < LENGTH(32)"
  have m: "min 7 (4 + n) - 4 = min 3 n" by auto
  have zm: "MS_5PKT_ZM = mask 4" by (simp add: mouse_consts mask_eq_exp_minus_1)
  from \<open>n < LENGTH(32)\<close> show "bit (mouse_scroll byte) n = bit (signed_take_bit 3 (ucast byte) :: i32) n"
    by (auto simp: mouse_scroll_def Let_def bit_simps zm m)
qed

end
