(* ===== verification/Pic.thy ===== *)
theory Pic
  imports Hw
begin

text \<open>
  The legacy interrupt controllers, \<^verbatim>\<open>kernel/drivers/pic.c\<close>: remapping, masking and end of interrupt.

  The lemmas read the two mask registers as one 16-bit mask and show for which interrupt lines
  \<^verbatim>\<open>pic_mask_irq\<close> and \<^verbatim>\<open>pic_unmask_irq\<close> change the bit of that line.
\<close>

section \<open>Definitions\<close>

definition PIC1_CMD :: u16 where "PIC1_CMD = 0x20"
definition PIC1_DATA :: u16 where "PIC1_DATA = 0x20 + 1"
definition PIC2_CMD :: u16 where "PIC2_CMD = 0xA0"
definition PIC2_DATA :: u16 where "PIC2_DATA = 0xA0 + 1"
definition PIC_IRQ_OFFS :: u8 where "PIC_IRQ_OFFS = 0x20"
definition ICW1_ICW4 :: u8 where "ICW1_ICW4 = 0x01"
definition ICW1_INIT :: u8 where "ICW1_INIT = 0x10"
definition ICW4_8086 :: u8 where "ICW4_8086 = 0x01"
definition PIC_EOI :: u8 where "PIC_EOI = 0x20"

lemmas pic_consts = PIC1_CMD_def PIC1_DATA_def PIC2_CMD_def PIC2_DATA_def PIC_IRQ_OFFS_def ICW1_ICW4_def
  ICW1_INIT_def ICW4_8086_def PIC_EOI_def

definition pic_initialize :: "'w bus \<Rightarrow> 'w \<Rightarrow> 'w" where
  "pic_initialize b w =
     (let (mask1, w) = inb b PIC1_DATA w;
          (mask2, w) = inb b PIC2_DATA w
      in outbs b [(PIC1_CMD, ICW1_INIT OR ICW1_ICW4), (PIC2_CMD, ICW1_INIT OR ICW1_ICW4),
           (PIC1_DATA, PIC_IRQ_OFFS), (PIC2_DATA, PIC_IRQ_OFFS + 8),
           (PIC1_DATA, 4), (PIC2_DATA, 2),
           (PIC1_DATA, ICW4_8086), (PIC2_DATA, ICW4_8086)] w)"

definition pic_get_irq_port :: "u8 \<Rightarrow> u16 \<times> u8" where
  "pic_get_irq_port irq = (if irq > 8 then (PIC2_DATA, irq - 8) else (PIC1_DATA, irq))"

text \<open>The shift is computed in \<^verbatim>\<open>int\<close> and cut to a byte by \<^verbatim>\<open>outb\<close>.\<close>

definition pic_mask_irq :: "'w bus \<Rightarrow> u8 \<Rightarrow> 'w \<Rightarrow> 'w" where
  "pic_mask_irq b irq w =
     (let (port, irq) = pic_get_irq_port irq;
          (mask, w) = inb b port w
      in outb b port (ucast (ucast mask OR push_bit (unat irq) 1 :: i32)) w)"

definition pic_unmask_irq :: "'w bus \<Rightarrow> u8 \<Rightarrow> 'w \<Rightarrow> 'w" where
  "pic_unmask_irq b irq w =
     (let (port, irq) = pic_get_irq_port irq;
          (mask, w) = inb b port w
      in outb b port (ucast (ucast mask AND NOT (push_bit (unat irq) 1) :: i32)) w)"

definition pic_mask_all :: "'w bus \<Rightarrow> 'w \<Rightarrow> 'w" where
  "pic_mask_all b w = outbs b [(PIC1_DATA, 0xFF), (PIC2_DATA, 0xFF)] w"

definition pic_unmask_all :: "'w bus \<Rightarrow> 'w \<Rightarrow> 'w" where
  "pic_unmask_all b w = outbs b [(PIC1_DATA, 0), (PIC2_DATA, 0)] w"

definition pic_eoi :: "'w bus \<Rightarrow> u8 \<Rightarrow> 'w \<Rightarrow> 'w" where
  "pic_eoi b irq w =
     (let w = (if irq \<ge> 8 then outb b PIC2_CMD PIC_EOI w else w) in outb b PIC1_CMD PIC_EOI w)"

section \<open>The interrupt mask\<close>

text \<open>The data ports of initialised controllers are registers, \<open>m1\<close> and \<open>m2\<close>, that do not affect each other.\<close>

definition pic_regs :: "'w bus \<Rightarrow> ('w \<Rightarrow> u8) \<Rightarrow> ('w \<Rightarrow> u8) \<Rightarrow> bool" where
  "pic_regs b m1 m2 \<longleftrightarrow> (\<forall>w v.
     inb b PIC1_DATA w = (m1 w, w) \<and> inb b PIC2_DATA w = (m2 w, w) \<and>
     m1 (outb b PIC1_DATA v w) = v \<and> m2 (outb b PIC1_DATA v w) = m2 w \<and>
     m1 (outb b PIC2_DATA v w) = m1 w \<and> m2 (outb b PIC2_DATA v w) = v)"

definition imr :: "('w \<Rightarrow> u8) \<Rightarrow> ('w \<Rightarrow> u8) \<Rightarrow> 'w \<Rightarrow> u16" where
  "imr m1 m2 w = ucast (m1 w) OR push_bit 8 (ucast (m2 w))"

lemma bit_imr: "bit (imr m1 m2 w) n \<longleftrightarrow> (if n < 8 then bit (m1 w) n else bit (m2 w) (n - 8))"
proof -
  have "\<not> bit (m1 w) n" if "8 \<le> n" using that by (simp add: impossible_bit)
  moreover have "n < 16" if "bit (m2 w) (n - 8)" using bit_imp_le_length [OF that] by simp
  ultimately show ?thesis by (auto simp: imr_def bit_simps)
qed

lemma irq_bits:
  fixes mask :: u8
  assumes "k \<le> 8"
  shows "bit (ucast (ucast mask OR 2 ^ k :: i32) :: u8) n \<longleftrightarrow> bit mask n \<or> n = k \<and> k \<noteq> 8"
    "bit (ucast (ucast mask AND NOT (2 ^ k) :: i32) :: u8) n \<longleftrightarrow> bit mask n \<and> n \<noteq> k"
proof -
  have "n < 8" if "bit mask n" using bit_imp_le_length [OF that] by simp
  then show "bit (ucast (ucast mask OR 2 ^ k :: i32) :: u8) n \<longleftrightarrow> bit mask n \<or> n = k \<and> k \<noteq> 8"
    "bit (ucast (ucast mask AND NOT (2 ^ k) :: i32) :: u8) n \<longleftrightarrow> bit mask n \<and> n \<noteq> k"
    using assms by (auto simp: bit_simps)
qed

lemma pic_mask_irq_imr:
  assumes "pic_regs b m1 m2" and "irq < 16"
  shows "bit (imr m1 m2 (pic_mask_irq b irq w)) n \<longleftrightarrow> bit (imr m1 m2 w) n \<or> n = unat irq \<and> irq \<noteq> 8"
    "bit (imr m1 m2 (pic_unmask_irq b irq w)) n \<longleftrightarrow> bit (imr m1 m2 w) n \<and> (n \<noteq> unat irq \<or> irq = 8)"
proof -
  have lt: "unat irq < 16" using assms(2) by (simp add: word_less_nat_alt)
  have eq8: "irq = 8 \<longleftrightarrow> unat irq = 8" by (simp add: word_unat_eq_iff)
  note regs = assms(1) [unfolded pic_regs_def, rule_format]
  have "bit (imr m1 m2 (pic_mask_irq b irq w)) n = (bit (imr m1 m2 w) n \<or> n = unat irq \<and> irq \<noteq> 8) \<and>
    bit (imr m1 m2 (pic_unmask_irq b irq w)) n = (bit (imr m1 m2 w) n \<and> (n \<noteq> unat irq \<or> irq = 8))"
  proof (cases "irq > 8")
    case True
    then have "unat (irq - 8) = unat irq - 8" "8 < unat irq"
      by (simp_all add: unat_sub word_le_nat_alt word_less_nat_alt)
    with True lt regs show ?thesis
      by (auto simp: bit_imr pic_mask_irq_def pic_unmask_irq_def pic_get_irq_port_def irq_bits eq8)
  next
    case False
    then have "unat irq \<le> 8" by (simp add: word_less_nat_alt)
    with False regs show ?thesis
      by (auto simp: bit_imr pic_mask_irq_def pic_unmask_irq_def pic_get_irq_port_def irq_bits eq8)
  qed
  then show "bit (imr m1 m2 (pic_mask_irq b irq w)) n \<longleftrightarrow> bit (imr m1 m2 w) n \<or> n = unat irq \<and> irq \<noteq> 8"
    "bit (imr m1 m2 (pic_unmask_irq b irq w)) n \<longleftrightarrow> bit (imr m1 m2 w) n \<and> (n \<noteq> unat irq \<or> irq = 8)"
    by simp_all
qed

text \<open>
  \<^verbatim>\<open>pic_mask_irq\<close> sets and \<^verbatim>\<open>pic_unmask_irq\<close> clears exactly the mask bit of its line, for every line but
  8: that one is taken for a line of the first controller, whose register has no bit 8, so both
  operations leave the mask as it is.
\<close>

lemma pic_mask_irq_except_8:
  assumes "pic_regs b m1 m2" and "irq < 16"
  shows "imr m1 m2 (pic_mask_irq b irq w) =
      (if irq = 8 then imr m1 m2 w else set_bit (unat irq) (imr m1 m2 w)) \<and>
    imr m1 m2 (pic_unmask_irq b irq w) =
      (if irq = 8 then imr m1 m2 w else unset_bit (unat irq) (imr m1 m2 w))"
proof -
  have "unat irq < 16" using assms(2) by (simp add: word_less_nat_alt)
  then show ?thesis
    by (intro conjI; intro bit_word_eqI) (auto simp: pic_mask_irq_imr [OF assms] bit_simps)
qed

text \<open>A world of the two mask registers.\<close>

definition pic_bus :: "(u8 \<times> u8) bus" where
  "pic_bus = \<lparr>bus_inb = \<lambda>port w. (if port = PIC1_DATA then fst w else snd w, w),
     bus_inw = \<lambda>_ w. (0, w), bus_inl = \<lambda>_ w. (0, w),
     bus_outb = \<lambda>port v w. if port = PIC1_DATA then (v, snd w) else if port = PIC2_DATA then (fst w, v) else w,
     bus_outw = \<lambda>_ _ w. w, bus_outl = \<lambda>_ _ w. w,
     bus_ldl = \<lambda>_ w. (0, w), bus_stl = \<lambda>_ _ w. w, bus_time = \<lambda>w. (0, w)\<rparr>"

lemma pic_bus_regs: "pic_regs pic_bus fst snd"
  by (simp add: pic_regs_def pic_bus_def inb_def outb_def pic_consts)

lemma pic_mask_irq_except_8_witness:
  "imr fst snd (pic_mask_irq pic_bus 12 (0, 0)) = 0x1000 \<and> imr fst snd (pic_mask_irq pic_bus 8 (0, 0)) = 0"
  using pic_mask_irq_except_8 [OF pic_bus_regs, of 12 "(0, 0)"] pic_mask_irq_except_8 [OF pic_bus_regs, of 8 "(0, 0)"]
  by (simp add: imr_def set_bit_eq_or)

end
