(* ===== verification/Pit.thy ===== *)
theory Pit
  imports Hw
begin

text \<open>
  The programmable interval timer \<^verbatim>\<open>kernel/drivers/pit.c\<close> and the speaker gate
  \<^verbatim>\<open>kernel/drivers/pc_speaker.c\<close>.  The time base itself, \<^verbatim>\<open>pit_systime_msec\<close>, is part of the scheduler
  state in \<^verbatim>\<open>Proc\<close>; here the busy wait reads it as the volatile variable it is.

  The lemmas show which bytes program a channel, and that the busy wait returns unless the time it
  waits for is the last value before the wrap-around.
\<close>

section \<open>Definitions\<close>

definition PIT_DATA0 :: u16 where "PIT_DATA0 = 0x40"
definition PIT_CMD :: u16 where "PIT_CMD = 0x43"
definition PIT_LOHIBYTE :: u8 where "PIT_LOHIBYTE = push_bit 4 0b11"
definition PIT_MODE3 :: u8 where "PIT_MODE3 = push_bit 1 0b011"
definition PCSPK_CMD :: u16 where "PCSPK_CMD = 0x61"
definition PCSPK_CONNECT_PIT2 :: u8 where "PCSPK_CONNECT_PIT2 = 0b11"

lemmas pit_consts = PIT_DATA0_def PIT_CMD_def PIT_LOHIBYTE_def PIT_MODE3_def PCSPK_CMD_def PCSPK_CONNECT_PIT2_def

definition pit_divisor :: "u32 \<Rightarrow> u32" where
  "pit_divisor hz = (7159090 + 6 div 2) div (6 * (if hz = 0 then 1 else hz))"

definition pit_set_frequency :: "'w bus \<Rightarrow> u8 \<Rightarrow> u32 \<Rightarrow> 'w \<Rightarrow> 'w" where
  "pit_set_frequency b channel hz w =
     (let divisor = pit_divisor hz;
          data_port = PIT_DATA0 + ucast channel;
          command = push_bit 6 channel OR PIT_MODE3 OR PIT_LOHIBYTE
      in outbs b [(PIT_CMD, command), (data_port, ucast divisor), (data_port, ucast (drop_bit 8 divisor))] w)"

definition pit_initialize :: "'w bus \<Rightarrow> 'w \<Rightarrow> 'w" where
  "pit_initialize b w = pit_set_frequency b 2 1000 (pit_set_frequency b 0 1000 w)"

partial_function (option) pit_wait :: "'w bus \<Rightarrow> u32 \<Rightarrow> 'w \<Rightarrow> 'w option" where
  "pit_wait b wait_until w =
     (let (t, w) = bus_time b w in if t \<le> wait_until then pit_wait b wait_until w else Some w)"

definition pit_sleep_msec :: "'w bus \<Rightarrow> u32 \<Rightarrow> 'w \<Rightarrow> 'w option" where
  "pit_sleep_msec b msec w = (let (t, w) = bus_time b w in pit_wait b (t + msec) w)"

definition pcspk_connect_pit :: "'w bus \<Rightarrow> 'w \<Rightarrow> 'w" where
  "pcspk_connect_pit b w = outb b PCSPK_CMD PCSPK_CONNECT_PIT2 w"

definition pcspk_disconnect_pit :: "'w bus \<Rightarrow> 'w \<Rightarrow> 'w" where
  "pcspk_disconnect_pit b w = outb b PCSPK_CMD (NOT PCSPK_CONNECT_PIT2) w"

section \<open>Programming the timer\<close>

text \<open>Both channels run in mode 3 with divisor 1193, a period of 0.99985 milliseconds.\<close>

lemma pit_initialize_bytes:
  "pit_initialize b w = outbs b [(0x43, 0x36), (0x40, 0xA9), (0x40, 0x04), (0x43, 0xB6), (0x42, 0xA9), (0x42, 0x04)] w"
proof -
  have "(1193 :: u8) = 169" by code_simp
  note eq = this
  show ?thesis
    by (simp add: pit_initialize_def pit_set_frequency_def pit_divisor_def Let_def pit_consts) (simp only: eq)
qed

text \<open>From 19 Hz up to the frequency of its oscillator the divisor fits the 16 bits of the register.\<close>

lemma pit_divisor_fits:
  assumes "19 \<le> hz" and "hz \<le> 1193182"
  shows "0 < unat (pit_divisor hz)" "unat (pit_divisor hz) < 2 ^ 16"
proof -
  have hz: "19 \<le> unat hz" "unat hz \<le> 1193182" using assms by (simp_all add: word_le_nat_alt)
  then have "unat (6 * hz) = 6 * unat hz" by (simp add: unat_word_ariths)
  moreover from hz have "hz \<noteq> 0" by auto
  ultimately have "unat (pit_divisor hz) = 7159093 div (6 * unat hz)"
    by (simp add: pit_divisor_def unat_div)
  moreover have "7159093 div (6 * unat hz) \<le> 7159093 div (6 * 19)" using hz by (intro div_le_mono2) simp_all
  moreover have "0 < 7159093 div (6 * unat hz)" using hz by (simp add: div_greater_zero_iff)
  ultimately show "0 < unat (pit_divisor hz)" "unat (pit_divisor hz) < 2 ^ 16" by simp_all
qed

section \<open>The busy wait\<close>

definition later :: "'w bus \<Rightarrow> 'w \<Rightarrow> 'w" where
  "later b w = snd (bus_time b w)"

definition time_ticks :: "'w bus \<Rightarrow> bool" where
  "time_ticks b = (\<forall>w. \<exists>n. fst (bus_time b ((later b ^^ n) w)) = fst (bus_time b w) + 1)"

lemma pit_wait_round:
  "pit_wait b wait_until w =
     (if fst (bus_time b w) \<le> wait_until then pit_wait b wait_until (later b w) else Some (later b w))"
  by (subst pit_wait.simps) (simp add: case_prod_beta later_def)

lemma pit_wait_rounds:
  assumes "returns (pit_wait b wait_until ((later b ^^ n) w))"
  shows "returns (pit_wait b wait_until w)"
  using assms
proof (induction n arbitrary: w)
  case (Suc n)
  then have "returns (pit_wait b wait_until (later b w))" by (simp add: funpow_swap1)
  then show ?case by (subst pit_wait_round) (simp add: returns_Some)
qed simp

lemma pit_wait_terminates:
  assumes "time_ticks b" and "wait_until \<noteq> 0xFFFFFFFF"
  shows "returns (pit_wait b wait_until w)"
proof (induction "Suc (unat wait_until) - unat (fst (bus_time b w))" arbitrary: w rule: less_induct)
  case less
  show ?case
  proof (cases "fst (bus_time b w) \<le> wait_until")
    case False
    then show ?thesis by (subst pit_wait_round) (simp add: returns_Some)
  next
    case True
    from assms(1) obtain n where
      n: "fst (bus_time b ((later b ^^ n) w)) = fst (bus_time b w) + 1"
      unfolding time_ticks_def by blast
    have "wait_until < 0xFFFFFFFF"
      using assms(2) [unfolded word_unat_eq_iff] unat_bound32 [of wait_until] by (simp add: word_less_nat_alt del: unat_bound32)
    with True have "unat (fst (bus_time b w) + 1) = Suc (unat (fst (bus_time b w)))"
      by (intro unat_succ_less [of _ "0xFFFFFFFF"]) simp
    with True have "returns (pit_wait b wait_until ((later b ^^ n) w))"
      by (intro less) (simp add: n word_le_nat_alt)
    then show ?thesis by (rule pit_wait_rounds)
  qed
qed

lemma pit_wait_diverges:
  assumes "pit_wait b wait_until w = Some w'"
  shows "wait_until \<noteq> 0xFFFFFFFF"
  using assms
proof (rule pit_wait.raw_induct [rotated])
  fix f and b :: "'b bus" and u w w'
  assume IH: "\<And>b u w w'. f b u w = Some w' \<Longrightarrow> u \<noteq> (0xFFFFFFFF :: u32)"
    and body: "(let (t, w) = bus_time b w in if t \<le> u then f b u w else Some w) = Some w'"
  have "fst (bus_time b w) \<le> 0xFFFFFFFF" using unat_bound32 [of "fst (bus_time b w)"] by (simp add: word_le_nat_alt del: unat_bound32)
  with IH body show "u \<noteq> 0xFFFFFFFF" by (auto simp: case_prod_beta split: if_splits)
qed

text \<open>
  C36 With a ticking clock \<^verbatim>\<open>pit_sleep_msec\<close> returns if and only if the sum of the current time and the
  delay is not the largest 32-bit number: the loop waits until the time is greater than that sum, which
  no time ever is.
\<close>

theorem pit_sleep_msec_returns_iff:
  assumes "time_ticks b"
  shows "(\<exists>w'. pit_sleep_msec b msec w = Some w') \<longleftrightarrow> fst (bus_time b w) + msec \<noteq> 0xFFFFFFFF"
proof
  assume "\<exists>w'. pit_sleep_msec b msec w = Some w'"
  then show "fst (bus_time b w) + msec \<noteq> 0xFFFFFFFF"
    by (auto simp: pit_sleep_msec_def case_prod_beta dest: pit_wait_diverges)
next
  assume "fst (bus_time b w) + msec \<noteq> 0xFFFFFFFF"
  from pit_wait_terminates [OF assms this, of "snd (bus_time b w)"]
  show "\<exists>w'. pit_sleep_msec b msec w = Some w'"
    by (simp add: pit_sleep_msec_def case_prod_beta returns_def)
qed

text \<open>A world that counts the reads of its clock.\<close>

definition clock_bus :: "u32 bus" where
  "clock_bus = \<lparr>bus_inb = \<lambda>_ w. (0, w), bus_inw = \<lambda>_ w. (0, w), bus_inl = \<lambda>_ w. (0, w),
     bus_outb = \<lambda>_ _ w. w, bus_outw = \<lambda>_ _ w. w, bus_outl = \<lambda>_ _ w. w,
     bus_ldl = \<lambda>_ w. (0, w), bus_stl = \<lambda>_ _ w. w, bus_time = \<lambda>w. (w, w + 1)\<rparr>"

lemma clock_bus_ticks: "time_ticks clock_bus"
  unfolding time_ticks_def by (intro allI exI [of _ 1]) (simp add: clock_bus_def later_def)

theorem pit_sleep_msec_returns_iff_witness:
  "(\<exists>w'. pit_sleep_msec clock_bus 10 5 = Some w') \<and> \<not> (\<exists>w'. pit_sleep_msec clock_bus 10 0xFFFFFFF5 = Some w')"
  using pit_sleep_msec_returns_iff [OF clock_bus_ticks, of 10 5] pit_sleep_msec_returns_iff [OF clock_bus_ticks, of 10 "0xFFFFFFF5"]
  by (simp add: clock_bus_def)

end
