(* ===== verification/Apic.thy ===== *)
theory Apic
  imports Pit
begin

text \<open>
  The local and the I/O APIC, \<^verbatim>\<open>kernel/drivers/apic.c\<close>.  Their registers are memory mapped; the base
  addresses are the two global pointers.

  The lemmas show the redirection table that \<^verbatim>\<open>apic_initialize\<close> leaves in the I/O APIC.
\<close>

section \<open>Definitions\<close>

definition LAPIC_REG_TPR :: u16 where "LAPIC_REG_TPR = 0x80"
definition LAPIC_REG_EOI :: u16 where "LAPIC_REG_EOI = 0xB0"
definition LAPIC_REG_LDR :: u16 where "LAPIC_REG_LDR = 0xD0"
definition LAPIC_REG_DFR :: u16 where "LAPIC_REG_DFR = 0xE0"
definition LAPIC_REG_SPUR :: u16 where "LAPIC_REG_SPUR = 0xF0"
definition LAPIC_REG_ERR :: u16 where "LAPIC_REG_ERR = 0x280"
definition LAPIC_REG_ICR1 :: u16 where "LAPIC_REG_ICR1 = 0x300"
definition LAPIC_REG_ICR2 :: u16 where "LAPIC_REG_ICR2 = 0x310"
definition APIC_IRQ_OFFS :: u32 where "APIC_IRQ_OFFS = 0x40"

lemmas apic_consts = LAPIC_REG_TPR_def LAPIC_REG_EOI_def LAPIC_REG_LDR_def LAPIC_REG_DFR_def LAPIC_REG_SPUR_def
  LAPIC_REG_ERR_def LAPIC_REG_ICR1_def LAPIC_REG_ICR2_def APIC_IRQ_OFFS_def

definition IOAPIC_REG_REDIR_LO :: "u32 \<Rightarrow> u32" where "IOAPIC_REG_REDIR_LO n = 0x10 + push_bit 1 n"
definition IOAPIC_REG_REDIR_HI :: "u32 \<Rightarrow> u32" where "IOAPIC_REG_REDIR_HI n = 0x10 + push_bit 1 n + 1"

record apic_t =
  lapic_base :: addr
  ioapic_base :: addr

definition lapic_write :: "'w bus \<Rightarrow> apic_t \<Rightarrow> u16 \<Rightarrow> u32 \<Rightarrow> 'w \<Rightarrow> 'w" where
  "lapic_write b a reg val w = bus_stl b (lapic_base a + ucast reg) val w"

definition lapic_read :: "'w bus \<Rightarrow> apic_t \<Rightarrow> u16 \<Rightarrow> 'w \<Rightarrow> u32 \<times> 'w" where
  "lapic_read b a reg w = bus_ldl b (lapic_base a + ucast reg) w"

text \<open>\<^verbatim>\<open>ioapic_base\<close> points to double words: index 0 selects a register, index 4 is the window on it.\<close>

definition ioapic_write :: "'w bus \<Rightarrow> apic_t \<Rightarrow> u8 \<Rightarrow> u32 \<Rightarrow> 'w \<Rightarrow> 'w" where
  "ioapic_write b a reg val w = bus_stl b (ioapic_base a + 16) val (bus_stl b (ioapic_base a) (ucast reg) w)"

definition ioapic_read :: "'w bus \<Rightarrow> apic_t \<Rightarrow> u8 \<Rightarrow> 'w \<Rightarrow> u32 \<times> 'w" where
  "ioapic_read b a reg w = bus_ldl b (ioapic_base a + 16) (bus_stl b (ioapic_base a) (ucast reg) w)"

definition apic_redirect :: "'w bus \<Rightarrow> apic_t \<Rightarrow> u8 list \<Rightarrow> usz \<Rightarrow> 'w \<Rightarrow> 'w option" where
  "apic_redirect b a irq_mappings i w =
     do { irq \<leftarrow> arr_get irq_mappings i;
          let redir_lo = APIC_IRQ_OFFS + ucast irq;
          let w = ioapic_write b a (ucast (IOAPIC_REG_REDIR_LO i)) redir_lo w;
          Some (ioapic_write b a (ucast (IOAPIC_REG_REDIR_HI i)) 0 w) }"

definition apic_initialize ::
    "'w bus \<Rightarrow> addr \<Rightarrow> addr \<Rightarrow> u8 list \<Rightarrow> apic_t \<Rightarrow> 'w \<Rightarrow> (apic_t \<times> 'w) option" where
  "apic_initialize b lbase iobase irq_mappings a w =
     (let a = a\<lparr>lapic_base := lbase, ioapic_base := iobase\<rparr>;
          (spur, w) = lapic_read b a LAPIC_REG_SPUR w;
          w = lapic_write b a LAPIC_REG_SPUR (spur OR 0x1FF) w;
          w = lapic_write b a LAPIC_REG_DFR 0xF0000000 w;
          w = lapic_write b a LAPIC_REG_LDR 0xFF000000 w;
          w = lapic_write b a LAPIC_REG_TPR 0 w
      in do { w \<leftarrow> for_range 0 24 (apic_redirect b a irq_mappings) w; Some (a, w) })"

definition apic_eoi :: "'w bus \<Rightarrow> apic_t \<Rightarrow> u8 \<Rightarrow> 'w \<Rightarrow> 'w" where
  "apic_eoi b a irq w = lapic_write b a LAPIC_REG_EOI 0 w"

text \<open>\<^verbatim>\<open>do pause while (lapic_read(LAPIC_REG_ICR1) & (1 << 12))\<close>: wait until the command is delivered.\<close>

partial_function (option) apic_delivered :: "'w bus \<Rightarrow> apic_t \<Rightarrow> 'w \<Rightarrow> 'w option" where
  "apic_delivered b a w =
     (let (v, w) = lapic_read b a LAPIC_REG_ICR1 w
      in if v AND push_bit 12 1 \<noteq> 0 then apic_delivered b a w else Some w)"

definition apic_start_core :: "'w bus \<Rightarrow> apic_t \<Rightarrow> u8 \<Rightarrow> 'w \<Rightarrow> 'w option" where
  "apic_start_core b a core w =
     do { let w = lapic_write b a LAPIC_REG_ERR 0 w;
          let w = lapic_write b a LAPIC_REG_ICR2 (push_bit 24 (ucast core)) w;
          let w = lapic_write b a LAPIC_REG_ICR1 0x00C500 w;
          w \<leftarrow> apic_delivered b a w;
          let w = lapic_write b a LAPIC_REG_ICR2 (push_bit 24 (ucast core)) w;
          let w = lapic_write b a LAPIC_REG_ICR1 0x008500 w;
          w \<leftarrow> apic_delivered b a w;
          w \<leftarrow> pit_sleep_msec b 10 w;
          let w = lapic_write b a LAPIC_REG_ERR 0 w;
          let w = lapic_write b a LAPIC_REG_ICR2 (push_bit 24 (ucast core)) w;
          let w = lapic_write b a LAPIC_REG_ICR1 0x000608 w;
          w \<leftarrow> pit_sleep_msec b 1 w;
          apic_delivered b a w }"

section \<open>The redirection table\<close>

text \<open>
  The contract of the I/O APIC at \<open>base\<close>: a write to the select register chooses one of its registers,
  a write to the window changes that register alone; the accesses to the local APIC at \<open>lbase\<close> do not
  reach it.
\<close>

definition ioapic :: "'w bus \<Rightarrow> addr \<Rightarrow> addr \<Rightarrow> ('w \<Rightarrow> u32) \<Rightarrow> ('w \<Rightarrow> u32 \<Rightarrow> u32) \<Rightarrow> bool" where
  "ioapic b lbase base sel reg \<longleftrightarrow> (\<forall>w v (r :: u16).
     sel (bus_stl b base v w) = v \<and> reg (bus_stl b base v w) = reg w \<and>
     sel (bus_stl b (base + 16) v w) = sel w \<and> reg (bus_stl b (base + 16) v w) = (reg w)(sel w := v) \<and>
     reg (bus_stl b (lbase + ucast r) v w) = reg w \<and> reg (snd (bus_ldl b (lbase + ucast r) w)) = reg w)"

lemma ioapic_write_reg:
  assumes "ioapic b lbase (ioapic_base a) sel reg"
  shows "reg (ioapic_write b a r v w) = (reg w)(ucast r := v)"
  using assms by (simp add: ioapic_def ioapic_write_def)

definition redirected :: "u8 list \<Rightarrow> nat \<Rightarrow> (u32 \<Rightarrow> u32) \<Rightarrow> bool" where
  "redirected irq_mappings n regs \<longleftrightarrow> (\<forall>i < n. regs (of_nat (0x10 + 2 * i)) = 0x40 + ucast (irq_mappings ! i) \<and>
     regs (of_nat (0x10 + 2 * i + 1)) = 0)"

lemma redir_regs:
  assumes "unat i < 24"
  shows "ucast (ucast (IOAPIC_REG_REDIR_LO i) :: u8) = (of_nat (0x10 + 2 * unat i) :: u32)"
    "ucast (ucast (IOAPIC_REG_REDIR_HI i) :: u8) = (of_nat (0x10 + 2 * unat i + 1) :: u32)"
proof -
  define n where "n = unat i"
  have i: "i = of_nat n" by (simp add: n_def)
  have "\<forall>n \<in> set [0..<24]. ucast (ucast (IOAPIC_REG_REDIR_LO (of_nat n)) :: u8) = (of_nat (0x10 + 2 * n) :: u32) \<and>
    ucast (ucast (IOAPIC_REG_REDIR_HI (of_nat n)) :: u8) = (of_nat (0x10 + 2 * n + 1) :: u32)"
    by code_simp
  moreover have "n \<in> set [0..<24]" using assms by (simp add: n_def)
  ultimately show "ucast (ucast (IOAPIC_REG_REDIR_LO i) :: u8) = (of_nat (0x10 + 2 * unat i) :: u32)"
    "ucast (ucast (IOAPIC_REG_REDIR_HI i) :: u8) = (of_nat (0x10 + 2 * unat i + 1) :: u32)"
    unfolding n_def [symmetric] by (simp_all add: i)
qed

lemma apic_redirect_step:
  assumes "ioapic b lbase (ioapic_base a) sel reg" and "length irq_mappings = 24" and "unat i < 24"
    and "redirected irq_mappings (unat i) (reg w)"
  shows "\<exists>w'. apic_redirect b a irq_mappings i w = Some w' \<and> redirected irq_mappings (Suc (unat i)) (reg w')"
proof -
  let ?lo = "of_nat (0x10 + 2 * unat i) :: u32" and ?hi = "of_nat (0x10 + 2 * unat i + 1) :: u32"
  let ?regs = "(reg w)(?lo := 0x40 + ucast (irq_mappings ! unat i), ?hi := 0)"
  have ne: "(of_nat x :: u32) \<noteq> of_nat y" if "x \<noteq> y" "x < 100" "y < 100" for x y
    using that unat_of_nat_small [of x] unat_of_nat_small [of y] by auto
  have "redirected irq_mappings (Suc (unat i)) ?regs"
    unfolding redirected_def
  proof (intro allI impI)
    fix k assume k: "k < Suc (unat i)"
    have "(of_nat (0x10 + 2 * k) :: u32) \<noteq> ?hi" "?lo \<noteq> (of_nat (0x10 + 2 * k + 1) :: u32)" "?lo \<noteq> ?hi"
      using k assms(3) by (intro ne; presburger)+
    moreover have "(of_nat (0x10 + 2 * k) :: u32) \<noteq> ?lo" "(of_nat (0x10 + 2 * k + 1) :: u32) \<noteq> ?hi" if "k \<noteq> unat i"
      using that k assms(3) by (intro ne; simp)+
    ultimately show "?regs (of_nat (0x10 + 2 * k)) = 0x40 + ucast (irq_mappings ! k) \<and> ?regs (of_nat (0x10 + 2 * k + 1)) = 0"
      using assms(4) k unfolding redirected_def by (cases "k = unat i") (auto simp: fun_upd_def)
  qed
  then show ?thesis
    using assms(2,3)
    by (simp add: apic_redirect_def ioapic_write_reg [OF assms(1)] redir_regs APIC_IRQ_OFFS_def)
qed

text \<open>
  C38 On an I/O APIC that keeps what is written to its registers, \<^verbatim>\<open>apic_initialize\<close> returns and routes line \<open>i\<close> of the I/O APIC, unmasked and to processor 0, to vector
  \<open>64 + irq_mappings[i]\<close>, for all 24 lines.
\<close>

theorem apic_initialize_redirects:
  assumes "ioapic b lbase iobase sel reg" and "length irq_mappings = 24"
  shows "\<exists>a' w'. apic_initialize b lbase iobase irq_mappings a w = Some (a', w') \<and>
    lapic_base a' = lbase \<and> ioapic_base a' = iobase \<and> redirected irq_mappings 24 (reg w')"
proof -
  define a' where "a' = a\<lparr>lapic_base := lbase, ioapic_base := iobase\<rparr>"
  have io: "ioapic b lbase (ioapic_base a') sel reg" using assms(1) by (simp add: a'_def)
  have loop: "\<exists>w'. for_range 0 24 (apic_redirect b a' irq_mappings) w0 = Some w' \<and> redirected irq_mappings (unat (24 :: usz)) (reg w')" for w0
  proof (rule for_range_rule [where P = "\<lambda>i w. redirected irq_mappings (unat i) (reg w)"])
    show "redirected irq_mappings (unat 0) (reg w0)" by (simp add: redirected_def)
    fix i :: usz and w assume i: "i < 24" and "redirected irq_mappings (unat i) (reg w)"
    with apic_redirect_step [OF io assms(2), of i w] show
      "\<exists>s'. apic_redirect b a' irq_mappings i w = Some s' \<and> redirected irq_mappings (unat (i + 1)) (reg s')"
      by (simp add: unat_succ_less [OF i] word_less_nat_alt)
  qed simp
  obtain w0 where init: "apic_initialize b lbase iobase irq_mappings a w =
      do { w \<leftarrow> for_range 0 24 (apic_redirect b a' irq_mappings) w0; Some (a', w) }"
    unfolding apic_initialize_def a'_def [symmetric] Let_def case_prod_beta by blast
  from loop [of w0] obtain w' where "for_range 0 24 (apic_redirect b a' irq_mappings) w0 = Some w'"
    "redirected irq_mappings 24 (reg w')" by auto
  moreover have "lapic_base a' = lbase" "ioapic_base a' = iobase" by (simp_all add: a'_def)
  ultimately show ?thesis unfolding init by simp
qed

text \<open>A world that is the selected register and the registers of the I/O APIC at its default address.\<close>

definition ioapic_bus :: "(u32 \<times> (u32 \<Rightarrow> u32)) bus" where
  "ioapic_bus = \<lparr>bus_inb = \<lambda>_ w. (0, w), bus_inw = \<lambda>_ w. (0, w), bus_inl = \<lambda>_ w. (0, w),
     bus_outb = \<lambda>_ _ w. w, bus_outw = \<lambda>_ _ w. w, bus_outl = \<lambda>_ _ w. w, bus_ldl = \<lambda>_ w. (0, w),
     bus_stl = \<lambda>a v w. if a = 0xFEC00000 then (v, snd w)
       else if a = 0xFEC00010 then (fst w, (snd w)(fst w := v)) else w,
     bus_time = \<lambda>w. (0, w)\<rparr>"

lemma ioapic_bus_contract: "ioapic ioapic_bus 0xFEE00000 0xFEC00000 fst snd"
proof -
  have "(0xFEE00000 :: u32) + ucast (r :: u16) \<noteq> 0xFEC00000 \<and> (0xFEE00000 :: u32) + ucast r \<noteq> 0xFEC00010" for r
  proof -
    have r: "unat r < 65536" using unsigned_less [of r, where 'a = nat] by simp
    then have "unat (ucast r :: u32) = unat r" by (simp add: unsigned_ucast_eq take_bit_nat_eq_self)
    with r have "unat ((0xFEE00000 :: u32) + ucast r) = 0xFEE00000 + unat r"
      by (subst unat_add_bounded) simp_all
    then show ?thesis by (auto simp: word_unat_eq_iff)
  qed
  then show ?thesis by (simp add: ioapic_def ioapic_bus_def)
qed

theorem apic_initialize_redirects_witness:
  "\<exists>a' w'. apic_initialize ioapic_bus 0xFEE00000 0xFEC00000 (map of_nat [0..<24]) \<lparr>lapic_base = 0, ioapic_base = 0\<rparr> (0, \<lambda>_. 0) =
    Some (a', w') \<and> snd w' 0x3E = 87"
proof -
  from apic_initialize_redirects [OF ioapic_bus_contract, of "map of_nat [0..<24]" "\<lparr>lapic_base = 0, ioapic_base = 0\<rparr>" "(0, \<lambda>_. 0)"]
  obtain a' w' where "apic_initialize ioapic_bus 0xFEE00000 0xFEC00000 (map of_nat [0..<24])
      \<lparr>lapic_base = 0, ioapic_base = 0\<rparr> (0, \<lambda>_. 0) = Some (a', w')" and r: "redirected (map of_nat [0..<24]) 24 (snd w')"
    by auto
  moreover from r have "snd w' 0x3E = 87"
    unfolding redirected_def by (auto dest!: spec [of _ 23])
  ultimately show ?thesis by blast
qed

end
