(* ===== verification/Debug_Io.thy ===== *)
theory Debug_Io
  imports Hw Io
begin

text \<open>
  The debug output: the serial port driver \<^verbatim>\<open>kernel/drivers/com.c\<close> and \<^verbatim>\<open>kernel/debug_io.c\<close> on top of it,
  and the copy of both in the boot loader, \<^verbatim>\<open>stage2/debug_io.c\<close>.  A byte is sent once the line status
  register reports an empty transmitter, so sending may not return.

  The lemmas show that on a port that becomes ready after every byte, \<^verbatim>\<open>dbg_write\<close> and \<^verbatim>\<open>dbg_puts\<close> send
  exactly the bytes of the string, in order, and \<^verbatim>\<open>dbg_printf\<close> the text that its format describes.
\<close>

section \<open>Definitions\<close>

definition COM1_PORT :: u16 where "COM1_PORT = 0x3F8"

definition com_write_b :: "'w bus \<Rightarrow> u16 \<Rightarrow> u8 \<Rightarrow> 'w \<Rightarrow> 'w option" where
  "com_write_b b port data w =
     do { (_, w) \<leftarrow> poll_until b (port + 5) (\<lambda>st. st AND 0x20 \<noteq> 0) w; Some (outb b port data w) }"

definition dbg_write :: "'w bus \<Rightarrow> mem \<Rightarrow> addr \<Rightarrow> usz \<Rightarrow> 'w \<Rightarrow> (usz \<times> 'w) option" where
  "dbg_write b m str len w =
     do { (it, w) \<leftarrow> for_range 0 len
            (\<lambda>i (it, w). do { w \<leftarrow> com_write_b b COM1_PORT (m it) w; Some (it + 1, w) }) (str, w);
          Some (len, w) }"

partial_function (option) dbg_puts_loop :: "'w bus \<Rightarrow> mem \<Rightarrow> addr \<Rightarrow> 'w \<Rightarrow> (addr \<times> 'w) option" where
  "dbg_puts_loop b m it w =
     (if m it = 0 then Some (it, w)
      else do { w \<leftarrow> com_write_b b COM1_PORT (m it) w; dbg_puts_loop b m (it + 1) w })"

definition dbg_puts :: "'w bus \<Rightarrow> mem \<Rightarrow> addr \<Rightarrow> 'w \<Rightarrow> (usz \<times> 'w) option" where
  "dbg_puts b m str w = do { (it, w) \<leftarrow> dbg_puts_loop b m str w; Some (it - str, w) }"

text \<open>
  \<^verbatim>\<open>dbg_printf\<close> passes \<^verbatim>\<open>dbg_write\<close> to \<^verbatim>\<open>io_vprintf\<close> as its callback.  The callback gets the bytes themselves; a
  state that sending does not return from is \<^term>\<open>None\<close>.
\<close>

fun dbg_send :: "'w bus \<Rightarrow> u8 list \<Rightarrow> 'w \<Rightarrow> 'w option" where
  "dbg_send b [] w = Some w"
| "dbg_send b (c # cs) w = do { w \<leftarrow> com_write_b b COM1_PORT c w; dbg_send b cs w }"

definition dbg_callback :: "'w bus \<Rightarrow> 'w option io_callback" where
  "dbg_callback b bs st = (of_nat (length bs), do { w \<leftarrow> st; dbg_send b bs w })"

definition dbg_printf :: "'w bus \<Rightarrow> mem \<Rightarrow> addr \<Rightarrow> u32 list \<Rightarrow> 'w \<Rightarrow> 'w option" where
  "dbg_printf b m fmt argl w = do { st \<leftarrow> io_vprintf (dbg_callback b) m fmt argl (Some w); st }"

text \<open>The copy in \<^verbatim>\<open>stage2/debug_io.c\<close>, with the port in \<^verbatim>\<open>com_write_b\<close>.\<close>

definition s2_com_write_b :: "'w bus \<Rightarrow> u8 \<Rightarrow> 'w \<Rightarrow> 'w option" where
  "s2_com_write_b b data w =
     do { (_, w) \<leftarrow> poll_until b (0x3F8 + 5) (\<lambda>st. st AND 0x20 \<noteq> 0) w; Some (outb b 0x3F8 data w) }"

definition s2_dbg_write :: "'w bus \<Rightarrow> mem \<Rightarrow> addr \<Rightarrow> usz \<Rightarrow> 'w \<Rightarrow> (usz \<times> 'w) option" where
  "s2_dbg_write b m data len w =
     do { (it, w) \<leftarrow> for_range 0 len
            (\<lambda>i (it, w). do { w \<leftarrow> s2_com_write_b b (m it) w; Some (it + 1, w) }) (data, w);
          Some (len, w) }"

partial_function (option) s2_dbg_puts_loop :: "'w bus \<Rightarrow> mem \<Rightarrow> addr \<Rightarrow> 'w \<Rightarrow> (addr \<times> 'w) option" where
  "s2_dbg_puts_loop b m it w =
     (if m it = 0 then Some (it, w)
      else do { w \<leftarrow> s2_com_write_b b (m it) w; s2_dbg_puts_loop b m (it + 1) w })"

definition s2_dbg_puts :: "'w bus \<Rightarrow> mem \<Rightarrow> addr \<Rightarrow> 'w \<Rightarrow> (usz \<times> 'w) option" where
  "s2_dbg_puts b m str w = do { (it, w) \<leftarrow> s2_dbg_puts_loop b m str w; Some (it - str, w) }"

fun s2_dbg_send :: "'w bus \<Rightarrow> u8 list \<Rightarrow> 'w \<Rightarrow> 'w option" where
  "s2_dbg_send b [] w = Some w"
| "s2_dbg_send b (c # cs) w = do { w \<leftarrow> s2_com_write_b b c w; s2_dbg_send b cs w }"

definition s2_dbg_printf :: "'w bus \<Rightarrow> mem \<Rightarrow> addr \<Rightarrow> u32 list \<Rightarrow> 'w \<Rightarrow> 'w option" where
  "s2_dbg_printf b m fmt argl w =
     do { st \<leftarrow> io_vprintf (\<lambda>bs st. (of_nat (length bs), do { w \<leftarrow> st; s2_dbg_send b bs w })) m fmt argl (Some w); st }"

section \<open>Sending\<close>

text \<open>
  A serial port whose transmitter always empties: from every world some number of reads of the line
  status finds it empty, reading the status sends nothing, and a write to the port sends its byte.
\<close>

definition uart :: "'w bus \<Rightarrow> u16 \<Rightarrow> ('w \<Rightarrow> u8 list) \<Rightarrow> bool" where
  "uart b port sent \<longleftrightarrow> (\<forall>w v.
     (\<exists>n. fst (inb b (port + 5) (after_reads b (port + 5) n w)) AND 0x20 \<noteq> 0) \<and>
     sent (snd (inb b (port + 5) w)) = sent w \<and> sent (outb b port v w) = sent w @ [v])"

lemma com_write_b_sends:
  assumes "uart b port sent"
  shows "\<exists>w'. com_write_b b port v w = Some w' \<and> sent w' = sent w @ [v]"
proof -
  from assms obtain n where "fst (inb b (port + 5) (after_reads b (port + 5) n w)) AND 0x20 \<noteq> 0"
    unfolding uart_def by blast
  from poll_until_terminates [where ok = "\<lambda>st. st AND 0x20 \<noteq> 0", OF this] obtain k where
    p: "poll_until b (port + 5) (\<lambda>st. st AND 0x20 \<noteq> 0) w = Some (inb b (port + 5) (after_reads b (port + 5) k w))"
    by blast
  have read: "sent (snd (inb b (port + 5) w)) = sent w" for w using assms by (simp add: uart_def)
  have "sent (snd (inb b (port + 5) (after_reads b (port + 5) k w))) = sent w"
    using read after_reads_keeps [of sent, OF read] by simp
  with assms p show ?thesis by (auto simp: com_write_b_def uart_def case_prod_beta)
qed

lemma dbg_write_sends:
  assumes "uart b COM1_PORT sent" and "bytes_at m str bs" and "length bs < 2 ^ 32"
  shows "\<exists>w'. dbg_write b m str (of_nat (length bs)) w = Some (of_nat (length bs), w') \<and> sent w' = sent w @ bs"
proof -
  let ?n = "of_nat (length bs) :: usz"
  have n: "unat ?n = length bs" using assms(3) by (simp add: unat_of_nat_small)
  let ?P = "\<lambda>(i :: usz) (it, w'). it = str + i \<and> sent w' = sent w @ take (unat i) bs"
  have "\<exists>st. for_range 0 ?n (\<lambda>i (it, w). do { w \<leftarrow> com_write_b b COM1_PORT (m it) w; Some (it + 1, w) }) (str, w) =
      Some st \<and> ?P ?n st"
  proof (rule for_range_rule [where P = ?P])
    fix i :: usz and st assume i: "i < ?n" and P: "?P i st"
    then obtain w1 where st: "st = (str + i, w1)" and s: "sent w1 = sent w @ take (unat i) bs" by auto
    from i n have il: "unat i < length bs" by (simp add: word_less_nat_alt)
    with bytes_at_nth [OF assms(2)] have byte: "m (str + i) = bs ! unat i" by fastforce
    from com_write_b_sends [OF assms(1), of "bs ! unat i" w1] obtain w2 where
      "com_write_b b COM1_PORT (bs ! unat i) w1 = Some w2" "sent w2 = sent w1 @ [bs ! unat i]" by blast
    then show "\<exists>st'. (case st of (it, w) \<Rightarrow> do { w \<leftarrow> com_write_b b COM1_PORT (m it) w; Some (it + 1, w) }) = Some st' \<and> ?P (i + 1) st'"
      using il by (simp add: st byte s unat_succ_less [OF i] take_Suc_conv_app_nth)
  qed simp_all
  then show ?thesis by (auto simp: dbg_write_def n)
qed

lemma dbg_puts_sends:
  assumes "uart b COM1_PORT sent" and "bytes_at m str (bs @ [0])" and "0 \<notin> set bs"
  shows "\<exists>w'. dbg_puts b m str w = Some (of_nat (length bs), w') \<and> sent w' = sent w @ bs"
proof -
  have "\<exists>w'. dbg_puts_loop b m it w = Some (it + of_nat (length bs), w') \<and> sent w' = sent w @ bs"
    if "bytes_at m it (bs @ [0])" "0 \<notin> set bs" for it w
    using that
  proof (induction bs arbitrary: it w)
    case Nil
    then show ?case by (subst dbg_puts_loop.simps) simp
  next
    case (Cons c bs)
    from com_write_b_sends [OF assms(1), of c w] obtain w1 where
      w1: "com_write_b b COM1_PORT c w = Some w1" "sent w1 = sent w @ [c]" by blast
    from Cons.IH [of "it + 1" w1] Cons.prems obtain w2 where
      "dbg_puts_loop b m (it + 1) w1 = Some (it + 1 + of_nat (length bs), w2)" "sent w2 = sent w1 @ bs" by auto
    with Cons.prems w1 show ?case by (subst dbg_puts_loop.simps) (auto simp: algebra_simps)
  qed
  from this [OF assms(2,3), of w] show ?thesis by (auto simp: dbg_puts_def)
qed


section \<open>Formatted output\<close>

text \<open>The callback sends what \<^verbatim>\<open>dbg_write\<close> sends for the bytes in memory.\<close>

lemma dbg_write_send:
  fixes b :: "'w bus"
  assumes "n < 2 ^ 32"
  shows "dbg_write b m str (of_nat n) w = map_option (\<lambda>w. (of_nat n, w)) (dbg_send b (load_bytes m str n) w)"
proof -
  let ?body = "\<lambda>i (it, w). do { w \<leftarrow> com_write_b b COM1_PORT (m it) w; Some (it + 1, w) }"
  have n: "unat (of_nat n :: usz) = n" using assms by (simp add: unat_of_nat_small)
  have "for_range i (of_nat n) ?body (it, w) = map_option (\<lambda>w. (it + of_nat k, w)) (dbg_send b (load_bytes m it k) w)"
    if "unat i + k = n" for i it k w
    using that
  proof (induction k arbitrary: i it w)
    case 0
    then have "of_nat n \<le> i" using n by (simp add: word_le_nat_alt)
    then show ?case by simp
  next
    case (Suc k)
    then have i: "i < of_nat n" using n by (simp add: word_less_nat_alt)
    then have "unat (i + 1) + k = n" using unat_succ_less [OF i] Suc.prems by simp
    note IH = Suc.IH [OF this]
    show ?case unfolding for_range.simps [of i]
      using i by (cases "com_write_b b COM1_PORT (m it) w") (simp_all add: IH add.assoc)
  qed
  from this [of 0 n str w] show ?thesis
    by (cases "dbg_send b (load_bytes m str n) w") (simp_all add: dbg_write_def)
qed

lemma dbg_send_sends:
  assumes "uart b COM1_PORT sent"
  shows "\<exists>w'. dbg_send b bs w = Some w' \<and> sent w' = sent w @ bs"
proof (induction bs arbitrary: w)
  case (Cons c bs)
  from com_write_b_sends [OF assms, of c w] obtain w1 where
    "com_write_b b COM1_PORT c w = Some w1" "sent w1 = sent w @ [c]" by blast
  with Cons.IH [of w1] show ?case by auto
qed simp

lemma uart_receiver:
  fixes b :: "'w bus"
  assumes "uart b COM1_PORT sent"
  shows "receiver (dbg_callback b) (\<lambda>st. st \<noteq> None) (\<lambda>st. sent (the st)) (\<lambda>bs h. h @ bs)"
proof (unfold_locales, simp_all only: append_Nil2 append_assoc)
  fix st :: "'w option" and bs :: "u8 list" assume "st \<noteq> None"
  then obtain w where "st = Some w" by blast
  with dbg_send_sends [OF assms, of bs w]
  show "snd (dbg_callback b bs st) \<noteq> None \<and> sent (the (snd (dbg_callback b bs st))) = sent (the st) @ bs"
    by (auto simp: dbg_callback_def)
qed

text \<open>
  C19 \<^verbatim>\<open>dbg_printf\<close> on a serial port that becomes ready after every byte returns and sends exactly the text that
  the format string and its arguments describe: the formatting of \<^verbatim>\<open>io.c\<close>, the writer of \<^verbatim>\<open>debug_io.c\<close> and the
  polling of \<^verbatim>\<open>com.c\<close> together.
\<close>

theorem dbg_printf_sends:
  assumes "uart b COM1_PORT sent" and "bytes_at m fmt (concat (map fmt_bytes items) @ [0])" and "fmt_ok m items"
  shows "\<exists>w'. dbg_printf b m fmt (concat (map fmt_args items)) w = Some w' \<and>
    sent w' = sent w @ concat (map fmt_out items)"
  using receiver.formatted [OF uart_receiver [OF assms(1)] assms(2,3), of "Some w"]
  by (auto simp: dbg_printf_def)

text \<open>A port that is always ready, and the bytes it has sent.\<close>

definition uart_bus :: "u8 list bus" where
  "uart_bus = \<lparr>bus_inb = \<lambda>_ w. (0x60, w), bus_inw = \<lambda>_ w. (0, w), bus_inl = \<lambda>_ w. (0, w),
     bus_outb = \<lambda>port v w. if port = COM1_PORT then w @ [v] else w, bus_outw = \<lambda>_ _ w. w,
     bus_outl = \<lambda>_ _ w. w, bus_ldl = \<lambda>_ w. (0, w), bus_stl = \<lambda>_ _ w. w, bus_time = \<lambda>w. (0, w)\<rparr>"

lemma uart_bus_sends: "uart uart_bus COM1_PORT id"
  by (auto simp: uart_def uart_bus_def inb_def outb_def)

interpretation serial: receiver "dbg_callback uart_bus" "\<lambda>st. st \<noteq> None" "\<lambda>st. id (the st)" "\<lambda>bs h. h @ bs"
  by (rule uart_receiver [OF uart_bus_sends])

theorem dbg_printf_sends_witness:
  "dbg_printf uart_bus sample_fmt_mem 10 [0xBEEF, 100] [] = Some (map chr ''xBEEF%ok'')"
proof -
  note fmt = sample_fmt_result
  from dbg_printf_sends [OF uart_bus_sends fmt(1,2), of "[]"] show ?thesis by (simp add: fmt(3,4))
qed

text \<open>The copy in the boot loader does the same.\<close>

lemma s2_com_write_b_eq: "s2_com_write_b b = com_write_b b COM1_PORT"
  by (intro ext) (simp add: s2_com_write_b_def com_write_b_def COM1_PORT_def)

lemma s2_dbg_writes: "s2_dbg_write b m data len w = dbg_write b m data len w" "s2_dbg_printf b m fmt argl w = dbg_printf b m fmt argl w"
proof -
  show "s2_dbg_write b m data len w = dbg_write b m data len w"
    by (simp add: s2_dbg_write_def dbg_write_def s2_com_write_b_eq)
  have "s2_dbg_send b bs = dbg_send b bs" for bs
    by (induction bs) (rule ext, simp add: s2_com_write_b_eq)+
  then show "s2_dbg_printf b m fmt argl w = dbg_printf b m fmt argl w"
    by (simp add: s2_dbg_printf_def dbg_printf_def dbg_callback_def [abs_def])
qed

lemma s2_dbg_puts_sends:
  assumes "uart b COM1_PORT sent" and "bytes_at m str (bs @ [0])" and "0 \<notin> set bs"
  shows "\<exists>w'. s2_dbg_puts b m str w = Some (of_nat (length bs), w') \<and> sent w' = sent w @ bs"
proof -
  have "s2_dbg_puts_loop b m it w = Some r" if "dbg_puts_loop b m it w = Some r" for it w r
    using that
  proof (rule dbg_puts_loop.raw_induct [rotated])
    fix f and b :: "'a bus" and m it w r
    assume "\<And>b m it w r. f b m it w = Some r \<Longrightarrow> s2_dbg_puts_loop b m it w = Some r"
      and "(if m it = 0 then Some (it, w) else do { w \<leftarrow> com_write_b b COM1_PORT (m it) w; f b m (it + 1) w }) = Some r"
    then show "s2_dbg_puts_loop b m it w = Some r"
      by (subst s2_dbg_puts_loop.simps) (auto simp: s2_com_write_b_eq split: if_splits bind_splits)
  qed
  with dbg_puts_sends [OF assms, of w] show ?thesis
    by (auto simp: s2_dbg_puts_def dbg_puts_def split: bind_splits)
qed

end
