(* ===== verification/Drive.thy ===== *)
theory Drive
  imports Libk_Memory
begin

text \<open>
  The drive interface of \<^verbatim>\<open>kernel/drive.h\<close>.  A drive is its read callback: it takes the first sector, the
  number of sectors and the address of the destination, and returns an error code and the new memory
  and state \<open>'w\<close> of the devices, or \<^term>\<open>None\<close> if it does not return.

  The locale is what a client of a drive, such as the file system, relies on; the IDE driver provides it
  for every drive that follows the ATA protocol.
\<close>

section \<open>Definitions\<close>

type_synonym 'w drive_t = "u64 \<Rightarrow> u64 \<Rightarrow> addr \<Rightarrow> mem \<times> 'w \<Rightarrow> (err_t \<times> mem \<times> 'w) option"

definition drive_read :: "'w drive_t \<Rightarrow> u64 \<Rightarrow> u64 \<Rightarrow> addr \<Rightarrow> mem \<times> 'w \<Rightarrow> (err_t \<times> mem \<times> 'w) option" where
  "drive_read drive lba sectors out_data st = drive lba sectors out_data st"

section \<open>The contract of a drive\<close>

text \<open>
  A drive that holds the bytes \<open>disk\<close>: from a ready state, reading at least one and fewer than \<open>limit\<close>
  sectors inside the disk succeeds, copies them to the destination and leaves the drive ready.
\<close>

locale block_drive =
  fixes drive :: "'w drive_t" and ready :: "'w \<Rightarrow> bool" and disk :: "u8 list" and limit :: nat
  assumes read_sectors:
    "ready w \<Longrightarrow> 0 < n \<Longrightarrow> unat n < limit \<Longrightarrow> (unat lba + unat n) * 512 \<le> length disk \<Longrightarrow>
     \<exists>w'. drive lba n a (m, w) =
       Some (OK, store_bytes m a (take (unat n * 512) (drop (unat lba * 512) disk)), w') \<and> ready w'"

end
