(* ===== verification/Dfs.thy ===== *)
theory Dfs
  imports Drive Write_Img
begin

text \<open>
  The dord file system driver \<^verbatim>\<open>kernel/drivers/dfs.c\<close> and the root file system of \<^verbatim>\<open>kernel/fs.h\<close>, over
  any drive.  \<open>buf\<close> is the address of the sector buffer on the stack.

  The lemmas follow the chain of file headers that \<^verbatim>\<open>write_img\<close> leaves on the disk, on any drive that
  satisfies the contract \<open>block_drive\<close>: looking a file up returns the contents it was given, and an unknown
  name is reported as such.
\<close>

section \<open>Definitions\<close>

definition dfs_found :: "'w drive_t \<Rightarrow> addr \<Rightarrow> addr \<Rightarrow> addr \<Rightarrow> u64 \<Rightarrow> mem \<times> 'w \<Rightarrow> (err_t \<times> mem \<times> 'w) option" where
  "dfs_found drive buf out_data out_size lba = (\<lambda>(m, w).
     let filesz = ucast (load64 m buf * 512);
         m = store32 m out_size filesz
     in if out_data = 0 then Some (OK, m, w)
        else drive_read drive (lba + 1) (load64 m buf) out_data (m, w))"

partial_function (option) dfs_fread_loop ::
    "'w drive_t \<Rightarrow> addr \<Rightarrow> addr \<Rightarrow> addr \<Rightarrow> addr \<Rightarrow> u64 \<Rightarrow> mem \<times> 'w \<Rightarrow> (err_t \<times> mem \<times> 'w) option" where
  "dfs_fread_loop drive buf path out_data out_size lba st =
     do { (_, m, w) \<leftarrow> drive_read drive lba 1 buf st;
          if strneq m path (buf + 16) 32 \<noteq> 0
          then dfs_found drive buf out_data out_size lba (m, w)
          else if load64 m (buf + 8) \<noteq> 0
          then dfs_fread_loop drive buf path out_data out_size (load64 m (buf + 8)) (m, w)
          else Some (ERR_NOTFOUND, m, w) }"

definition dfs_fread ::
    "'w drive_t \<Rightarrow> addr \<Rightarrow> addr \<Rightarrow> addr \<Rightarrow> addr \<Rightarrow> mem \<times> 'w \<Rightarrow> (err_t \<times> mem \<times> 'w) option" where
  "dfs_fread drive buf path out_data out_size st = dfs_fread_loop drive buf path out_data out_size 1 st"

text \<open>A file system is its read callback; \<^verbatim>\<open>dfs_init\<close> installs the one of this driver.\<close>

type_synonym 'w fs_t = "addr \<Rightarrow> addr \<Rightarrow> addr \<Rightarrow> mem \<times> 'w \<Rightarrow> (err_t \<times> mem \<times> 'w) option"

definition dfs_init :: "'w drive_t \<Rightarrow> addr \<Rightarrow> err_t \<times> 'w fs_t" where
  "dfs_init drive buf = (OK, dfs_fread drive buf)"

definition fread :: "'w fs_t \<Rightarrow> addr \<Rightarrow> addr \<Rightarrow> addr \<Rightarrow> mem \<times> 'w \<Rightarrow> (err_t \<times> mem \<times> 'w) option" where
  "fread rootfs path data out_size st = rootfs path data out_size st"

section \<open>Reading a header\<close>

lemma load64_slice:
  fixes v :: u64
  assumes "load32 m a = ucast v" and "load32 m (a + 4) = ucast (drop_bit 32 v)"
  shows "load64 m a = v"
  by (rule bit_word_eqI) (auto simp: load64_def assms bit_simps)

lemma load64_le64:
  assumes "bytes_at m a (le64 v)"
  shows "load64 m a = v"
proof -
  have b: "m (a + of_nat i) = ucast (drop_bit (8 * i) v)" if "i < 8" for i
    using bytes_at_nth [OF assms, of i] that by (simp add: le64_def)
  have w: "load16 m (a + of_nat (2 * j)) = ucast (drop_bit (16 * j) v)" if "j < 4" for j
    using that b [of "2 * j"] b [of "2 * j + 1"] by (intro load16_slice) (simp_all add: algebra_simps)
  have d: "load32 m (a + of_nat (4 * j)) = ucast (drop_bit (32 * j) v)" if "j < 2" for j
    using that w [of "2 * j"] w [of "2 * j + 1"] by (intro load32_slice) (simp_all add: algebra_simps)
  show ?thesis using d [of 0] d [of 1] by (intro load64_slice) simp_all
qed

section \<open>Following the chain\<close>

definition stored_name :: "u8 list \<Rightarrow> u8 list" where
  "stored_name name = takeWhile (\<lambda>c. c \<noteq> 0) (strncpy 32 name)"

definition path_name :: "mem \<Rightarrow> addr \<Rightarrow> u8 list" where
  "path_name m path = takeWhile (\<lambda>c. c \<noteq> 0) (load_bytes m path 32)"

lemma header_in_memory:
  assumes "m' = store_bytes m buf (DFSFileHeader n l name)" and "away buf 512 path 32"
  shows "load64 m' buf = n" "load64 m' (buf + 8) = l"
    "strneq m' path (buf + 16) 32 \<noteq> 0 \<longleftrightarrow> path_name m path = stored_name name"
    "path_name m' path = path_name m path"
proof -
  let ?h = "DFSFileHeader n l name"
  have "bytes_at m' buf ?h" unfolding bytes_at_def assms(1) by (rule load_store_bytes) simp
  then have b: "bytes_at m' buf (le64 n)" "bytes_at m' (buf + 8) (le64 l)" "bytes_at m' (buf + 16) (strncpy 32 name)"
    by (simp_all add: DFSFileHeader_def bytes_at_append add.commute [of buf 16])
  show "load64 m' buf = n" "load64 m' (buf + 8) = l" by (rule load64_le64 [OF b(1)], rule load64_le64 [OF b(2)])
  have p: "load_bytes m' path 32 = load_bytes m path 32"
    unfolding assms(1) by (rule load_bytes_away) (use assms(2) in simp_all)
  then show "path_name m' path = path_name m path" by (simp add: path_name_def)
  have "load_bytes m' (buf + 16) 32 = strncpy 32 name"
    using bytes_at_load [OF b(3)] by simp
  with p show "strneq m' path (buf + 16) 32 \<noteq> 0 \<longleftrightarrow> path_name m path = stored_name name"
    using strneq_loop_iff [of m' path "buf + 16" 0 32] strneq_loop_bool [of m' path "buf + 16" 0 32]
    by (auto simp: strneq_def path_name_def stored_name_def)
qed

text \<open>A run of the driver from the header at \<open>lba\<close>, with the files \<open>fs\<close> from there on.\<close>

definition disk_at :: "u8 list \<Rightarrow> nat \<Rightarrow> (u8 list \<times> u8 list) list \<Rightarrow> bool" where
  "disk_at disk lba fs \<longleftrightarrow> (\<exists>tail. drop (lba * 512) disk = img_recs lba fs @ tail) \<and>
     lba * 512 \<le> length disk \<and> length disk < 2 ^ 62 \<and> 0 < lba"

lemma disk_at_Cons:
  assumes "disk_at disk lba ((name, data) # fs)"
  shows "take 512 (drop (lba * 512) disk) =
      DFSFileHeader (of_nat (file_sectors data)) (of_nat (if fs = [] then 0 else lba + 1 + file_sectors data)) name"
    "take (file_sectors data * 512) (drop ((lba + 1) * 512) disk) = padded data"
    "(lba + 1 + file_sectors data) * 512 \<le> length disk" "disk_at disk (lba + 1 + file_sectors data) fs"
proof -
  let ?next = "if fs = [] then 0 else lba + 1 + file_sectors data" and ?sc = "file_sectors data"
  let ?h = "DFSFileHeader (of_nat ?sc) (of_nat ?next) name"
  from assms obtain tail where d: "drop (lba * 512) disk = ?h @ padded data @ img_recs (lba + 1 + ?sc) fs @ tail"
    and le: "lba * 512 \<le> length disk" "length disk < 2 ^ 62" "0 < lba"
    by (auto simp: disk_at_def file_rec_def)
  from d show "take 512 (drop (lba * 512) disk) = ?h" by simp
  have d1: "drop ((lba + 1) * 512) disk = padded data @ img_recs (lba + 1 + ?sc) fs @ tail"
    using arg_cong [OF d, of "drop 512"] by (simp add: ac_simps)
  then show "take (?sc * 512) (drop ((lba + 1) * 512) disk) = padded data" by simp
  have "drop ((lba + 1 + ?sc) * 512) disk = img_recs (lba + 1 + ?sc) fs @ tail"
    using arg_cong [OF d1, of "drop (?sc * 512)"] by (simp add: algebra_simps)
  moreover show "(lba + 1 + ?sc) * 512 \<le> length disk"
    using arg_cong [OF d, of length] le by (simp add: algebra_simps)
  ultimately show "disk_at disk (lba + 1 + ?sc) fs" using le by (auto simp: disk_at_def)
qed

lemma unat_small: "n * 512 \<le> length (disk :: u8 list) \<Longrightarrow> length disk < 2 ^ 62 \<Longrightarrow> unat (of_nat n :: u64) = n"
  by (simp add: unat_of_nat)

text \<open>What a successful lookup leaves: the size of the file, and its sectors if a destination is given.\<close>

definition file_read :: "addr \<Rightarrow> addr \<Rightarrow> u8 list \<Rightarrow> mem \<Rightarrow> bool" where
  "file_read out_data out_size data m \<longleftrightarrow> load32 m out_size = of_nat (file_sectors data * 512) \<and>
     (out_data \<noteq> 0 \<longrightarrow> load_bytes m out_data (file_sectors data * 512) = padded data)"

definition buffers_apart :: "addr \<Rightarrow> addr \<Rightarrow> addr \<Rightarrow> nat \<Rightarrow> bool" where
  "buffers_apart buf out_data out_size n \<longleftrightarrow> away out_size 4 buf 8 \<and> (out_data \<noteq> 0 \<longrightarrow> away out_data n out_size 4)"

text \<open>What looking up a path in the files \<open>fs\<close> should do.\<close>

definition lookup_spec :: "mem \<Rightarrow> addr \<Rightarrow> addr \<Rightarrow> addr \<Rightarrow> (u8 list \<times> u8 list) list \<Rightarrow> err_t \<Rightarrow> mem \<Rightarrow> bool" where
  "lookup_spec m path out_data out_size fs e m' \<longleftrightarrow>
     (case find (\<lambda>(name, data). stored_name name = path_name m path) fs of
        None \<Rightarrow> e = ERR_NOTFOUND
      | Some (name, data) \<Rightarrow> e = OK \<and> file_read out_data out_size data m')"

definition buffers_ok :: "nat \<Rightarrow> addr \<Rightarrow> addr \<Rightarrow> addr \<Rightarrow> addr \<Rightarrow> (u8 list \<times> u8 list) list \<Rightarrow> bool" where
  "buffers_ok limit buf path out_data out_size fs \<longleftrightarrow> away buf 512 path 32 \<and>
     (\<forall>(name, data) \<in> set fs. file_sectors data < limit \<and> file_sectors data * 512 < 2 ^ 32 \<and>
        buffers_apart buf out_data out_size (file_sectors data * 512))"

text \<open>The lookup on any drive that satisfies its contract.\<close>

context block_drive
begin

lemma read_nat:
  assumes "ready w" and "0 < n" and "n < limit" and "(lba + n) * 512 \<le> length disk" and "length disk < 2 ^ 62"
  shows "\<exists>w'. drive_read drive (of_nat lba) (of_nat n) a (m, w) =
    Some (OK, store_bytes m a (take (n * 512) (drop (lba * 512) disk)), w') \<and> ready w'"
proof -
  have u: "unat (of_nat lba :: u64) = lba" "unat (of_nat n :: u64) = n"
    by (rule unat_small [OF _ assms(5)]; use assms(4) in simp)+
  then have "(0 :: u64) < of_nat n" using assms(2) by (simp add: word_less_nat_alt)
  with read_sectors [of w "of_nat n" "of_nat lba" a m] assms(1,3,4) u show ?thesis
    by (simp add: drive_read_def)
qed

lemma header_read:
  assumes D: "disk_at disk lba ((name, data) # fs)" and "ready w" and "1 < limit"
  shows "\<exists>w'. drive_read drive (of_nat lba) 1 buf (m, w) = Some (OK, store_bytes m buf
      (DFSFileHeader (of_nat (file_sectors data)) (of_nat (if fs = [] then 0 else lba + 1 + file_sectors data)) name), w')
    \<and> ready w'"
proof -
  have len: "length disk < 2 ^ 62" using D by (simp add: disk_at_def)
  note d = disk_at_Cons [OF D]
  from d(3) have "(lba + 1) * 512 \<le> length disk" by simp
  from read_nat [OF assms(2) zero_less_one assms(3) this len, of buf m] show ?thesis by (simp add: d(1))
qed

lemma dfs_step:
  fixes m :: mem
  assumes D: "disk_at disk lba ((name, data) # fs)" and A: "away buf 512 path 32" and R: "ready w" "1 < limit"
  defines "m' \<equiv> store_bytes m buf (DFSFileHeader (of_nat (file_sectors data))
      (of_nat (if fs = [] then 0 else lba + 1 + file_sectors data)) name)"
  shows "\<exists>w'. ready w' \<and> dfs_fread_loop drive buf path out_data out_size (of_nat lba) (m, w) =
    (if path_name m path = stored_name name then dfs_found drive buf out_data out_size (of_nat lba) (m', w')
     else if fs \<noteq> [] then dfs_fread_loop drive buf path out_data out_size
       (of_nat (lba + 1 + file_sectors data)) (m', w')
     else Some (ERR_NOTFOUND, m', w'))"
proof -
  have len: "length disk < 2 ^ 62" using D by (simp add: disk_at_def)
  from header_read [OF D R] obtain w' where r: "drive_read drive (of_nat lba) 1 buf (m, w) = Some (OK, m', w')"
    and w': "ready w'" unfolding m'_def by blast
  have "(of_nat (lba + 1 + file_sectors data) :: u64) \<noteq> 0"
    using of_nat_Suc_neq_0 [of "lba + file_sectors data", where 'a = 64] disk_at_Cons(3) [OF D] len by simp
  moreover have "load64 m' (buf + 8) = of_nat (if fs = [] then 0 else lba + 1 + file_sectors data)"
    "strneq m' path (buf + 16) 32 \<noteq> 0 \<longleftrightarrow> path_name m path = stored_name name"
    unfolding m'_def by (rule header_in_memory [OF refl A])+
  ultimately show ?thesis using w' r by (subst dfs_fread_loop.simps) auto
qed

lemma dfs_found_reads:
  assumes D: "disk_at disk lba ((name, data) # fs)" and R: "ready w" "file_sectors data < limit"
    and B: "buffers_apart buf out_data out_size (file_sectors data * 512)" and S: "file_sectors data * 512 < 2 ^ 32"
    and h: "load64 m buf = of_nat (file_sectors data)"
  shows "\<exists>m' w'. dfs_found drive buf out_data out_size (of_nat lba) (m, w) = Some (OK, m', w') \<and>
    file_read out_data out_size data m' \<and> ready w'"
proof -
  let ?sc = "file_sectors data" and ?m = "store32 m out_size (of_nat (file_sectors data * 512))"
  have len: "length disk < 2 ^ 62" using D by (simp add: disk_at_def)
  note d = disk_at_Cons [OF D]
  have sc: "unat (of_nat ?sc :: u64) = ?sc" by (rule unat_small [OF _ len]) (use d(3) in simp)
  have fz: "ucast (of_nat ?sc * 512 :: u64) = (of_nat (?sc * 512) :: u32)"
  proof -
    have "unat (of_nat ?sc * 512 :: u64) = ?sc * 512" using sc S by (simp add: unat_word_ariths)
    from arg_cong [OF this, of "of_nat :: nat \<Rightarrow> u32"] show ?thesis by simp
  qed
  have "0 < ?sc" by (simp add: file_sectors_def)
  from read_nat [OF R(1) this R(2) d(3) len, of out_data ?m]
  obtain w' where "drive_read drive (of_nat (lba + 1)) (of_nat ?sc) out_data (?m, w) =
      Some (OK, store_bytes ?m out_data (padded data), w')" and w': "ready w'" unfolding d(2) by blast
  then have r: "drive_read drive (of_nat lba + 1) (of_nat ?sc) out_data (?m, w) =
      Some (OK, store_bytes ?m out_data (padded data), w')" by (simp only: of_nat_add of_nat_1)
  have "load64 ?m buf = of_nat ?sc"
    unfolding h [symmetric]
    by (rule load64_cong) (use B in \<open>auto simp: buffers_apart_def intro!: store32_away [where k = 8]\<close>)
  then have f: "dfs_found drive buf out_data out_size (of_nat lba) (m, w) =
      (if out_data = 0 then Some (OK, ?m, w)
       else Some (OK, store_bytes ?m out_data (padded data), w'))"
    unfolding dfs_found_def prod.case h fz Let_def by (simp only: r)
  have "load32 (store_bytes ?m out_data (padded data)) out_size = of_nat (?sc * 512)" if "out_data \<noteq> 0"
  proof -
    have "load32 (store_bytes ?m out_data (padded data)) out_size = load32 ?m out_size"
      by (rule load32_cong) (use B S that in \<open>auto simp: buffers_apart_def intro!: store_bytes_away [where k = 4]\<close>)
    then show ?thesis by (simp only: load32_store32)
  qed
  moreover have "load_bytes (store_bytes ?m out_data (padded data)) out_data (?sc * 512) = padded data"
    using load_store_bytes [of "padded data" ?m out_data] S by simp
  ultimately show ?thesis using R(1) w' unfolding f file_read_def by (auto simp: load32_store32)
qed

lemma dfs_loop_lookup:
  assumes "disk_at disk lba fs" and "fs \<noteq> []" and "buffers_ok limit buf path out_data out_size fs"
    and "ready w" and L: "1 < limit"
  shows "\<exists>e m' w'. dfs_fread_loop drive buf path out_data out_size (of_nat lba) (m, w) = Some (e, m', w') \<and>
    lookup_spec m path out_data out_size fs e m' \<and> ready w'"
  using assms(1-4)
proof (induction fs arbitrary: lba m w)
  case (Cons f fs)
  obtain name data where f: "f = (name, data)" by (cases f)
  have A: "away buf 512 path 32" and ok: "buffers_ok limit buf path out_data out_size fs"
    and S: "file_sectors data < limit" "file_sectors data * 512 < 2 ^ 32"
      "buffers_apart buf out_data out_size (file_sectors data * 512)"
    using Cons.prems(3) f by (auto simp: buffers_ok_def)
  note D = Cons.prems(1) [unfolded f]
  let ?next = "lba + 1 + file_sectors data"
  let ?m = "store_bytes m buf (DFSFileHeader (of_nat (file_sectors data)) (of_nat (if fs = [] then 0 else ?next)) name)"
  note hm = header_in_memory [OF refl A, of m "of_nat (file_sectors data)" "of_nat (if fs = [] then 0 else ?next)" name]
  from dfs_step [OF D A Cons.prems(4) L, where m = m and out_data = out_data and out_size = out_size] obtain w' where w': "ready w'"
    and step: "dfs_fread_loop drive buf path out_data out_size (of_nat lba) (m, w) =
      (if path_name m path = stored_name name then dfs_found drive buf out_data out_size (of_nat lba) (?m, w')
       else if fs \<noteq> [] then dfs_fread_loop drive buf path out_data out_size (of_nat ?next) (?m, w')
       else Some (ERR_NOTFOUND, ?m, w'))" by blast
  show ?case
  proof (cases "path_name m path = stored_name name")
    case True
    with dfs_found_reads [OF D w' S(1,3,2) hm(1)] step show ?thesis by (auto simp: f lookup_spec_def)
  next
    case False
    show ?thesis
    proof (cases "fs = []")
      case True
      with False step w' show ?thesis by (simp add: f lookup_spec_def)
    next
      case ne: False
      have "lookup_spec ?m path out_data out_size fs e m' = lookup_spec m path out_data out_size (f # fs) e m'" for e m'
        using False by (simp only: lookup_spec_def hm(4)) (simp add: f)
      with Cons.IH [OF disk_at_Cons(4) [OF D] ne ok w', of ?m] False step ne
      show ?thesis by simp
    qed
  qed
qed simp

lemma dfs_fread_image:
  assumes "disk = boot @ img_recs 1 fs @ tail" and "length boot = 512" and "fs \<noteq> []"
    and "length disk < 2 ^ 62" and "buffers_ok limit buf path out_data out_size fs" and "ready w" and "1 < limit"
  shows "\<exists>e m' w'. dfs_fread drive buf path out_data out_size (m, w) = Some (e, m', w') \<and>
    lookup_spec m path out_data out_size fs e m' \<and> ready w'"
proof -
  have "disk_at disk 1 fs" using assms(1,2,4) by (auto simp: disk_at_def)
  from dfs_loop_lookup [OF this assms(3,5,6,7)] show ?thesis by (simp add: dfs_fread_def)
qed

end

lemma takeWhile_string: "(0::u8) \<notin> set bs \<Longrightarrow> takeWhile (\<lambda>c. c \<noteq> 0) (bs @ 0 # xs) = bs"
  by (induction bs) auto

lemma stored_name_short:
  assumes "0 \<notin> set bs" and "length bs < 32"
  shows "stored_name bs = bs"
proof -
  have "strncpy 32 bs = bs @ 0 # replicate (31 - length bs) 0"
    using assms(2) by (simp add: strncpy_def Suc_diff_le flip: replicate_Suc)
  with assms(1) show ?thesis by (simp add: stored_name_def takeWhile_string)
qed

lemma path_name_string:
  assumes "bytes_at m a (bs @ [0])" and "0 \<notin> set bs" and "length bs < 32"
  shows "path_name m a = bs"
proof -
  have "load_bytes m a 32 = load_bytes m a (length bs + Suc (31 - length bs))" using assms(3) by simp
  also have "\<dots> = bs @ 0 # load_bytes m (a + of_nat (length bs) + 1) (31 - length bs)"
    unfolding load_bytes_append using assms(1) by (simp add: bytes_at_append bytes_at_load)
  finally show ?thesis using assms(2) by (simp add: path_name_def takeWhile_string)
qed

section \<open>Properties\<close>

text \<open>
  C14 On a disk with a boot sector and the chain of files \<open>fs\<close>, \<^verbatim>\<open>dfs_fread\<close> returns: for the first file
  whose stored name (at most 32 bytes) is the path it stores the size and reads the sectors of the
  contents to the destination, and for any other path it returns \<^verbatim>\<open>ERR_NOTFOUND\<close>.
\<close>

theorem dfs_fread_lookup:
  assumes "block_drive drive ready (boot @ img_recs 1 fs @ tail) limit" and "length boot = 512" and "fs \<noteq> []"
    and "length (boot @ img_recs 1 fs @ tail) < 2 ^ 62" and "buffers_ok limit buf path out_data out_size fs"
    and "ready w" and "1 < limit"
  shows "\<exists>e m' w'. dfs_fread drive buf path out_data out_size (m, w) = Some (e, m', w') \<and>
    lookup_spec m path out_data out_size fs e m' \<and> ready w'"
  using block_drive.dfs_fread_image [OF assms(1) refl assms(2-7)] .

text \<open>A drive that is a list of bytes.\<close>

definition mem_drive :: "u8 list \<Rightarrow> 'w drive_t" where
  "mem_drive disk lba n a = (\<lambda>(m, w). Some (OK, store_bytes m a (take (unat n * 512) (drop (unat lba * 512) disk)), w))"

interpretation md: block_drive "mem_drive disk" "\<lambda>_. True" disk limit
  by unfold_locales (simp add: mem_drive_def)

definition sample_path_mem :: mem where
  "sample_path_mem = store_bytes (\<lambda>_. 0) 0x8000 (map of_char ''font'')"

lemma sample_buffers: "buffers_ok 2 0x1000 0x8000 0x100 0x800 [(name, data)]" if "length data < 512"
proof -
  have u: "unat (0x7000 + of_nat i :: addr) = 0x7000 + i" if "i < 32" for i
    using that by (simp add: unat_word_ariths unat_of_nat)
  have v: "unat (0x800 + of_nat i :: addr) = 0x800 + i" if "i < 8" for i
    using that by (simp add: unat_word_ariths unat_of_nat)
  have w: "unat (0x700 + of_nat i :: addr) = 0x700 + i" if "i < 4" for i
    using that by (simp add: unat_word_ariths unat_of_nat)
  show ?thesis using that
    by (auto simp: buffers_ok_def buffers_apart_def away_def file_sectors_def u v w)
qed

theorem dfs_fread_lookup_witness:
  "\<exists>m' w'. dfs_fread (mem_drive (replicate 512 0 @ img_recs 1 [(map of_char ''font'', [1, 2, 3])] @ []))
      0x1000 0x8000 0x100 0x800 (sample_path_mem, ()) = Some (OK, m', w') \<and>
    load_bytes m' 0x100 512 = [1, 2, 3] @ replicate 509 0"
proof -
  let ?fs = "[(map of_char ''font'', [1, 2, 3])] :: (u8 list \<times> u8 list) list"
  let ?disk = "replicate 512 0 @ img_recs 1 ?fs @ []"
  have l: "length ?disk < 2 ^ 62"
    unfolding length_append length_img_recs by (simp add: file_sectors_def)
  have b: "buffers_ok 2 0x1000 0x8000 0x100 0x800 ?fs" by (rule sample_buffers) simp
  have p: "path_name sample_path_mem 0x8000 = map of_char ''font''"
    by (rule path_name_string) (simp_all add: sample_path_mem_def)
  have s: "stored_name (map of_char ''font'') = map of_char ''font''"
    by (rule stored_name_short) simp_all
  have d: "file_sectors [1, 2, 3] = 1" "padded [1, 2, 3] = [1, 2, 3] @ replicate 509 0"
    by (simp_all add: file_sectors_def padded_def)
  from dfs_fread_lookup [OF md.block_drive_axioms _ _ l b, where w = "()" and m = sample_path_mem] obtain e m' w' where
    "dfs_fread (mem_drive ?disk) 0x1000 0x8000 0x100 0x800 (sample_path_mem, ()) = Some (e, m', w')"
    "lookup_spec sample_path_mem 0x8000 0x100 0x800 ?fs e m'" by auto
  then show ?thesis unfolding lookup_spec_def p file_read_def by (auto simp only: find.simps prod.case s d option.case) (auto simp: s d)
qed

end
