(* ===== verification/Interrupts.thy ===== *)
theory Interrupts
  imports Proc Keyboard Mouse Pic Apic Debug_Io Dfs
begin

text \<open>
  Interrupts and system calls: \<^verbatim>\<open>kernel/x86/interrupts.c\<close>, \<^verbatim>\<open>kernel/x86/syscall.c\<close> and the callers'
  side \<^verbatim>\<open>libk/syscall.h\<close>.  The handler ties the scheduler, the keyboard, the mouse and the interrupt
  controllers together, so its state holds all of theirs.  The debug messages of the handler are left
  out; \<^verbatim>\<open>hang\<close>, which an exception ends in, does not return and is \<^term>\<open>None\<close>.

  A jump to \<^verbatim>\<open>spurious\<close> skips the initialisation of three local variables that are read afterwards;
  their values are a parameter.

  The lemmas show that every hardware interrupt returns with the scheduler invariant kept and one end
  of interrupt sent to the controller that raised it.
\<close>

section \<open>Definitions\<close>

record 'w kernel =
  k_sched :: sched_t
  k_kb :: kb_t
  k_mouse :: mouse_t
  k_apic :: apic_t
  k_world :: 'w

definition IRQ_PIT :: u8 where "IRQ_PIT = 0"
definition IRQ_KB :: u8 where "IRQ_KB = 1"
definition IRQ_MOUSE :: u8 where "IRQ_MOUSE = 12"

lemmas irq_consts = IRQ_PIT_def IRQ_KB_def IRQ_MOUSE_def

definition is_pic_irq :: "u8 \<Rightarrow> bool" where
  "is_pic_irq irq \<longleftrightarrow> irq \<ge> PIC_IRQ_OFFS \<and> irq < PIC_IRQ_OFFS + 16"

definition is_apic_irq :: "u8 \<Rightarrow> bool" where
  "is_apic_irq irq \<longleftrightarrow> irq \<ge> ucast APIC_IRQ_OFFS \<and> irq < ucast APIC_IRQ_OFFS + 24"

definition is_exception :: "u8 \<Rightarrow> bool" where
  "is_exception irq \<longleftrightarrow> irq < PIC_IRQ_OFFS"

definition irq_ack :: "'w bus \<Rightarrow> bool \<Rightarrow> bool \<Rightarrow> u8 \<Rightarrow> 'w kernel \<Rightarrow> 'w kernel" where
  "irq_ack b pic apic irq k =
     (if pic then k\<lparr>k_world := pic_eoi b irq (k_world k)\<rparr>
      else if apic then k\<lparr>k_world := apic_eoi b (k_apic k) irq (k_world k)\<rparr>
      else k)"

text \<open>The device handlers; every other line is only reported.\<close>

definition irq_device :: "'w bus \<Rightarrow> u8 \<Rightarrow> 'w kernel \<Rightarrow> 'w kernel option" where
  "irq_device b irq k =
     (if irq = IRQ_KB then
        do { (s, w) \<leftarrow> kb_handle_interrupt b (k_kb k) (k_world k); Some (k\<lparr>k_kb := s, k_world := w\<rparr>) }
      else if irq = IRQ_MOUSE then
        do { (s, w) \<leftarrow> mouse_handle_interrupt b (k_mouse k) (k_world k); Some (k\<lparr>k_mouse := s, k_world := w\<rparr>) }
      else Some k)"

definition interrupt_handler :: "'w bus \<Rightarrow> bool \<times> bool \<times> u8 \<Rightarrow> u8 \<Rightarrow> 'w kernel \<Rightarrow> 'w kernel option" where
  "interrupt_handler b uninit intr k =
     (if intr = 0xFF then
        let (pic, apic, irq) = uninit in Some (irq_ack b pic apic irq k)
      else
        let apic = is_apic_irq intr;
            pic = is_pic_irq intr;
            irq = (if apic then intr - ucast APIC_IRQ_OFFS else if pic then intr - PIC_IRQ_OFFS else intr)
        in if apic \<or> pic then
             if irq = IRQ_PIT then
               do { s \<leftarrow> irq_pit (k_sched k); Some ((irq_ack b pic apic irq k)\<lparr>k_sched := s\<rparr>) }
             else do { k \<leftarrow> irq_device b irq k; Some (irq_ack b pic apic irq k) }
           else if is_exception intr then None
           else Some k)"

section \<open>System calls\<close>

definition SYS_PRINT :: u32 where "SYS_PRINT = 0"
definition SYS_YIELD :: u32 where "SYS_YIELD = 1"
definition SYS_FREAD :: u32 where "SYS_FREAD = 2"

lemmas sys_consts = SYS_PRINT_def SYS_YIELD_def SYS_FREAD_def

record regs_t =
  reg_a :: usz
  reg_c :: usz
  reg_d :: usz
  reg_b :: usz

definition sys_handler ::
    "'w bus \<Rightarrow> 'w fs_t \<Rightarrow> regs_t \<Rightarrow> 'w kernel \<Rightarrow> mem \<Rightarrow> (err_t \<times> 'w kernel \<times> mem) option" where
  "sys_handler b rootfs regs k m =
     (if reg_a regs = SYS_PRINT then
        do { (_, w) \<leftarrow> dbg_write b m (reg_c regs) (reg_d regs) (k_world k); Some (OK, k\<lparr>k_world := w\<rparr>, m) }
      else if reg_a regs = SYS_YIELD then
        do { s \<leftarrow> proc_yield (k_sched k); Some (OK, k\<lparr>k_sched := s\<rparr>, m) }
      else if reg_a regs = SYS_FREAD then
        do { (e, m, w) \<leftarrow> fread rootfs (reg_c regs) (reg_d regs) (reg_b regs) (m, k_world k);
             Some (e, k\<lparr>k_world := w\<rparr>, m) }
      else Some (ERR_UNKNTYPE, k, m))"

text \<open>The caller's side loads three registers; the fourth holds whatever it held.\<close>

definition syscall :: "u32 \<Rightarrow> u32 \<Rightarrow> u32 \<Rightarrow> usz \<Rightarrow> regs_t" where
  "syscall a c d ebx = \<lparr>reg_a = a, reg_c = c, reg_d = d, reg_b = ebx\<rparr>"

text \<open>The two wrappers of the example program \<^verbatim>\<open>prog/example.c\<close>.\<close>

definition example_print :: "addr \<Rightarrow> u32 \<Rightarrow> usz \<Rightarrow> regs_t" where
  "example_print str len ebx = syscall 1 str len ebx"

definition example_yield :: "usz \<Rightarrow> regs_t" where
  "example_yield ebx = syscall 2 0 0 ebx"

section \<open>Hardware interrupts\<close>

definition irq_line :: "u8 \<Rightarrow> u8" where
  "irq_line intr = (if is_apic_irq intr then intr - 0x40 else intr - 0x20)"

definition end_of_interrupt :: "'w bus \<Rightarrow> apic_t \<Rightarrow> u8 \<Rightarrow> 'w \<Rightarrow> 'w" where
  "end_of_interrupt b a intr w =
     (if is_pic_irq intr then pic_eoi b (irq_line intr) w else apic_eoi b a (irq_line intr) w)"

lemma irq_classes:
  "is_pic_irq intr \<Longrightarrow> \<not> is_apic_irq intr" "is_pic_irq intr \<or> is_apic_irq intr \<Longrightarrow> intr \<noteq> 0xFF"
  by (auto simp: is_pic_irq_def is_apic_irq_def pic_consts apic_consts word_le_nat_alt word_less_nat_alt)

lemma irq_device_frame:
  "irq_device b irq k = Some k' \<Longrightarrow> k_sched k' = k_sched k \<and> k_apic k' = k_apic k"
  by (auto simp: irq_device_def split: if_splits Option.bind_splits)

text \<open>What a hardware interrupt does, in terms of the device handlers and the end of interrupt.\<close>

lemma interrupt_handler_irq:
  assumes "is_pic_irq intr \<or> is_apic_irq intr"
  shows "interrupt_handler b u intr k =
    (if irq_line intr = 0 then
       map_option (\<lambda>s. k\<lparr>k_sched := s, k_world := end_of_interrupt b (k_apic k) intr (k_world k)\<rparr>) (irq_pit (k_sched k))
     else map_option (\<lambda>k. k\<lparr>k_world := end_of_interrupt b (k_apic k) intr (k_world k)\<rparr>) (irq_device b (irq_line intr) k))"
proof -
  note c = irq_classes [of intr]
  have line: "(if is_apic_irq intr then intr - ucast APIC_IRQ_OFFS
      else if is_pic_irq intr then intr - PIC_IRQ_OFFS else intr) = irq_line intr"
    using assms by (auto simp: irq_line_def pic_consts apic_consts)
  show ?thesis
    unfolding interrupt_handler_def Let_def line end_of_interrupt_def
    using assms c
    by (cases "irq_pit (k_sched k)"; cases "irq_device b (irq_line intr) k")
      (auto simp: irq_consts irq_ack_def)
qed

text \<open>
  C11 A hardware interrupt, from either controller, returns whenever its device handler does (the timer,
  and every line without a driver, always), keeps the invariant of the scheduler with the same processes,
  and sends exactly one end of interrupt, after the device was served and to the controller that raised it.
\<close>

theorem interrupt_handler_keeps_scheduler:
  assumes "is_pic_irq intr \<or> is_apic_irq intr" and "sched_inv (k_sched k) rs ws"
    and "irq_device b (irq_line intr) k = Some k1"
  shows "\<exists>k' rs' ws'. interrupt_handler b u intr k = Some k' \<and> sched_inv (k_sched k') rs' ws' \<and>
    tasks (k_sched k') rs' ws' = tasks (k_sched k) rs ws \<and>
    k_kb k' = k_kb k1 \<and> k_mouse k' = k_mouse k1 \<and>
    k_world k' = end_of_interrupt b (k_apic k) intr (k_world k1)"
proof (cases "irq_line intr = 0")
  case True
  then have "k1 = k" using assms(3) by (simp add: irq_device_def irq_consts)
  from irq_pit_inv [OF assms(2)] obtain s' rs' ws' where s': "irq_pit (k_sched k) = Some s'"
    and inv: "sched_inv s' rs' ws'" "tasks s' rs' ws' = tasks (k_sched k) rs ws" by blast
  let ?k = "k\<lparr>k_sched := s', k_world := end_of_interrupt b (k_apic k) intr (k_world k)\<rparr>"
  have "interrupt_handler b u intr k = Some ?k" using True s' by (simp add: interrupt_handler_irq [OF assms(1)])
  with inv \<open>k1 = k\<close> show ?thesis by (intro exI [of _ ?k] exI [of _ rs'] exI [of _ ws']) simp
next
  case False
  let ?k = "k1\<lparr>k_world := end_of_interrupt b (k_apic k1) intr (k_world k1)\<rparr>"
  have "interrupt_handler b u intr k = Some ?k"
    using False assms(3) by (simp add: interrupt_handler_irq [OF assms(1)])
  with assms(2) irq_device_frame [OF assms(3)] show ?thesis
    by (intro exI [of _ ?k] exI [of _ rs] exI [of _ ws]) simp
qed

definition sample_kernel :: "u8 list kernel" where
  "sample_kernel = \<lparr>k_sched = sample_sched, k_kb = kb_init, k_mouse = mouse_start,
     k_apic = \<lparr>lapic_base = 0xFEE00000, ioapic_base = 0xFEC00000\<rparr>, k_world = [0x1C]\<rparr>"

theorem interrupt_handler_keeps_scheduler_witness:
  "\<exists>k' rs' ws'. interrupt_handler queue_bus (False, False, 0) 0x20 sample_kernel = Some k' \<and>
    sched_inv (k_sched k') rs' ws' \<and> tasks (k_sched k') rs' ws' = {0x8000, 0xC000}"
proof -
  have "is_pic_irq 0x20 \<or> is_apic_irq 0x20" by (simp add: is_pic_irq_def pic_consts)
  moreover have "sched_inv (k_sched sample_kernel) [0xC000] []"
    by (simp add: sample_kernel_def sample_sched_inv)
  moreover have "irq_device queue_bus (irq_line 0x20) sample_kernel = Some sample_kernel"
    by (simp add: irq_device_def irq_consts irq_line_def is_apic_irq_def apic_consts)
  ultimately obtain k' rs' ws' where "interrupt_handler queue_bus (False, False, 0) 0x20 sample_kernel = Some k'"
    "sched_inv (k_sched k') rs' ws'" "tasks (k_sched k') rs' ws' = tasks (k_sched sample_kernel) [0xC000] []"
    using interrupt_handler_keeps_scheduler [of "0x20" sample_kernel "[0xC000]" "[]" queue_bus sample_kernel
      "(False, False, 0)"] by blast
  then show ?thesis by (auto simp: sample_kernel_def sample_tasks)
qed

text \<open>An exception never returns, and any other vector does nothing.\<close>

lemma interrupt_handler_exception: "intr < 0x20 \<Longrightarrow> interrupt_handler b u intr k = None"
  by (auto simp: interrupt_handler_def Let_def is_exception_def is_pic_irq_def is_apic_irq_def pic_consts apic_consts
    word_le_nat_alt word_less_nat_alt)

section \<open>The system call interface\<close>

text \<open>
  The two wrappers of the example program use numbers that are off by one: a call to its \<^verbatim>\<open>print\<close> yields
  the processor and sends nothing, and a call to its \<^verbatim>\<open>yield\<close> reads a file whose name, data and size
  pointers are null, null and whatever the register holds.
\<close>

lemma example_syscalls_off_by_one:
  "sys_handler b rootfs (example_print str len ebx) k m =
     map_option (\<lambda>s. (OK, k\<lparr>k_sched := s\<rparr>, m)) (proc_yield (k_sched k)) \<and>
   sys_handler b rootfs (example_yield ebx) k m = 
     map_option (\<lambda>(e, m, w). (e, k\<lparr>k_world := w\<rparr>, m)) (fread rootfs 0 0 ebx (m, k_world k))"
  by (cases "proc_yield (k_sched k)"; cases "fread rootfs 0 0 ebx (m, k_world k)")
    (simp_all add: sys_handler_def example_print_def example_yield_def syscall_def sys_consts case_prod_beta)

end
