(* ===== verification/Pci.thy ===== *)
theory Pci
  imports Hw
begin

text \<open>
  The enumeration of the PCI bus: \<^verbatim>\<open>kernel/drivers/pci.c\<close> and the names of device classes of
  \<^verbatim>\<open>kernel/drivers/pci_class.c\<close>.  The array \<^verbatim>\<open>pci_devices\<close> is in memory, since reading the registers of a
  device writes past the end of its record; a class name is a literal, whose address is a parameter.

  The lemmas show exactly what reading the registers of a device writes, and that the enumeration returns
  and leaves the records of the functions that answer, in the order of the scan.
\<close>

section \<open>Class names\<close>

text \<open>
  The nested \<^verbatim>\<open>switch\<close> as a table: per class the subclasses with a name of their own and the name of all
  others.  A class without subclasses has an empty list.
\<close>

definition pci_classes_low :: "(u8 \<times> (u8 \<times> string) list \<times> string) list" where
  "pci_classes_low = [
    (0x00, [(0x01, ''VGA Compatible Device'')],
      ''Unclassified Device''),
    (0x01, [(0x00, ''SCSI Bus Controller''),
      (0x01, ''IDE Controller''),
      (0x02, ''Floppy Disk Controller''),
      (0x03, ''IPI Bus Controller''),
      (0x04, ''RAID Controller''),
      (0x05, ''ATA Controller''),
      (0x06, ''Serial ATA Controller''),
      (0x07, ''Serial Attached SCSI Controller''),
      (0x08, ''Non Volatile Memory Controller'')],
      ''Unknown Mass Storage Controller''),
    (0x02, [(0x00, ''Ethernet Controller''),
      (0x01, ''Token Ring Controller''),
      (0x02, ''FDDI Controller''),
      (0x03, ''ATM Controller''),
      (0x04, ''ISDN Controller''),
      (0x05, ''WorldFip Controller''),
      (0x06, ''PICMG 2.14 Multi Computing''),
      (0x07, ''Infiniband Controller''),
      (0x08, ''Fabric Controller'')],
      ''Unknown Network controller''),
    (0x03, [(0x00, ''VGA Controller''),
      (0x01, ''XGA Controller''),
      (0x02, ''3D Controller'')],
      ''Unknown Display controller''),
    (0x04, [(0x00, ''Multimedia Video Controller''),
      (0x01, ''Multimedia Audio Controller''),
      (0x02, ''Computer Telephony Device''),
      (0x03, ''Audio Device'')],
      ''Unknown Multimedia controller''),
    (0x05, [(0x00, ''RAM Controller''),
      (0x01, ''Flash Controller'')],
      ''Unknown Memory controller''),
    (0x06, [(0x00, ''Host Bridge''),
      (0x01, ''ISA Bridge''),
      (0x02, ''EISA Bridge''),
      (0x03, ''MCA Bridge''),
      (0x04, ''PCI to PCI Bridge''),
      (0x05, ''PCMCIA Bridge''),
      (0x06, ''NuBus Bridge''),
      (0x07, ''CardBus Bridge''),
      (0x08, ''RACEway Bridge''),
      (0x09, ''PCI to PCI Bridge''),
      (0x0A, ''InfiniVand to PCI Bridge'')],
      ''Unknown Bridge''),
    (0x07, [(0x00, ''Serial Controller''),
      (0x01, ''Parallel Controller''),
      (0x02, ''Multiport Serial Controller''),
      (0x03, ''Modem''),
      (0x04, ''IEEE 488.1/2 Controller''),
      (0x05, ''Smart Card'')],
      ''Unknown Communication Controller''),
    (0x08, [(0x00, ''PIC''),
      (0x01, ''DMA Controller''),
      (0x02, ''Timer''),
      (0x03, ''RTC Controller''),
      (0x04, ''PCI Hot Plug Controller''),
      (0x05, ''SD Host Controller''),
      (0x06, ''IOMMU'')],
      ''Unknown Base System Peripheral'')]"

definition pci_classes_high :: "(u8 \<times> (u8 \<times> string) list \<times> string) list" where
  "pci_classes_high = [
    (0x09, [(0x00, ''Keyboard Controller''),
      (0x01, ''Digitizer Pen''),
      (0x02, ''Mouse Controller''),
      (0x03, ''Scanner Controller''),
      (0x04, ''Gameport Controller'')],
      ''Unknown Input device controller''),
    (0x0A, [(0x00, ''Generic Docking Station'')],
      ''Unknown Docking station''),
    (0x0B, [(0x00, ''386''),
      (0x01, ''486''),
      (0x02, ''Pentium''),
      (0x03, ''Pentium Pro''),
      (0x10, ''Alpha''),
      (0x20, ''PowerPC''),
      (0x30, ''MIPS''),
      (0x40, ''Coprocessor'')],
      ''Unknown Processor''),
    (0x0C, [(0x00, ''FireWire Controller''),
      (0x01, ''ACCESS Bus''),
      (0x02, ''SSA''),
      (0x03, ''USB Controller''),
      (0x04, ''Fibre Channel''),
      (0x05, ''SMBus''),
      (0x06, ''InfiniBand''),
      (0x07, ''IPMI Interface''),
      (0x08, ''SERCOS Interface''),
      (0x09, ''CANbus'')],
      ''Unknown Serial Bus Controller''),
    (0x0D, [(0x00, ''iRDA Controller''),
      (0x01, ''IR Controller''),
      (0x10, ''RF Controller''),
      (0x11, ''Bluetooth Controller''),
      (0x12, ''Broadband Controller''),
      (0x20, ''Ethernet 802.1a Controller''),
      (0x21, ''Ethernet 802.1b Controller'')],
      ''Unknown Wireless controller''),
    (0x0E, [(0x00, ''I20'')],
      ''Unknown Intelligent Controller''),
    (0x0F, [(0x01, ''Satellite TV Controller''),
      (0x02, ''Satellite Audio Controller''),
      (0x03, ''Satellite Voice Controller''),
      (0x04, ''Satellite Data Controller'')],
      ''Unknown Satellite Communications Controller''),
    (0x10, [(0x00, ''Network and Computing Encryption Controller''),
      (0x10, ''Entertainment Encryption Controller'')],
      ''Unknown Encryption controller''),
    (0x11, [(0x00, ''DPIO Modules''),
      (0x01, ''Performance Counters''),
      (0x10, ''Communication Sychronizer''),
      (0x20, ''Signal Processing Manager'')],
      ''Unknown Signal processing controller''),
    (0x12, [], ''Processing Accelerators''),
    (0x13, [], ''Non-Essential Instrumentation''),
    (0x40, [], ''Coprocessor''),
    (0xFF, [], ''Unassigned Class'')]"

definition pci_get_class_str :: "u8 \<Rightarrow> u8 \<Rightarrow> u8 \<Rightarrow> string" where
  "pci_get_class_str class_code subclass prog_if =
     (case map_of (pci_classes_low @ pci_classes_high) class_code of
        None \<Rightarrow> ''Unknown Device''
      | Some (names, other) \<Rightarrow> (case map_of names subclass of None \<Rightarrow> other | Some name \<Rightarrow> name))"

section \<open>Configuration space\<close>

definition PCI_MAX_BUS :: u32 where "PCI_MAX_BUS = 0xFF"
definition PCI_MAX_DEVICE :: u32 where "PCI_MAX_DEVICE = 0x10"
definition PCI_MAX_FUNC :: u32 where "PCI_MAX_FUNC = 0x04"
definition PCI_CONFIG_ADDR :: u16 where "PCI_CONFIG_ADDR = 0x0CF8"
definition PCI_CONFIG_DATA :: u16 where "PCI_CONFIG_DATA = 0x0CFC"
definition PCI_HEADER_MAX_SIZE :: u32 where "PCI_HEADER_MAX_SIZE = 0x44"
definition PCI_HEADER_TYPE_0 :: u8 where "PCI_HEADER_TYPE_0 = 0x00"
definition PCI_HC_PROG_IF :: u32 where "PCI_HC_PROG_IF = 0x09"
definition PCI_HC_SUBCLASS :: u32 where "PCI_HC_SUBCLASS = 0x0A"
definition PCI_HC_CLASS :: u32 where "PCI_HC_CLASS = 0x0B"
definition PCI_HC_HEADER_TYPE :: u32 where "PCI_HC_HEADER_TYPE = 0x0E"
definition PCI_H0_BAR0 :: u32 where "PCI_H0_BAR0 = 0x10"
definition PCI_H0_BAR1 :: u32 where "PCI_H0_BAR1 = 0x14"
definition PCI_H0_BAR2 :: u32 where "PCI_H0_BAR2 = 0x18"
definition PCI_H0_BAR3 :: u32 where "PCI_H0_BAR3 = 0x1C"
definition PCI_H0_BAR4 :: u32 where "PCI_H0_BAR4 = 0x20"

lemmas pci_consts = PCI_MAX_BUS_def PCI_MAX_DEVICE_def PCI_MAX_FUNC_def PCI_CONFIG_ADDR_def PCI_CONFIG_DATA_def
  PCI_HEADER_MAX_SIZE_def PCI_HEADER_TYPE_0_def PCI_HC_PROG_IF_def PCI_HC_SUBCLASS_def PCI_HC_CLASS_def
  PCI_HC_HEADER_TYPE_def PCI_H0_BAR0_def PCI_H0_BAR1_def PCI_H0_BAR2_def PCI_H0_BAR3_def PCI_H0_BAR4_def

definition make_addr :: "u8 \<Rightarrow> u8 \<Rightarrow> u8 \<Rightarrow> u8 \<Rightarrow> u32" where
  "make_addr bus device func offset =
     push_bit 31 1 OR push_bit 16 (ucast bus) OR push_bit 11 (ucast device AND 0xF) OR
     push_bit 8 (ucast func AND 0xF) OR (ucast offset AND 0xFC)"

definition read_reg :: "'w bus \<Rightarrow> u8 \<Rightarrow> u8 \<Rightarrow> u8 \<Rightarrow> u8 \<Rightarrow> 'w \<Rightarrow> u32 \<times> 'w" where
  "read_reg b bus device func offset w =
     (let (v, w) = inl b PCI_CONFIG_DATA (outl b PCI_CONFIG_ADDR (make_addr bus device func offset) w)
      in (drop_bit (unat ((offset AND 2) * 8)) v, w))"

text \<open>The fields of \<^verbatim>\<open>pci_dev_t\<close> by offset: three bytes, a pointer and the 68 bytes of \<^verbatim>\<open>reg_data\<close>.\<close>

definition pci_class_str :: addr where "pci_class_str = 4"
definition pci_reg_data :: addr where "pci_reg_data = 8"
definition sizeof_pci_dev :: u32 where "sizeof_pci_dev = 76"

lemmas pci_fields = pci_class_str_def pci_reg_data_def sizeof_pci_dev_def

definition pci_read_registers ::
    "'w bus \<Rightarrow> (string \<Rightarrow> addr) \<Rightarrow> addr \<Rightarrow> mem \<times> 'w \<Rightarrow> (mem \<times> 'w) option" where
  "pci_read_registers b str_addr device st =
     do { (it, m, w) \<leftarrow> for_range 0 20
            (\<lambda>i (it, m, w).
               let (v, w) = read_reg b (m device) (m (device + 1)) (m (device + 2)) (ucast (push_bit 2 i)) w
               in Some (it + 4, store32 m it v, w))
            (device + pci_reg_data, st);
          let regs = device + pci_reg_data;
          Some (store32 m (device + pci_class_str)
                  (str_addr (pci_get_class_str (m (regs + PCI_HC_CLASS)) (m (regs + PCI_HC_SUBCLASS))
                     (m (regs + PCI_HC_PROG_IF)))), w) }"

text \<open>One step of the enumeration, for one bus, device and function.\<close>

definition pci_probe ::
    "'w bus \<Rightarrow> (string \<Rightarrow> addr) \<Rightarrow> addr \<Rightarrow> u32 \<Rightarrow> u32 \<Rightarrow> u32 \<Rightarrow> u32 \<times> mem \<times> 'w \<Rightarrow> (u32 \<times> mem \<times> 'w) option" where
  "pci_probe b str_addr pci_devices bus device func = (\<lambda>(dev_count, m, w).
     let (res, w) = read_reg b (ucast bus) (ucast device) (ucast func) 0 w
     in if (ucast res :: u16) \<noteq> 0xFFFF then
          let dev = pci_devices + sizeof_pci_dev * dev_count;
              m = m(dev := ucast bus, dev + 1 := ucast device, dev + 2 := ucast func)
          in do { st \<leftarrow> pci_read_registers b str_addr dev (m, w); Some (dev_count + 1, st) }
        else Some (dev_count, m, w))"

definition pci_enumerate :: "'w bus \<Rightarrow> (string \<Rightarrow> addr) \<Rightarrow> addr \<Rightarrow> mem \<times> 'w \<Rightarrow> (u32 \<times> mem \<times> 'w) option" where
  "pci_enumerate b str_addr pci_devices st =
     for_range 0 PCI_MAX_BUS (\<lambda>bus. for_range 0 PCI_MAX_DEVICE (\<lambda>device. for_range 0 PCI_MAX_FUNC (\<lambda>func.
       pci_probe b str_addr pci_devices bus device func))) (0, st)"

definition pci_reg32 :: "mem \<Rightarrow> addr \<Rightarrow> u32 \<Rightarrow> u32" where
  "pci_reg32 m device offset = load32 m (device + pci_reg_data + offset)"

section \<open>Class names\<close>

text \<open>The table is a function of the class: no class occurs twice, and no subclass twice within one.\<close>

lemma pci_classes_distinct:
  "distinct (map fst (pci_classes_low @ pci_classes_high)) \<and>
   list_all (\<lambda>(_, names, _). distinct (map fst names)) (pci_classes_low @ pci_classes_high)"
  by code_simp

lemma pci_ide_controller: "pci_get_class_str 0x01 0x01 prog_if = ''IDE Controller''"
  by code_simp

section \<open>Reading the registers of a device\<close>

text \<open>
  The contract of the configuration mechanism: a read of the data port returns the double word whose
  address was last written to the address port.
\<close>

definition config_space :: "'w bus \<Rightarrow> (u32 \<Rightarrow> u32) \<Rightarrow> bool" where
  "config_space b cfg \<longleftrightarrow> (\<forall>w a. fst (inl b PCI_CONFIG_DATA (outl b PCI_CONFIG_ADDR a w)) = cfg a)"

lemma read_reg_aligned:
  assumes "config_space b cfg" and "offset AND 2 = 0"
  shows "fst (read_reg b bus device func offset w) = cfg (make_addr bus device func offset)"
  using assms by (simp add: read_reg_def config_space_def case_prod_beta)

lemma dword_offset: "(ucast (push_bit 2 i :: u32) :: u8) AND 2 = 0"
proof (rule bit_word_eqI)
  fix n assume "n < LENGTH(8)"
  have two: "(2 :: u8) = push_bit 1 1" by simp
  have "bit (2 :: u8) n \<longleftrightarrow> n = 1" using \<open>n < LENGTH(8)\<close> unfolding two bit_push_bit_iff bit_1_iff by auto
  then show "bit ((ucast (push_bit 2 i :: u32) :: u8) AND 2) n = bit (0 :: u8) n"
    unfolding bit_and_iff bit_ucast_iff bit_push_bit_iff by auto
qed

lemma regs_away:
  assumes "i < 20"
  shows "away (device + pci_reg_data + 4 * of_nat i) 4 device 3"
  unfolding away_def
proof (intro allI impI)
  fix j :: nat assume j: "j < 3"
  have eq: "device + of_nat j - (device + pci_reg_data + 4 * of_nat i) = of_nat j - (of_nat (8 + 4 * i) :: u32)"
    by (simp add: pci_fields algebra_simps)
  have u: "unat (of_nat (8 + 4 * i) :: u32) = 8 + 4 * i" "unat (of_nat j :: u32) = j"
    using assms j by (intro unat_of_nat_small; simp)+
  show "4 \<le> unat (device + of_nat j - (device + pci_reg_data + 4 * of_nat i))"
    unfolding eq unat_sub_if' u using assms j by simp
qed

definition pci_regs :: "(u32 \<Rightarrow> u32) \<Rightarrow> mem \<Rightarrow> addr \<Rightarrow> u32 list" where
  "pci_regs cfg m device =
     map (\<lambda>i. cfg (make_addr (m device) (m (device + 1)) (m (device + 2)) (ucast (push_bit 2 (of_nat i :: u32))))) [0..<20]"

lemma store_dwords_snoc: "store_dwords m a (vs @ [v]) = store32 (store_dwords m a vs) (a + 4 * of_nat (length vs)) v"
  by (induction vs arbitrary: m a) (simp_all add: algebra_simps)

lemma pci_read_registers_result:
  assumes "config_space b cfg"
  shows "\<exists>w' str. pci_read_registers b str_addr device (m, w) =
    Some (store32 (store_dwords m (device + pci_reg_data) (pci_regs cfg m device)) (device + pci_class_str) str, w')"
proof -
  let ?regs = "pci_regs cfg m device"
  let ?P = "\<lambda>(i :: u32) (it, m', w' :: 'a). it = device + pci_reg_data + 4 * i \<and>
      m' = store_dwords m (device + pci_reg_data) (take (unat i) ?regs)"
  let ?body = "\<lambda>(i :: u32) (it, m, w). let (v, w) = read_reg b (m device) (m (device + 1)) (m (device + 2)) (ucast (push_bit 2 i)) w
      in Some (it + 4, store32 m it v, w)"
  have lr: "length ?regs = 20" by (simp add: pci_regs_def)
  have "\<exists>st. for_range 0 20 ?body (device + pci_reg_data, m, w) = Some st \<and> ?P 20 st"
  proof (rule for_range_rule [where P = ?P])
    fix i :: u32 and st assume i: "i < 20" and P: "?P i st"
    then obtain m1 w1 where st: "st = (device + pci_reg_data + 4 * i, m1, w1)"
      and m1: "m1 = store_dwords m (device + pci_reg_data) (take (unat i) ?regs)" by auto
    have il: "unat i < 20" using i by (simp add: word_less_nat_alt)
    have keep: "m1 (device + of_nat j) = m (device + of_nat j)" if "j < 3" for j
      unfolding m1
      using store_dwords_away [of 20 "device + pci_reg_data" device 3 0 "take (unat i) ?regs" j m] regs_away that il lr
      by simp
    have "fst (read_reg b (m1 device) (m1 (device + 1)) (m1 (device + 2)) (ucast (push_bit 2 i)) w1) = ?regs ! unat i"
      using keep [of 0] keep [of 1] keep [of 2] il
      by (simp add: read_reg_aligned [OF assms dword_offset] pci_regs_def)
    then obtain w2 where rd: "read_reg b (m1 device) (m1 (device + 1)) (m1 (device + 2)) (ucast (push_bit 2 i)) w1 = (?regs ! unat i, w2)"
      by (metis prod.collapse)
    have "store32 m1 (device + pci_reg_data + 4 * i) (?regs ! unat i) =
        store_dwords m (device + pci_reg_data) (take (Suc (unat i)) ?regs)"
      using il lr by (simp add: m1 take_Suc_conv_app_nth store_dwords_snoc min_def)
    moreover have "device + pci_reg_data + 4 * i + 4 = device + pci_reg_data + 4 * (i + 1)" by (simp add: algebra_simps)
    ultimately show "\<exists>st'. ?body i st = Some st' \<and> ?P (i + 1) st'"
      using rd by (simp add: st unat_succ_less [OF i])
  qed simp_all
  then obtain it w' where loop: "for_range 0 20 ?body (device + pci_reg_data, m, w) =
      Some (it, store_dwords m (device + pci_reg_data) ?regs, w')"
    using lr by fastforce
  show ?thesis unfolding pci_read_registers_def loop by (auto simp: Let_def)
qed

text \<open>
  Twenty registers are stored: the memory outside of them and of the name keeps its contents.
\<close>

lemma pci_read_registers_regs:
  assumes "config_space b cfg"
  shows "\<exists>m' w'. pci_read_registers b str_addr device (m, w) = Some (m', w') \<and>
    (\<forall>k < 20. load32 m' (device + pci_reg_data + 4 * of_nat k) = pci_regs cfg m device ! k) \<and>
    (\<forall>x. 84 \<le> unat (x - (device + 4)) \<longrightarrow> m' x = m x)"
proof -
  let ?regs = "pci_regs cfg m device"
  let ?m1 = "store_dwords m (device + pci_reg_data) ?regs"
  from pci_read_registers_result [OF assms] obtain w' str where
    run: "pci_read_registers b str_addr device (m, w) = Some (store32 ?m1 (device + pci_class_str) str, w')" by blast
  have base: "device + pci_reg_data = device + 4 + 4 * of_nat 1" by (simp add: pci_fields)
  have lr: "length ?regs = 20" by (simp add: pci_regs_def)
  have "load32 (store32 ?m1 (device + pci_class_str) str) (device + 4 + 4 * of_nat (Suc k)) = ?regs ! k" if "k < 20" for k
  proof -
    have "away (device + 4 + 4 * of_nat 0) 4 (device + 4 + 4 * of_nat (Suc k)) 4"
      using that by (intro dwords_away [of _ 21]) simp_all
    then have "load32 (store32 ?m1 (device + pci_class_str) str) (device + 4 + 4 * of_nat (Suc k)) =
        load32 ?m1 (device + 4 + 4 * of_nat (Suc k))"
      by (intro load32_cong allI impI store32_away) (simp_all add: pci_fields)
    moreover have "load32 ?m1 (device + 4 + 4 * of_nat (Suc k)) = ?regs ! k"
      using store_dwords_load [of 1 ?regs 21 "Suc k" m "device + 4"] that lr
      unfolding base by simp
    ultimately show ?thesis by simp
  qed
  from this [of k for k] have at: "load32 (store32 ?m1 (device + pci_class_str) str) (device + 8 + 4 * of_nat k) = ?regs ! k"
    if "k < 20" for k using that by (simp add: algebra_simps)
  have "store32 ?m1 (device + pci_class_str) str x = m x" if x: "84 \<le> unat (x - (device + 4))" for x
  proof -
    have "?m1 x = m x" using store_dwords_outside [of 21 x "device + 4" 1 ?regs m] x lr unfolding base by simp
    moreover have "away (device + 4) 4 x 1" using x by (simp add: away_def)
    ultimately show ?thesis using store32_away [of "device + 4" x 1 0 ?m1 str] by (simp add: pci_fields)
  qed
  with run at show ?thesis by (auto simp: pci_fields)
qed

text \<open>
  C18 \<^verbatim>\<open>pci_read_registers\<close> returns, and stores twenty double words of the configuration space of the device, in
  order, from \<^verbatim>\<open>reg_data\<close> on.  The array holds seventeen of them; the other three, registers 44, 48 and 4C,
  overwrite the first twelve bytes behind the record, where the next record of the table has its numbers, its class
  string and its vendor.  The numbers of the device itself and every byte after those twelve are kept.
\<close>

theorem pci_read_registers_overruns:
  assumes "config_space b cfg"
  shows "\<exists>m' w'. pci_read_registers b str_addr device (m, w) = Some (m', w') \<and>
    (\<forall>k < 17. pci_reg32 m' device (4 * of_nat k) = pci_regs cfg m device ! k) \<and>
    (\<forall>k < 3. load32 m' (device + sizeof_pci_dev + 4 * of_nat k) = pci_regs cfg m device ! (17 + k)) \<and>
    (\<forall>x. unat (x - device) < 4 \<or> unat sizeof_pci_dev + 12 \<le> unat (x - device) \<longrightarrow> m' x = m x)"
proof -
  from pci_read_registers_regs [OF assms, of str_addr device m w] obtain m' w' where
    run: "pci_read_registers b str_addr device (m, w) = Some (m', w')"
    and regs: "\<forall>k < 20. load32 m' (device + pci_reg_data + 4 * of_nat k) = pci_regs cfg m device ! k"
    and kept: "\<forall>x. 84 \<le> unat (x - (device + 4)) \<longrightarrow> m' x = m x" by blast
  have "pci_reg32 m' device (4 * of_nat k) = pci_regs cfg m device ! k" if "k < 17" for k
    using regs that by (simp add: pci_reg32_def)
  moreover have "load32 m' (device + sizeof_pci_dev + 4 * of_nat k) = pci_regs cfg m device ! (17 + k)" if "k < 3" for k
    using regs [rule_format, of "17 + k"] that by (simp add: pci_fields algebra_simps)
  moreover have "m' x = m x" if x: "unat (x - device) < 4 \<or> unat sizeof_pci_dev + 12 \<le> unat (x - device)" for x
  proof -
    have eq: "x - (device + 4) = (x - device) - 4" by simp
    have "84 \<le> unat (y - 4)" if "unat y < 4 \<or> 88 \<le> unat y" for y :: addr
      unfolding unat_sub_if' using that by auto
    then have "84 \<le> unat (x - (device + 4))" unfolding eq using x by (simp add: pci_fields)
    with kept show ?thesis by blast
  qed
  ultimately show ?thesis using run by blast
qed

text \<open>A world that remembers the selected address; its configuration space returns the address itself.\<close>

definition pci_bus :: "u32 bus" where
  "pci_bus = \<lparr>bus_inb = \<lambda>_ w. (0, w), bus_inw = \<lambda>_ w. (0, w), bus_inl = \<lambda>_ w. (w, w),
     bus_outb = \<lambda>_ _ w. w, bus_outw = \<lambda>_ _ w. w, bus_outl = \<lambda>_ v _. v,
     bus_ldl = \<lambda>_ w. (0, w), bus_stl = \<lambda>_ _ w. w, bus_time = \<lambda>w. (0, w)\<rparr>"

theorem pci_read_registers_overruns_witness:
  "\<exists>m' w'. pci_read_registers pci_bus (\<lambda>_. 0) 0x1000 (\<lambda>_. 0, 0) = Some (m', w') \<and> load32 m' 0x104C = 0x80000044"
proof -
  have "config_space pci_bus id" by (simp add: config_space_def pci_bus_def inl_def outl_def)
  from pci_read_registers_overruns [OF this, of "\<lambda>_. 0" "0x1000" "\<lambda>_. 0" 0] obtain m' w' where
    "pci_read_registers pci_bus (\<lambda>_. 0) 0x1000 (\<lambda>_. 0, 0) = Some (m', w')"
    and r: "\<forall>k < 3. load32 m' (0x1000 + sizeof_pci_dev + 4 * of_nat k) = pci_regs id (\<lambda>_. 0) 0x1000 ! (17 + k)" by blast
  moreover have "pci_regs id (\<lambda>_. 0) 0x1000 ! 17 = 0x80000044"
    by (simp add: pci_regs_def make_addr_def)
  ultimately show ?thesis using r [rule_format, of 0] by (auto simp: pci_fields)
qed

section \<open>Enumeration\<close>

text \<open>
  A function of a device by its three numbers, the double words of its configuration space, and the order
  in which the functions are probed.  A function is present if its vendor number is not all ones.
\<close>

type_synonym pci_func = "u8 \<times> u8 \<times> u8"

definition pci_cfg :: "(u32 \<Rightarrow> u32) \<Rightarrow> pci_func \<Rightarrow> nat \<Rightarrow> u32" where
  "pci_cfg cfg f k = (case f of (bus, device, func) \<Rightarrow>
     cfg (make_addr bus device func (ucast (push_bit 2 (of_nat k :: u32)))))"

definition pci_present :: "(u32 \<Rightarrow> u32) \<Rightarrow> pci_func \<Rightarrow> bool" where
  "pci_present cfg f \<longleftrightarrow> (ucast (pci_cfg cfg f 0) :: u16) \<noteq> 0xFFFF"

definition scan_funcs :: "nat \<Rightarrow> nat \<Rightarrow> nat \<Rightarrow> pci_func list" where
  "scan_funcs bus device n = map (\<lambda>func. (of_nat bus, of_nat device, of_nat func)) [0..<n]"

definition scan_devices :: "nat \<Rightarrow> nat \<Rightarrow> pci_func list" where
  "scan_devices bus n = concat (map (\<lambda>device. scan_funcs bus device (unat PCI_MAX_FUNC)) [0..<n])"

definition scan_buses :: "nat \<Rightarrow> pci_func list" where
  "scan_buses n = concat (map (\<lambda>bus. scan_devices bus (unat PCI_MAX_DEVICE)) [0..<n])"

definition pci_functions :: "(u32 \<Rightarrow> u32) \<Rightarrow> pci_func list" where
  "pci_functions cfg = filter (pci_present cfg) (scan_buses (unat PCI_MAX_BUS))"

text \<open>What a record of \<^verbatim>\<open>pci_devices\<close> has to show of its function.\<close>

definition pci_record :: "(u32 \<Rightarrow> u32) \<Rightarrow> mem \<Rightarrow> addr \<Rightarrow> pci_func \<Rightarrow> bool" where
  "pci_record cfg m device f \<longleftrightarrow> (m device, m (device + 1), m (device + 2)) = f \<and>
     (\<forall>k<17. pci_reg32 m device (4 * of_nat k) = pci_cfg cfg f k)"

definition pci_record_at :: "addr \<Rightarrow> nat \<Rightarrow> addr" where
  "pci_record_at devices i = devices + of_nat (76 * i)"

definition pci_records :: "(u32 \<Rightarrow> u32) \<Rightarrow> mem \<Rightarrow> addr \<Rightarrow> pci_func list \<Rightarrow> bool" where
  "pci_records cfg m devices fs \<longleftrightarrow> (\<forall>i < length fs. pci_record cfg m (pci_record_at devices i) (fs ! i))"

lemma pci_reg32_cong:
  assumes "k < 17" and "\<forall>j<76. m' (device + of_nat j) = m (device + of_nat j)"
  shows "pci_reg32 m' device (4 * of_nat k) = pci_reg32 m device (4 * of_nat k)"
proof -
  have "m' (device + pci_reg_data + 4 * of_nat k + of_nat i) = m (device + pci_reg_data + 4 * of_nat k + of_nat i)"
    if "i < 4" for i
  proof -
    have "8 + 4 * k + i < 76" using assms(1) that by simp
    from assms(2) [rule_format, OF this] show ?thesis by (simp add: pci_fields add.assoc)
  qed
  then show ?thesis unfolding pci_reg32_def by (intro load32_cong) blast
qed

lemma pci_record_cong:
  assumes "\<forall>j<76. m' (device + of_nat j) = m (device + of_nat j)" and "pci_record cfg m device f"
  shows "pci_record cfg m' device f"
  using assms(2) pci_reg32_cong [OF _ assms(1)] assms(1) [rule_format, of 0] assms(1) [rule_format, of 1]
    assms(1) [rule_format, of 2]
  by (auto simp: pci_record_def)

text \<open>A byte of an earlier record is not one of the 88 bytes from a later record on.\<close>

lemma earlier_record:
  assumes "i < n" and "n < 128" and "j < 76"
  shows "88 \<le> unat (pci_record_at devices i + of_nat j - pci_record_at devices n)"
proof -
  have eq: "pci_record_at devices i + of_nat j - pci_record_at devices n = of_nat (76 * i + j) - (of_nat (76 * n) :: u32)"
    by (simp add: pci_record_at_def)
  have u: "unat (of_nat (76 * i + j) :: u32) = 76 * i + j" "unat (of_nat (76 * n) :: u32) = 76 * n"
    using assms by (intro unat_of_nat_small; simp)+
  have "76 * i + j < 76 * n" using assms by simp
  then show ?thesis unfolding eq unat_sub_if' u using assms(2) by simp
qed


lemma read_reg_zero: "config_space b cfg \<Longrightarrow> fst (read_reg b bus device func 0 w) = pci_cfg cfg (bus, device, func) 0"
  by (simp add: read_reg_aligned pci_cfg_def)

lemma pci_new_record:
  assumes "config_space b cfg"
  shows "\<exists>m' w'. pci_read_registers b str_addr dev (m(dev := bus, dev + 1 := device, dev + 2 := func), w) = Some (m', w') \<and>
    pci_record cfg m' dev (bus, device, func) \<and> (\<forall>x. 88 \<le> unat (x - dev) \<longrightarrow> m' x = m x)"
proof -
  let ?m = "m(dev := bus, dev + 1 := device, dev + 2 := func)"
  from pci_read_registers_regs [OF assms, of str_addr dev ?m w] obtain m' w' where
    run: "pci_read_registers b str_addr dev (?m, w) = Some (m', w')"
    and regs: "\<forall>k < 20. load32 m' (dev + pci_reg_data + 4 * of_nat k) = pci_regs cfg ?m dev ! k"
    and out: "\<forall>x. 84 \<le> unat (x - (dev + 4)) \<longrightarrow> m' x = ?m x" by blast
  have hd: "?m dev = bus" "?m (dev + 1) = device" "?m (dev + 2) = func" by simp_all
  have "m' (dev + of_nat j) = ?m (dev + of_nat j)" if "j < 3" for j
  proof -
    have "dev + of_nat j - (dev + 4) = of_nat j - (4 :: u32)" by simp
    moreover have "84 \<le> unat (of_nat j - (4 :: u32))" using that by (auto simp: less_Suc_eq numeral_3_eq_3)
    ultimately show ?thesis using out by metis
  qed
  from this [of 0] this [of 1] this [of 2] have "(m' dev, m' (dev + 1), m' (dev + 2)) = (bus, device, func)"
    using hd by simp
  moreover have "pci_reg32 m' dev (4 * of_nat k) = pci_cfg cfg (bus, device, func) k" if "k < 17" for k
  proof -
    have "pci_regs cfg ?m dev ! k = cfg (make_addr (?m dev) (?m (dev + 1)) (?m (dev + 2)) (ucast (push_bit 2 (of_nat k :: u32))))"
      unfolding pci_regs_def using that by (subst nth_map) simp_all
    with regs that show ?thesis unfolding pci_reg32_def hd by (simp add: pci_cfg_def)
  qed
  moreover have "m' x = m x" if x: "88 \<le> unat (x - dev)" for x
  proof -
    have "unat (x - dev - 4) = unat (x - dev) - 4" using x by (simp add: unat_sub_if')
    then have "84 \<le> unat (x - (dev + 4))" using x by (simp add: algebra_simps)
    moreover have "x \<noteq> dev" "x \<noteq> dev + 1" "x \<noteq> dev + 2" using x by auto
    ultimately show ?thesis using out by simp
  qed
  ultimately show ?thesis using run by (auto simp: pci_record_def)
qed

text \<open>The state of the scan after the functions \<open>xs\<close>, as long as the array has not been left.\<close>

definition pci_scanned :: "(u32 \<Rightarrow> u32) \<Rightarrow> addr \<Rightarrow> pci_func list \<Rightarrow> u32 \<times> mem \<times> 'w \<Rightarrow> bool" where
  "pci_scanned cfg devices xs = (\<lambda>(count, m, w). let fs = filter (pci_present cfg) xs
     in length fs \<le> 128 \<longrightarrow> count = of_nat (length fs) \<and> pci_records cfg m devices fs)"

lemma pci_probe_scanned:
  assumes cfg: "config_space b cfg" and inv: "pci_scanned cfg devices xs st"
  shows "\<exists>st'. pci_probe b str_addr devices bus device func st = Some st' \<and>
    pci_scanned cfg devices (xs @ [(ucast bus, ucast device, ucast func)]) st'"
proof -
  let ?f = "(ucast bus, ucast device, ucast func) :: pci_func"
  let ?fs = "filter (pci_present cfg) xs"
  obtain n m w where st: "st = (n, m, w)" by (cases st) auto
  from read_reg_zero [OF cfg] obtain w1 where
    r: "read_reg b (ucast bus) (ucast device) (ucast func) 0 w = (pci_cfg cfg ?f 0, w1)" by (metis prod.collapse)
  show ?thesis
  proof (cases "pci_present cfg ?f")
    case True
    let ?dev = "devices + sizeof_pci_dev * n"
    from pci_new_record [OF cfg, of str_addr ?dev m "ucast bus" "ucast device" "ucast func" w1] obtain m' w' where
      new: "pci_read_registers b str_addr ?dev (m(?dev := ucast bus, ?dev + 1 := ucast device, ?dev + 2 := ucast func), w1) =
        Some (m', w')" "pci_record cfg m' ?dev ?f" "\<forall>x. 88 \<le> unat (x - ?dev) \<longrightarrow> m' x = m x" by blast
    have "pci_probe b str_addr devices bus device func st = Some (n + 1, m', w')"
      using True by (simp add: pci_probe_def st r pci_present_def new(1) Let_def)
    moreover have "pci_scanned cfg devices (xs @ [?f]) (n + 1, m', w')"
    proof (cases "length ?fs < 128")
      case len: True
      then have n: "n = of_nat (length ?fs)" and old: "pci_records cfg m devices ?fs"
        using inv by (simp_all add: st pci_scanned_def Let_def)
      have dev: "?dev = pci_record_at devices (length ?fs)" by (simp add: n pci_record_at_def pci_fields)
      have "pci_record cfg m' (pci_record_at devices i) (?fs ! i)" if i: "i < length ?fs" for i
      proof (rule pci_record_cong)
        show "pci_record cfg m (pci_record_at devices i) (?fs ! i)" using old i by (simp add: pci_records_def)
        show "\<forall>j<76. m' (pci_record_at devices i + of_nat j) = m (pci_record_at devices i + of_nat j)"
          using new(3) earlier_record [OF i len] unfolding dev by blast
      qed
      then have "pci_records cfg m' devices (?fs @ [?f])"
        using new(2) unfolding dev by (auto simp: pci_records_def nth_append less_Suc_eq)
      then show ?thesis using True n by (simp add: pci_scanned_def)
    qed (use True in \<open>simp add: pci_scanned_def\<close>)
    ultimately show ?thesis by blast
  next
    case False
    then have "pci_probe b str_addr devices bus device func st = Some (n, m, w1)"
      by (simp add: pci_probe_def st r pci_present_def Let_def)
    then show ?thesis using inv False by (auto simp: st pci_scanned_def)
  qed
qed

lemma pci_scan_funcs:
  fixes b :: "'w bus"
  assumes "config_space b cfg" and "pci_scanned cfg devices xs st"
  shows "\<exists>st'. for_range 0 PCI_MAX_FUNC (pci_probe b str_addr devices bus device) st = Some st' \<and>
    pci_scanned cfg devices (xs @ scan_funcs (unat bus) (unat device) (unat PCI_MAX_FUNC)) st'"
proof (rule for_range_rule [where P = "\<lambda>i. pci_scanned cfg devices (xs @ scan_funcs (unat bus) (unat device) (unat i))"])
  fix i and st :: "u32 \<times> mem \<times> 'w" assume "i < PCI_MAX_FUNC" and "pci_scanned cfg devices (xs @ scan_funcs (unat bus) (unat device) (unat i)) st"
  with pci_probe_scanned [OF assms(1) this(2), of str_addr bus device i] show
    "\<exists>st'. pci_probe b str_addr devices bus device i st = Some st' \<and>
       pci_scanned cfg devices (xs @ scan_funcs (unat bus) (unat device) (unat (i + 1))) st'"
    by (simp add: scan_funcs_def unat_succ_less [of i PCI_MAX_FUNC])
qed (use assms(2) in \<open>simp_all add: scan_funcs_def\<close>)

lemma pci_scan_devices:
  fixes b :: "'w bus"
  assumes "config_space b cfg" and "pci_scanned cfg devices xs st"
  shows "\<exists>st'. for_range 0 PCI_MAX_DEVICE (\<lambda>device. for_range 0 PCI_MAX_FUNC (pci_probe b str_addr devices bus device)) st =
      Some st' \<and> pci_scanned cfg devices (xs @ scan_devices (unat bus) (unat PCI_MAX_DEVICE)) st'"
proof (rule for_range_rule [where P = "\<lambda>i. pci_scanned cfg devices (xs @ scan_devices (unat bus) (unat i))"])
  fix i and st :: "u32 \<times> mem \<times> 'w" assume "i < PCI_MAX_DEVICE" and "pci_scanned cfg devices (xs @ scan_devices (unat bus) (unat i)) st"
  with pci_scan_funcs [OF assms(1) this(2), of str_addr bus i] show
    "\<exists>st'. for_range 0 PCI_MAX_FUNC (pci_probe b str_addr devices bus i) st = Some st' \<and>
       pci_scanned cfg devices (xs @ scan_devices (unat bus) (unat (i + 1))) st'"
    by (simp add: scan_devices_def unat_succ_less [of i PCI_MAX_DEVICE])
qed (use assms(2) in \<open>simp_all add: scan_devices_def\<close>)

lemma pci_enumerate_scans:
  fixes b :: "'w bus"
  assumes "config_space b cfg"
  shows "\<exists>st'. pci_enumerate b str_addr devices (m, w) = Some st' \<and>
    pci_scanned cfg devices (scan_buses (unat PCI_MAX_BUS)) st'"
  unfolding pci_enumerate_def
proof (rule for_range_rule [where P = "\<lambda>i. pci_scanned cfg devices (scan_buses (unat i))"])
  fix i and st :: "u32 \<times> mem \<times> 'w" assume "i < PCI_MAX_BUS" and "pci_scanned cfg devices (scan_buses (unat i)) st"
  with pci_scan_devices [OF assms this(2), of str_addr i] show
    "\<exists>st'. for_range 0 PCI_MAX_DEVICE (\<lambda>device. for_range 0 PCI_MAX_FUNC (pci_probe b str_addr devices i device)) st = Some st' \<and>
       pci_scanned cfg devices (scan_buses (unat (i + 1))) st'"
    by (simp add: scan_buses_def unat_succ_less [of i PCI_MAX_BUS])
qed (simp_all add: scan_buses_def pci_scanned_def pci_records_def)

lemma pci_scanned_all:
  assumes "pci_scanned cfg devices (scan_buses (unat PCI_MAX_BUS)) st" and "length (pci_functions cfg) \<le> 128"
  obtains m' w' where "st = (of_nat (length (pci_functions cfg)), m', w')" and "pci_records cfg m' devices (pci_functions cfg)"
  using assms by (auto simp: pci_scanned_def pci_functions_def Let_def)

text \<open>
  C39 On a bus with the configuration mechanism \<^verbatim>\<open>pci_enumerate\<close> returns, and if at most 128 functions answer,
  as many as \<^verbatim>\<open>pci_devices\<close> has records, it counts them and leaves their records in the order of the scan,
  each with its bus, device and function number and its seventeen registers, although every record is
  written past its end.
\<close>

theorem pci_enumerate_lists:
  assumes "config_space b cfg" and "length (pci_functions cfg) \<le> 128"
  shows "\<exists>m' w'. pci_enumerate b str_addr devices (m, w) = Some (of_nat (length (pci_functions cfg)), m', w') \<and>
    pci_records cfg m' devices (pci_functions cfg)"
  using pci_enumerate_scans [OF assms(1)] assms(2) by (metis pci_scanned_all)

text \<open>A bus with one function that answers, an IDE controller at 0:1.1.\<close>

lemma nibble_mask: "(0xF :: u32) = mask 4"
  by (simp add: mask_eq_exp_minus_1)

lemma make_addr_fields:
  "ucast (drop_bit 16 (make_addr bus device func offset)) = bus"
  "\<not> bit func 3 \<Longrightarrow> take_bit 4 (ucast (drop_bit 11 (make_addr bus device func offset))) = take_bit 4 device"
  "take_bit 3 (ucast (drop_bit 8 (make_addr bus device func offset))) = take_bit 3 func"
  unfolding make_addr_def nibble_mask take_bit_eq_mask [symmetric]
  by ((rule bit_word_eqI, simp only: bit_simps comp_apply, auto dest: bit_imp_le_length)[1])+

definition ide_cfg :: "u32 \<Rightarrow> u32" where
  "ide_cfg a = (if drop_bit 8 a = 0x800009 then
       (if a AND 0xFC = 0 then 0x70108086 else if a AND 0xFC = 8 then 0x01018000 else 0) else 0xFFFFFFFF)"


lemma ide_cfg_selected: "pci_present ide_cfg (x, y, z) \<longleftrightarrow> drop_bit 8 (make_addr x y z 0) = 0x800009"
  by (simp add: pci_present_def pci_cfg_def ide_cfg_def)

lemma ide_cfg_present:
  assumes "bus < 255" and "device < 16" and "func < 4"
  shows "pci_present ide_cfg (of_nat bus, of_nat device, of_nat func) \<longleftrightarrow> bus = 0 \<and> device = 1 \<and> func = 1"
proof -
  let ?a = "make_addr (of_nat bus) (of_nat device) (of_nat func) 0"
  have "func \<in> {0, 1, 2, 3}" using assms(3) by auto
  then have f3: "\<not> bit (of_nat func :: u8) 3" by auto
  have u: "unat (of_nat bus :: u8) = bus" "unat (take_bit 4 (of_nat device :: u8)) = device"
    "unat (take_bit 3 (of_nat func :: u8)) = func"
    using assms by (simp_all add: unat_of_nat unat_take_bit take_bit_nat_eq_self)
  have "bus = 0 \<and> device = 1 \<and> func = 1" if "drop_bit 8 ?a = 0x800009"
  proof -
    have "drop_bit 16 ?a = drop_bit 8 (drop_bit 8 ?a)" "drop_bit 11 ?a = drop_bit 3 (drop_bit 8 ?a)"
      by (simp_all only: drop_bit_drop_bit) simp_all
    then have at: "drop_bit 16 ?a = 0x8000" "drop_bit 11 ?a = 0x100001" unfolding that by simp_all
    have "ucast (0x8000 :: u32) = (of_nat bus :: u8)"
      using make_addr_fields(1) [of "of_nat bus" "of_nat device" "of_nat func" 0] unfolding at(1) .
    then have "bus = unat (ucast (0x8000 :: u32) :: u8)" using u(1) by metis
    moreover have "take_bit 4 (ucast (0x100001 :: u32)) = take_bit 4 (of_nat device :: u8)"
      using make_addr_fields(2) [OF f3, of "of_nat bus" "of_nat device" 0] unfolding at(2) .
    then have "device = unat (take_bit 4 (ucast (0x100001 :: u32)) :: u8)" using u(2) by metis
    moreover have "take_bit 3 (ucast (0x800009 :: u32)) = take_bit 3 (of_nat func :: u8)"
      using make_addr_fields(3) [of "of_nat bus" "of_nat device" "of_nat func" 0] unfolding that .
    then have "func = unat (take_bit 3 (ucast (0x800009 :: u32)) :: u8)" using u(3) by metis
    ultimately show ?thesis by simp
  qed
  moreover have "drop_bit 8 (make_addr 0 1 1 0) = 0x800009" by (simp add: make_addr_def)
  then have "bus = 0 \<and> device = 1 \<and> func = 1 \<Longrightarrow> drop_bit 8 ?a = 0x800009" by simp
  ultimately show ?thesis unfolding ide_cfg_selected by blast
qed

lemma ide_cfg_functions: "pci_functions ide_cfg = [(0, 1, 1)]"
proof -
  have "filter (pci_present ide_cfg) (scan_funcs bus device 4) = (if bus = 0 \<and> device = 1 then [(0, 1, 1)] else [])"
    if "bus < 255" "device < 16" for bus device
  proof -
    have "[0..<4] = [0, 1, 2, 3]" by (simp add: upt_rec)
    then show ?thesis
      using ide_cfg_present [OF that, of 0] ide_cfg_present [OF that, of 1] ide_cfg_present [OF that, of 2]
        ide_cfg_present [OF that, of 3] by (auto simp: scan_funcs_def)
  qed
  then have "filter (pci_present ide_cfg) (scan_devices bus 16) = (if bus = 0 then [(0, 1, 1)] else [])"
    if "bus < 255" for bus
    using that by (simp add: scan_devices_def pci_consts filter_concat upt_rec)
  then have "map (\<lambda>bus. filter (pci_present ide_cfg) (scan_devices bus 16)) [0..<255] =
      map (\<lambda>bus. if bus = 0 then [(0, 1, 1)] else []) [0..<255]"
    by (intro map_cong refl) simp
  moreover have "[0..<255] = 0 # [1..<255]" by (simp add: upt_conv_Cons)
  moreover have "concat (map (\<lambda>bus. if bus = 0 then [(0, 1, 1)] else []) [1..<255]) = ([] :: pci_func list)"
    by (simp add: concat_eq_Nil_conv)
  ultimately show ?thesis
    by (simp add: pci_functions_def scan_buses_def pci_consts filter_concat comp_def)
qed

definition ide_pci_bus :: "u32 bus" where
  "ide_pci_bus = pci_bus\<lparr>bus_inl := \<lambda>_ w. (ide_cfg w, w)\<rparr>"

theorem pci_enumerate_lists_witness:
  "\<exists>m' w'. pci_enumerate ide_pci_bus (\<lambda>_. 0) 0x1000 (\<lambda>_. 0, 0) = Some (1, m', w') \<and>
     (m' 0x1000, m' 0x1001, m' 0x1002) = (0, 1, 1) \<and> pci_reg32 m' 0x1000 8 = 0x01018000"
proof -
  have "config_space ide_pci_bus ide_cfg"
    by (simp add: config_space_def ide_pci_bus_def pci_bus_def inl_def outl_def)
  from pci_enumerate_lists [OF this, of "\<lambda>_. 0" "0x1000" "\<lambda>_. 0" 0] obtain m' w' where
    run: "pci_enumerate ide_pci_bus (\<lambda>_. 0) 0x1000 (\<lambda>_. 0, 0) = Some (1, m', w')"
    and rec: "pci_record ide_cfg m' 0x1000 (0, 1, 1)"
    by (auto simp: ide_cfg_functions pci_records_def pci_record_at_def)
  have "pci_reg32 m' 0x1000 (4 * of_nat 2) = pci_cfg ide_cfg (0, 1, 1) 2"
    using rec by (simp add: pci_record_def del: of_nat_numeral)
  moreover have "pci_cfg ide_cfg (0, 1, 1) 2 = 0x01018000"
    by (simp add: pci_cfg_def make_addr_def ide_cfg_def)
  ultimately show ?thesis using run rec by (simp add: pci_record_def)
qed

end
