(* ===== verification/Acpi.thy ===== *)
theory Acpi
  imports Hw
begin

text \<open>
  The ACPI tables, \<^verbatim>\<open>kernel/drivers/acpi.c\<close>: the search for the root pointer, its validation and the walk
  over the tables, which collects the processors, the interrupt controllers and the interrupt mappings
  from the records of the MADT.  The tables are bytes in memory; string literals are at addresses given
  by \<open>lits\<close>.  The walk over the records adds a length that comes from the table and may not end.

  The lemmas show that the walk over a well-formed MADT returns and folds the meaning of each record
  over the state.
\<close>

section \<open>Definitions\<close>

record acpi_t =
  acpi_lapic :: addr
  acpi_ioapic :: addr
  acpi_cpu_count :: u8
  acpi_lapic_ids :: "u8 list"
  acpi_intr_mappings :: "u8 list"
  acpi_fadt :: addr
  acpi_madt :: addr

definition acpi_start :: acpi_t where
  "acpi_start = \<lparr>acpi_lapic = 0, acpi_ioapic = 0, acpi_cpu_count = 0, acpi_lapic_ids = replicate 64 0,
     acpi_intr_mappings = replicate 24 0, acpi_fadt = 0, acpi_madt = 0\<rparr>"

text \<open>Sizes of the structures of \<^verbatim>\<open>acpi.h\<close> and offsets of the fields the code reads.\<close>

definition sizeof_rsdp :: u32 where "sizeof_rsdp = 20"
definition sizeof_rsdp2 :: u32 where "sizeof_rsdp2 = 36"
definition sizeof_rsdt :: u32 where "sizeof_rsdt = 36"
definition sizeof_madt :: u32 where "sizeof_madt = 44"
definition rsdp_rev :: addr where "rsdp_rev = 15"
definition rsdp_rsdt_addr :: addr where "rsdp_rsdt_addr = 16"
definition sdt_len :: addr where "sdt_len = 4"
definition madt_lapic_addr :: addr where "madt_lapic_addr = 36"
definition fadt_smi_cmd_port :: addr where "fadt_smi_cmd_port = 48"
definition fadt_acpi_enable :: addr where "fadt_acpi_enable = 52"
definition fadt_acpi_disable :: addr where "fadt_acpi_disable = 53"

lemmas acpi_offsets = sizeof_rsdp_def sizeof_rsdp2_def sizeof_rsdt_def sizeof_madt_def rsdp_rev_def
  rsdp_rsdt_addr_def sdt_len_def madt_lapic_addr_def fadt_smi_cmd_port_def fadt_acpi_enable_def fadt_acpi_disable_def

text \<open>\<^verbatim>\<open>for (i = from; i < to; ++i) checksum += ((u8*)p)[i];\<close>\<close>

definition acpi_checksum :: "mem \<Rightarrow> addr \<Rightarrow> u32 \<Rightarrow> u32 \<Rightarrow> u8 \<Rightarrow> u8 option" where
  "acpi_checksum m p from to checksum = for_range from to (\<lambda>i c. Some (c + m (p + i))) checksum"

definition acpi_rsdp_validate :: "(string \<Rightarrow> addr) \<Rightarrow> mem \<Rightarrow> addr \<Rightarrow> bool option" where
  "acpi_rsdp_validate lits m rsdp =
     (if strneq m rsdp (lits ''RSD PTR '') 8 = 0 then Some False
      else do {
        checksum \<leftarrow> acpi_checksum m rsdp 0 sizeof_rsdp 0;
        if checksum \<noteq> 0 then Some False
        else if m (rsdp + rsdp_rev) = 2 then
          do { checksum \<leftarrow> acpi_checksum m rsdp sizeof_rsdp sizeof_rsdp2 checksum; Some (checksum = 0) }
        else Some (m (rsdp + rsdp_rev) = 0) })"

partial_function (option) acpi_scan :: "(string \<Rightarrow> addr) \<Rightarrow> mem \<Rightarrow> addr \<Rightarrow> u32 \<Rightarrow> u32 \<Rightarrow> addr option" where
  "acpi_scan lits m base i e =
     (if i < e then
        if m (base + i) \<noteq> of_char CHR ''R'' then acpi_scan lits m base (i + 16) e
        else do { ok \<leftarrow> acpi_rsdp_validate lits m (base + i);
                  if ok then Some (base + i) else acpi_scan lits m base (i + 16) e }
      else Some 0)"

definition acpi_find_rsdp :: "(string \<Rightarrow> addr) \<Rightarrow> mem \<Rightarrow> addr option" where
  "acpi_find_rsdp lits m =
     do { let ebda = ucast (load16 m 0x040E);
          r \<leftarrow> acpi_scan lits m ebda 0 (KB 1);
          if r \<noteq> 0 then Some r else acpi_scan lits m 0 0xE0000 0xFFFFF }"

definition acpi_validate_sdt :: "mem \<Rightarrow> addr \<Rightarrow> bool option" where
  "acpi_validate_sdt m sdt = do { c \<leftarrow> acpi_checksum m sdt 0 (load32 m (sdt + sdt_len)) 0; Some (c = 0) }"

text \<open>One record of the MADT; the two local variables are threaded with the state.\<close>

definition acpi_record :: "mem \<Rightarrow> addr \<Rightarrow> addr \<times> addr \<times> acpi_t \<Rightarrow> (addr \<times> addr \<times> acpi_t) option" where
  "acpi_record m it = (\<lambda>(lapic, ioapic, s).
     if m it = 0 then
       let flags = load32 m (it + 4)
       in if flags AND 1 \<noteq> 0 \<or> flags AND 2 \<noteq> 0 then
            do { ids \<leftarrow> arr_set (acpi_lapic_ids s) (ucast (acpi_cpu_count s)) (m (it + 3));
                 Some (lapic, ioapic, s\<lparr>acpi_lapic_ids := ids, acpi_cpu_count := acpi_cpu_count s + 1\<rparr>) }
          else Some (lapic, ioapic, s)
     else if m it = 1 then Some (lapic, load32 m (it + 4), s)
     else if m it = 2 then
       do { ms \<leftarrow> arr_set (acpi_intr_mappings s) (ucast (m (it + 4))) (m (it + 3));
            Some (lapic, ioapic, s\<lparr>acpi_intr_mappings := ms\<rparr>) }
     else if m it = 5 then Some (load32 m (it + 4), ioapic, s)
     else Some (lapic, ioapic, s))"

partial_function (option) acpi_records ::
    "mem \<Rightarrow> addr \<Rightarrow> addr \<Rightarrow> addr \<times> addr \<times> acpi_t \<Rightarrow> (addr \<times> addr \<times> acpi_t) option" where
  "acpi_records m it end st =
     (if it < end then do { st \<leftarrow> acpi_record m it st; acpi_records m (it + ucast (m (it + 1))) end st }
      else Some st)"

definition acpi_table :: "(string \<Rightarrow> addr) \<Rightarrow> mem \<Rightarrow> addr \<Rightarrow> acpi_t \<Rightarrow> acpi_t option" where
  "acpi_table lits m header s =
     do { ok \<leftarrow> acpi_validate_sdt m header;
          if \<not> ok then Some s
          else if strneq m header (lits ''APIC'') 4 \<noteq> 0 then
            do { let it = header + sizeof_madt;
                 let end = it + load32 m (header + sdt_len) - sizeof_madt;
                 (lapic, ioapic, s) \<leftarrow>
                   acpi_records m it end (load32 m (header + madt_lapic_addr), 0, s\<lparr>acpi_madt := header\<rparr>);
                 Some (s\<lparr>acpi_lapic := lapic, acpi_ioapic := ioapic\<rparr>) }
          else if strneq m header (lits ''FACP'') 4 \<noteq> 0 then Some (s\<lparr>acpi_fadt := header\<rparr>)
          else Some s }"

definition acpi_initialize :: "(string \<Rightarrow> addr) \<Rightarrow> mem \<Rightarrow> acpi_t \<Rightarrow> acpi_t option" where
  "acpi_initialize lits m s =
     do { let s = s\<lparr>acpi_intr_mappings := map of_nat [0..<24]\<rparr>;
          rsdp \<leftarrow> acpi_find_rsdp lits m;
          if rsdp = 0 then Some s
          else do {
            let rsdt = load32 m (rsdp + rsdp_rsdt_addr);
            let sdt_addr_count = (load32 m (rsdt + sdt_len) - sizeof_rsdt) div 4;
            for_range 0 sdt_addr_count (\<lambda>i. acpi_table lits m (load32 m (rsdt + sizeof_rsdt + 4 * i))) s } }"

definition acpi_enable :: "'w bus \<Rightarrow> mem \<Rightarrow> acpi_t \<Rightarrow> 'w \<Rightarrow> 'w" where
  "acpi_enable b m s w =
     outb b (ucast (load32 m (acpi_fadt s + fadt_smi_cmd_port))) (m (acpi_fadt s + fadt_acpi_enable)) w"

definition acpi_disable :: "'w bus \<Rightarrow> mem \<Rightarrow> acpi_t \<Rightarrow> 'w \<Rightarrow> 'w" where
  "acpi_disable b m s w =
     outb b (ucast (load32 m (acpi_fadt s + fadt_smi_cmd_port))) (m (acpi_fadt s + fadt_acpi_disable)) w"

section \<open>Checksums\<close>

lemma acpi_checksum_sum:
  assumes "n < 2 ^ 32"
  shows "acpi_checksum m p 0 (of_nat n) c = Some (c + sum_list (load_bytes m p n))"
proof -
  let ?n = "of_nat n :: u32"
  have n: "unat ?n = n" using assms by (simp add: unat_of_nat_small)
  have "\<exists>c'. for_range 0 ?n (\<lambda>i c. Some (c + m (p + i))) c = Some c' \<and> c' = c + sum_list (load_bytes m p (unat ?n))"
  proof (rule for_range_rule [where P = "\<lambda>i c'. c' = c + sum_list (load_bytes m p (unat i))"])
    fix i :: u32 and c' assume i: "i < ?n" and c': "c' = c + sum_list (load_bytes m p (unat i))"
    have "load_bytes m p (Suc (unat i)) = load_bytes m p (unat i) @ [m (p + i)]"
      using load_bytes_append [of m p "unat i" 1] by simp
    then show "\<exists>c''. Some (c' + m (p + i)) = Some c'' \<and> c'' = c + sum_list (load_bytes m p (unat (i + 1)))"
      by (simp add: c' unat_succ_less [OF i] add.assoc)
  qed simp_all
  then show ?thesis by (simp add: acpi_checksum_def n)
qed

text \<open>A table is valid when the bytes it says it has add up to zero.\<close>

lemma acpi_validate_sdt_iff:
  "acpi_validate_sdt m sdt = Some (sum_list (load_bytes m sdt (unat (load32 m (sdt + 4)))) = 0)"
proof -
  have "acpi_checksum m sdt 0 (of_nat (unat (load32 m (sdt + 4)))) 0 =
      Some (0 + sum_list (load_bytes m sdt (unat (load32 m (sdt + 4)))))"
    by (rule acpi_checksum_sum) simp
  then show ?thesis by (simp add: acpi_validate_sdt_def acpi_offsets)
qed

section \<open>The records of the MADT\<close>

text \<open>A record as bytes: type, length, and a payload long enough for the fields of its type.\<close>

definition le32 :: "u8 list \<Rightarrow> u32" where
  "le32 bs = load32 (\<lambda>a. bs ! unat a) 0"

definition record_ok :: "u8 list \<Rightarrow> bool" where
  "record_ok r \<longleftrightarrow> 2 \<le> length r \<and> length r < 256 \<and> r ! 1 = of_nat (length r) \<and> (r ! 0 \<in> {0, 1, 2, 5} \<longrightarrow> 8 \<le> length r)"

definition record_spec :: "u8 list \<Rightarrow> addr \<times> addr \<times> acpi_t \<Rightarrow> (addr \<times> addr \<times> acpi_t) option" where
  "record_spec r = (\<lambda>(lapic, ioapic, s).
     if r ! 0 = 0 then
       if le32 (drop 4 r) AND 3 \<noteq> 0 then
         if unat (acpi_cpu_count s) < length (acpi_lapic_ids s) then
           Some (lapic, ioapic, s\<lparr>acpi_lapic_ids := (acpi_lapic_ids s)[unat (acpi_cpu_count s) := r ! 3],
             acpi_cpu_count := acpi_cpu_count s + 1\<rparr>)
         else None
       else Some (lapic, ioapic, s)
     else if r ! 0 = 1 then Some (lapic, le32 (drop 4 r), s)
     else if r ! 0 = 2 then
       if unat (r ! 4) < length (acpi_intr_mappings s) then
         Some (lapic, ioapic, s\<lparr>acpi_intr_mappings := (acpi_intr_mappings s)[unat (r ! 4) := r ! 3]\<rparr>)
       else None
     else if r ! 0 = 5 then Some (le32 (drop 4 r), ioapic, s)
     else Some (lapic, ioapic, s))"

fun records_spec :: "u8 list list \<Rightarrow> addr \<times> addr \<times> acpi_t \<Rightarrow> (addr \<times> addr \<times> acpi_t) option" where
  "records_spec [] st = Some st"
| "records_spec (r # rs) st = do { st \<leftarrow> record_spec r st; records_spec rs st }"

lemma load32_record:
  assumes "bytes_at m it r" and "8 \<le> length r"
  shows "load32 m (it + 4) = le32 (drop 4 r)"
proof -
  have "m (it + of_nat k) = r ! k" if "k < length r" for k
    using bytes_at_nth [OF assms(1) that] .
  from this [of 4] this [of 5] this [of 6] this [of 7] assms(2)
  have "m (it + 4) = r ! 4" "m (5 + it) = r ! 5" "m (6 + it) = r ! 6" "m (7 + it) = r ! 7"
    by (simp_all add: add.commute [of it])
  then show ?thesis using assms(2) by (simp add: load32_def load16_def le32_def)
qed

lemma unat_ucast_8_32: "unat (ucast (v :: u8) :: u32) = unat v"
proof -
  have "unat v < 256" using unsigned_less [of v, where 'a = nat] by simp
  then show ?thesis by (simp add: unsigned_ucast_eq take_bit_nat_eq_self)
qed

lemma and_3_zero: "(v AND 1 \<noteq> 0 \<or> v AND 2 \<noteq> 0) \<longleftrightarrow> v AND 3 \<noteq> (0 :: u32)"
proof -
  have "v AND 3 = (v AND 1) OR (v AND 2)" by (simp flip: bit.conj_disj_distrib)
  then show ?thesis by (simp add: or_eq_0_iff)
qed

lemma acpi_record_spec:
  assumes "bytes_at m it r" and "record_ok r"
  shows "acpi_record m it st = record_spec r st"
proof -
  obtain lapic ioapic s where st: "st = (lapic, ioapic, s)" by (cases st) auto
  have at: "m (it + of_nat k) = r ! k" if "k < length r" for k using bytes_at_nth [OF assms(1) that] .
  from assms(2) have len: "2 \<le> length r" and fields: "r ! 0 \<in> {0, 1, 2, 5} \<Longrightarrow> 8 \<le> length r"
    by (auto simp: record_ok_def)
  have b0: "m it = r ! 0" using at [of 0] len by (cases r) simp_all
  show ?thesis
  proof (cases "r ! 0 \<in> {0, 1, 2, 5}")
    case True
    with fields have l8: "8 \<le> length r" by blast
    have "m (it + 3) = r ! 3" "m (it + 4) = r ! 4" using at [of 3] at [of 4] l8 by simp_all
    then show ?thesis
      unfolding acpi_record_def record_spec_def st Let_def and_3_zero
      by (simp add: b0 load32_record [OF assms(1) l8] arr_set_def unat_ucast_8_32)
  next
    case False
    then show ?thesis by (simp add: acpi_record_def record_spec_def st b0)
  qed
qed

text \<open>
  C40 On a MADT whose records are well formed and fill it to its end, the walk returns, and the processors,
  the controllers and the interrupt mappings it collects are those of the records in order; it leaves its
  arrays only if the table lists more than 64 usable processors or an interrupt line above 23.
\<close>

theorem acpi_records_decodes:
  assumes "bytes_at m it (concat rs)" and "list_all record_ok rs"
    and "unat it + length (concat rs) < 2 ^ 32"
  shows "acpi_records m it (it + of_nat (length (concat rs))) st = records_spec rs st"
  using assms
proof (induction rs arbitrary: it st)
  case Nil
  then show ?case by (subst acpi_records.simps) simp
next
  case (Cons r rs)
  let ?n = "length r + length (concat rs)"
  from Cons.prems have at: "bytes_at m it r" "bytes_at m (it + of_nat (length r)) (concat rs)" and ok: "record_ok r"
    by (simp_all add: bytes_at_append)
  have un: "unat (of_nat ?n :: u32) = ?n" "unat (of_nat (length r) :: u32) = length r"
    using Cons.prems(3) by (intro unat_of_nat_small; simp)+
  have "it < it + of_nat ?n"
  proof -
    have "0 < length r" using ok by (auto simp: record_ok_def)
    moreover have "unat (it + of_nat ?n) = unat it + ?n"
      using Cons.prems(3) by (subst unat_add_bounded) (simp_all only: un, simp)
    ultimately show ?thesis unfolding word_less_nat_alt by linarith
  qed
  moreover have step: "ucast (m (it + 1)) = (of_nat (length r) :: u32)"
  proof -
    have "m (it + 1) = of_nat (length r)" using bytes_at_nth [OF at(1), of 1] ok by (simp add: record_ok_def)
    moreover have "unat (of_nat (length r) :: u8) = length r" using ok by (simp add: record_ok_def unat_of_nat)
    ultimately show ?thesis using un(2) by (simp add: word_unat_eq_iff unat_ucast_8_32)
  qed
  moreover have "acpi_records m (it + of_nat (length r)) (it + of_nat (length r) + of_nat (length (concat rs))) =
      records_spec rs"
  proof (rule ext, rule Cons.IH [OF at(2)])
    show "list_all record_ok rs" using Cons.prems(2) by simp
    show "unat (it + of_nat (length r)) + length (concat rs) < 2 ^ 32"
      using Cons.prems(3) un(2) by (subst unat_add_bounded) simp_all
  qed
  ultimately show ?case
    by (subst acpi_records.simps) (simp add: acpi_record_spec [OF at(1) ok] add.assoc)
qed

text \<open>Two processors, one of them disabled, an I/O APIC and the usual override of the timer line.\<close>

definition sample_madt :: "u8 list list" where
  "sample_madt = [[0, 8, 0, 7, 1, 0, 0, 0], [0, 8, 1, 8, 0, 0, 0, 0], [1, 12, 0, 0, 0, 0, 0xC0, 0xFE, 0, 0, 0, 0],
     [2, 10, 0, 0, 2, 0, 0, 0, 0, 0]]"

theorem acpi_records_decodes_witness:
  "acpi_records (store_bytes (\<lambda>_. 0) 0x1000 (concat sample_madt)) 0x1000 0x1026 (0xFEE00000, 0, acpi_start) =
    Some (0xFEE00000, 0xFEC00000, acpi_start\<lparr>acpi_lapic_ids := (replicate 64 0)[0 := 7], acpi_cpu_count := 1,
      acpi_intr_mappings := (replicate 24 0)[2 := 0]\<rparr>)"
proof -
  let ?m = "store_bytes (\<lambda>_. 0) 0x1000 (concat sample_madt)"
  have l: "length (concat sample_madt) = 38" by (simp add: sample_madt_def)
  have "bytes_at ?m 0x1000 (concat sample_madt)"
    unfolding bytes_at_def by (rule load_store_bytes) (simp add: l)
  moreover have "list_all record_ok sample_madt" by (simp add: sample_madt_def record_ok_def)
  ultimately have "acpi_records ?m 0x1000 (0x1000 + of_nat (length (concat sample_madt))) (0xFEE00000, 0, acpi_start) =
      records_spec sample_madt (0xFEE00000, 0, acpi_start)"
    by (rule acpi_records_decodes) (simp add: l)
  also have "\<dots> = Some (0xFEE00000, 0xFEC00000, acpi_start\<lparr>acpi_lapic_ids := (replicate 64 0)[0 := 7], acpi_cpu_count := 1,
      acpi_intr_mappings := (replicate 24 0)[2 := 0]\<rparr>)"
    by (simp add: sample_madt_def record_spec_def le32_def load32_def load16_def acpi_start_def)
  finally show ?thesis by (simp add: l)
qed

end
