(* ===== verification/Ide.thy ===== *)
theory Ide
  imports Hw Drive
begin

text \<open>
  The IDE driver \<^verbatim>\<open>kernel/drivers/ide.c\<close>, and the copy of it in the boot loader, \<^verbatim>\<open>stage2/ide.c\<close>, which
  differs in the error handling and the width of the sector count.  Waiting for the drive polls its
  status register and may not return; so may a read of \<open>2\<^sup>3\<^sup>2\<close> sectors or more, whose loop counter wraps.
  The messages of \<^verbatim>\<open>ide_print_error\<close> are a list of strings.

  The lemmas state the part of the ATA protocol that the driver uses as a contract on the hardware, and
  show that the driver then reads the sectors it was asked for into memory.
\<close>

section \<open>Constants of \<^verbatim>\<open>kernel/drivers/ide.h\<close>\<close>

definition ATA_SR_BSY :: u8 where "ATA_SR_BSY = 0x80"
definition ATA_SR_DF :: u8 where "ATA_SR_DF = 0x20"
definition ATA_SR_DRQ :: u8 where "ATA_SR_DRQ = 0x08"
definition ATA_SR_ERR :: u8 where "ATA_SR_ERR = 0x01"
definition ATA_CMD_READ_PIO_EXT :: u8 where "ATA_CMD_READ_PIO_EXT = 0x24"
definition ATA_CMD_IDENTIFY_PACKET :: u8 where "ATA_CMD_IDENTIFY_PACKET = 0xA1"
definition ATA_CMD_IDENTIFY :: u8 where "ATA_CMD_IDENTIFY = 0xEC"
definition ATA_IDENT_DEVICETYPE :: nat where "ATA_IDENT_DEVICETYPE = 0"
definition ATA_IDENT_MODEL :: nat where "ATA_IDENT_MODEL = 54"
definition ATA_IDENT_CAPABILITIES :: nat where "ATA_IDENT_CAPABILITIES = 98"
definition ATA_IDENT_MAX_LBA :: nat where "ATA_IDENT_MAX_LBA = 120"
definition ATA_IDENT_COMMANDSETS :: nat where "ATA_IDENT_COMMANDSETS = 164"
definition ATA_IDENT_MAX_LBA_EXT :: nat where "ATA_IDENT_MAX_LBA_EXT = 200"
definition IDE_ATA :: u8 where "IDE_ATA = 0"
definition IDE_ATAPI :: u8 where "IDE_ATAPI = 1"
definition ATA_MASTER :: u8 where "ATA_MASTER = 0"
definition ATA_SLAVE :: u8 where "ATA_SLAVE = 1"
definition ATA_REG_DATA :: u16 where "ATA_REG_DATA = 0"
definition ATA_REG_ERROR :: u16 where "ATA_REG_ERROR = 1"
definition ATA_REG_SECCOUNT :: u16 where "ATA_REG_SECCOUNT = 2"
definition ATA_REG_LBA0 :: u16 where "ATA_REG_LBA0 = 3"
definition ATA_REG_LBA1 :: u16 where "ATA_REG_LBA1 = 4"
definition ATA_REG_LBA2 :: u16 where "ATA_REG_LBA2 = 5"
definition ATA_REG_DEVSEL :: u16 where "ATA_REG_DEVSEL = 6"
definition ATA_REG_STATUS :: u16 where "ATA_REG_STATUS = 7"
definition ATA_REG_COMMAND :: u16 where "ATA_REG_COMMAND = 7"
definition ATA_REG_DEVCTRL :: u16 where "ATA_REG_DEVCTRL = 0"
definition ATA_PRIMARY :: u8 where "ATA_PRIMARY = 0"
definition ATA_SECONDARY :: u8 where "ATA_SECONDARY = 1"

lemmas ata_regs = ATA_REG_DATA_def ATA_REG_ERROR_def ATA_REG_SECCOUNT_def ATA_REG_LBA0_def ATA_REG_LBA1_def
  ATA_REG_LBA2_def ATA_REG_DEVSEL_def ATA_REG_STATUS_def ATA_REG_COMMAND_def ATA_REG_DEVCTRL_def
lemmas ata_bits = ATA_SR_BSY_def ATA_SR_DF_def ATA_SR_DRQ_def ATA_SR_ERR_def

section \<open>Definitions\<close>

record ide_drive_t =
  drv_channel :: u8
  drv_bus :: u8
  drv_type :: u8
  drv_name :: "u8 list"
  drv_signature :: u16
  drv_capabilities :: u16
  drv_cmd_sets :: u32
  drv_size :: u32

record ide_channel_t =
  base_port :: u16
  ctrl_port :: u16
  bmide_port :: u16

record ide_t =
  ide_drives :: "ide_drive_t list"
  ide_drive_count :: u32
  ide_channels :: "ide_channel_t list"

definition ide_wait_bsy :: "'w bus \<Rightarrow> u16 \<Rightarrow> 'w \<Rightarrow> 'w option" where
  "ide_wait_bsy b port w = do { (_, w) \<leftarrow> poll_until b port (\<lambda>v. v AND ATA_SR_BSY = 0) w; Some w }"

definition ide_await_drq :: "'w bus \<Rightarrow> u16 \<Rightarrow> 'w \<Rightarrow> 'w option" where
  "ide_await_drq b port w = do { (_, w) \<leftarrow> poll_until b port (\<lambda>v. v AND ATA_SR_DRQ \<noteq> 0) w; Some w }"

definition ide_delay :: "'w bus \<Rightarrow> u16 \<Rightarrow> 'w \<Rightarrow> 'w" where
  "ide_delay b port w = after_reads b port 4 w"

text \<open>\<open>n\<close> words of the data port, as the bytes they leave in memory.\<close>

fun ide_read_words :: "'w bus \<Rightarrow> u16 \<Rightarrow> nat \<Rightarrow> 'w \<Rightarrow> u8 list \<times> 'w" where
  "ide_read_words b port 0 w = ([], w)"
| "ide_read_words b port (Suc n) w =
     (let (v, w) = inw b port w; (bs, w) = ide_read_words b port n w
      in (ucast v # ucast (drop_bit 8 v) # bs, w))"

definition buf16 :: "u8 list \<Rightarrow> nat \<Rightarrow> u16" where
  "buf16 buf off = load16 (\<lambda>a. buf ! unat a) (of_nat off)"

definition buf32 :: "u8 list \<Rightarrow> nat \<Rightarrow> u32" where
  "buf32 buf off = load32 (\<lambda>a. buf ! unat a) (of_nat off)"

text \<open>The model name has the bytes of each word swapped; then trailing blanks are cut.\<close>

fun ide_copy_name :: "u8 list \<Rightarrow> nat \<Rightarrow> nat \<Rightarrow> u8 list \<Rightarrow> u8 list" where
  "ide_copy_name buf i 0 name = name"
| "ide_copy_name buf i (Suc n) name =
     ide_copy_name buf (i + 2) n
       (name[i := buf ! (ATA_IDENT_MODEL + i + 1), i + 1 := buf ! (ATA_IDENT_MODEL + i)])"

fun ide_trim_name :: "nat \<Rightarrow> u8 list \<Rightarrow> u8 list" where
  "ide_trim_name 0 name = name"
| "ide_trim_name (Suc i) name =
     (if name ! Suc i \<noteq> 32 then name[Suc i + 1 := 0] else ide_trim_name i name)"

definition ide_add_drive :: "u8 \<Rightarrow> u8 \<Rightarrow> u8 \<Rightarrow> u8 list \<Rightarrow> ide_t \<Rightarrow> ide_t option" where
  "ide_add_drive channel bus type id_buf s =
     do { drive \<leftarrow> arr_get (ide_drives s) (ide_drive_count s);
          let cmd_sets = buf32 id_buf ATA_IDENT_COMMANDSETS;
          let drive = drive\<lparr>drv_type := type, drv_channel := channel, drv_bus := bus,
            drv_signature := buf16 id_buf ATA_IDENT_DEVICETYPE,
            drv_capabilities := buf16 id_buf ATA_IDENT_CAPABILITIES,
            drv_cmd_sets := cmd_sets,
            drv_size := (if cmd_sets AND push_bit 26 1 \<noteq> 0 then buf32 id_buf ATA_IDENT_MAX_LBA_EXT
              else buf32 id_buf ATA_IDENT_MAX_LBA),
            drv_name := ide_trim_name 39 (ide_copy_name id_buf 0 20 (drv_name drive))\<rparr>;
          drives \<leftarrow> arr_set (ide_drives s) (ide_drive_count s) drive;
          Some (s\<lparr>ide_drives := drives, ide_drive_count := ide_drive_count s + 1\<rparr>) }"

text \<open>Poll until the error or the data request bit sets; the flag is the data request.\<close>

partial_function (option) ide_poll_ident :: "'w bus \<Rightarrow> u16 \<Rightarrow> 'w \<Rightarrow> (bool \<times> 'w) option" where
  "ide_poll_ident b port w =
     (let (status, w) = inb b port w
      in if status AND ATA_SR_ERR \<noteq> 0 then Some (False, w)
         else if status AND ATA_SR_DRQ \<noteq> 0 then Some (True, w)
         else ide_poll_ident b port w)"

definition ide_found :: "'w bus \<Rightarrow> u16 \<Rightarrow> u8 \<Rightarrow> u8 \<Rightarrow> u8 \<Rightarrow> ide_t \<Rightarrow> 'w \<Rightarrow> (ide_t \<times> 'w) option" where
  "ide_found b base channel bus type s w =
     (let (id_buf, w) = ide_read_words b (base + ATA_REG_DATA) 256 w
      in do { s \<leftarrow> ide_add_drive channel bus type id_buf s; Some (s, w) })"

definition ide_check_and_add_drive :: "'w bus \<Rightarrow> u8 \<Rightarrow> u8 \<Rightarrow> ide_t \<Rightarrow> 'w \<Rightarrow> (ide_t \<times> 'w) option" where
  "ide_check_and_add_drive b channel bus s w =
     do { ch \<leftarrow> arr_get (ide_channels s) (ucast channel);
          let base = base_port ch;
          let ctrl = ctrl_port ch;
          let w = ide_delay b ctrl (outb b (base + ATA_REG_DEVSEL) (0xA0 OR push_bit 4 bus) w);
          let w = outbs b [(base + ATA_REG_LBA0, 0), (base + ATA_REG_LBA1, 0), (base + ATA_REG_LBA2, 0),
            (base + ATA_REG_COMMAND, ATA_CMD_IDENTIFY)] w;
          let w = ide_delay b ctrl w;
          let (status, w) = inb b (base + ATA_REG_STATUS) w;
          if status = 0 then Some (s, w)
          else do {
            w \<leftarrow> ide_wait_bsy b (base + ATA_REG_STATUS) w;
            let (lba1, w) = inb b (base + ATA_REG_LBA1) w;
            let (lba2, w) = inb b (base + ATA_REG_LBA2) w;
            if lba1 = 0x14 \<and> lba2 = 0xEB \<or> lba1 = 0x69 \<and> lba2 = 0x96 then
              do { let w = ide_delay b ctrl (outb b (base + ATA_REG_COMMAND) ATA_CMD_IDENTIFY_PACKET w);
                   w \<leftarrow> ide_await_drq b (base + ATA_REG_STATUS) w;
                   ide_found b base channel bus IDE_ATAPI s w }
            else if lba1 \<noteq> 0 \<or> lba2 \<noteq> 0 then Some (s, w)
            else do {
              (found, w) \<leftarrow> ide_poll_ident b (base + ATA_REG_STATUS) w;
              if found then ide_found b base channel bus IDE_ATA s w else Some (s, w) } } }"

definition ide_print_error :: "u8 \<Rightarrow> string list" where
  "ide_print_error err =
     ''ATA Error:'' # (if err AND 0x80 \<noteq> 0 then [''- Bad block''] else [])
       @ (if err AND 0x40 \<noteq> 0 then [''- Uncorrectable data''] else [])
       @ (if err AND 0x20 \<noteq> 0 then [''- Media changed''] else [])
       @ (if err AND 0x10 \<noteq> 0 then [''- ID mark not found''] else [])
       @ (if err AND 0x08 \<noteq> 0 then [''- Media change request''] else [])
       @ (if err AND 0x04 \<noteq> 0 then [''- Command aborted''] else [])
       @ (if err AND 0x02 \<noteq> 0 then [''- Track 0 not found''] else [])
       @ (if err AND 0x01 \<noteq> 0 then [''- No address mark''] else [])"

definition ide_bar :: "u32 \<Rightarrow> u32 \<Rightarrow> u32" where
  "ide_bar bar std = (if bar = 0 \<or> bar = 1 then std else bar)"

definition ide_initialize ::
    "'w bus \<Rightarrow> u32 \<Rightarrow> u32 \<Rightarrow> u32 \<Rightarrow> u32 \<Rightarrow> u32 \<Rightarrow> ide_t \<Rightarrow> 'w \<Rightarrow> (u32 \<times> ide_t \<times> 'w) option" where
  "ide_initialize b bar0 bar1 bar2 bar3 bar4 s w =
     do { let bar0 = ide_bar bar0 0x1F0;
          let bar1 = ide_bar bar1 0x3F6;
          let bar2 = ide_bar bar2 0x170;
          let bar3 = ide_bar bar3 0x376;
          let s = s\<lparr>ide_channels :=
            [\<lparr>base_port = ucast bar0, ctrl_port = ucast bar1, bmide_port = ucast bar4\<rparr>,
             \<lparr>base_port = ucast bar2, ctrl_port = ucast bar3, bmide_port = ucast (bar4 + 8)\<rparr>]\<rparr>;
          let w = outbs b [(ucast bar1 + ATA_REG_DEVCTRL, 2), (ucast bar3 + ATA_REG_DEVCTRL, 2)] w;
          (s, w) \<leftarrow> ide_check_and_add_drive b ATA_PRIMARY ATA_MASTER s w;
          (s, w) \<leftarrow> ide_check_and_add_drive b ATA_PRIMARY ATA_SLAVE s w;
          (s, w) \<leftarrow> ide_check_and_add_drive b ATA_SECONDARY ATA_MASTER s w;
          (s, w) \<leftarrow> ide_check_and_add_drive b ATA_SECONDARY ATA_SLAVE s w;
          Some (ide_drive_count s, s, w) }"

definition ide_read_sector :: "'w bus \<Rightarrow> u16 \<Rightarrow> addr \<times> mem \<times> 'w \<Rightarrow> (addr \<times> mem \<times> 'w) option" where
  "ide_read_sector b base = (\<lambda>(it, m, w).
     do { w \<leftarrow> ide_wait_bsy b (base + ATA_REG_STATUS) w;
          w \<leftarrow> ide_await_drq b (base + ATA_REG_STATUS) w;
          for_range 0 256 (\<lambda>j (it, m, w).
            let (v, w) = inw b (base + ATA_REG_DATA) w in Some (it + 2, store16 m it v, w)) (it, m, w) })"

partial_function (option) ide_read_sectors ::
    "'w bus \<Rightarrow> u16 \<Rightarrow> u32 \<Rightarrow> u64 \<Rightarrow> addr \<times> mem \<times> 'w \<Rightarrow> (addr \<times> mem \<times> 'w) option" where
  "ide_read_sectors b base i sector_count st =
     (if (ucast i :: u64) < sector_count then
        do { st \<leftarrow> ide_read_sector b base st; ide_read_sectors b base (i + 1) sector_count st }
      else Some st)"

text \<open>Selecting the drive and issuing the extended read.\<close>

definition ide_command :: "'w bus \<Rightarrow> u16 \<Rightarrow> u16 \<Rightarrow> u8 \<Rightarrow> u64 \<Rightarrow> u64 \<Rightarrow> 'w \<Rightarrow> 'w option" where
  "ide_command b base ctrl bus lba sector_count w =
     do { w \<leftarrow> ide_wait_bsy b (base + ATA_REG_STATUS) w;
          let w = ide_delay b ctrl (outb b (base + ATA_REG_DEVSEL) (0x40 OR push_bit 4 bus) w);
          let w = outbs b [(base + ATA_REG_SECCOUNT, ucast (drop_bit 8 sector_count)),
            (base + ATA_REG_LBA0, ucast (drop_bit 24 lba)), (base + ATA_REG_LBA1, ucast (drop_bit 32 lba)),
            (base + ATA_REG_LBA2, ucast (drop_bit 40 lba)),
            (base + ATA_REG_SECCOUNT, ucast sector_count),
            (base + ATA_REG_LBA0, ucast lba), (base + ATA_REG_LBA1, ucast (drop_bit 8 lba)),
            (base + ATA_REG_LBA2, ucast (drop_bit 16 lba)),
            (base + ATA_REG_COMMAND, ATA_CMD_READ_PIO_EXT)] w;
          ide_wait_bsy b (base + ATA_REG_STATUS) (ide_delay b ctrl w) }"

definition ide_read_drive ::
    "'w bus \<Rightarrow> ide_t \<Rightarrow> ide_drive_t \<Rightarrow> u64 \<Rightarrow> u64 \<Rightarrow> addr \<Rightarrow> mem \<times> 'w \<Rightarrow> (err_t \<times> mem \<times> 'w) option" where
  "ide_read_drive b s drive lba sector_count dst = (\<lambda>(m, w).
     do { ch \<leftarrow> arr_get (ide_channels s) (ucast (drv_channel drive));
          let base = base_port ch;
          w \<leftarrow> ide_command b base (ctrl_port ch) (drv_bus drive) lba sector_count w;
          let (status, w) = inb b (base + ATA_REG_STATUS) w;
          if status AND ATA_SR_ERR \<noteq> 0 then
            let (_, w) = inb b (base + ATA_REG_ERROR) w in Some (ERR_UNKNHRDW, m, w)
          else if status AND ATA_SR_DF \<noteq> 0 then Some (ERR_UNKNHRDW, m, w)
          else do {
            (_, m, w) \<leftarrow> ide_read_sectors b base 0 sector_count (dst, m, w);
            w \<leftarrow> ide_wait_bsy b (base + ATA_REG_STATUS) w;
            Some (OK, m, w) } })"

text \<open>
  The copy in \<^verbatim>\<open>stage2/ide.c\<close>: no result, a 16-bit sector count, and a drive fault is only reported.
\<close>

definition stage2_ide_read_drive ::
    "'w bus \<Rightarrow> ide_t \<Rightarrow> ide_drive_t \<Rightarrow> addr \<Rightarrow> u64 \<Rightarrow> u16 \<Rightarrow> mem \<times> 'w \<Rightarrow> (mem \<times> 'w) option" where
  "stage2_ide_read_drive b s drive dst lba sector_count = (\<lambda>(m, w).
     do { ch \<leftarrow> arr_get (ide_channels s) (ucast (drv_channel drive));
          let base = base_port ch;
          w \<leftarrow> ide_command b base (ctrl_port ch) (drv_bus drive) lba (ucast sector_count) w;
          let (status, w) = inb b (base + ATA_REG_STATUS) w;
          if status AND ATA_SR_ERR \<noteq> 0 then
            let (_, w) = inb b (base + ATA_REG_ERROR) w in Some (m, w)
          else do {
            (_, m, w) \<leftarrow> ide_read_sectors b base 0 (ucast sector_count) (dst, m, w);
            w \<leftarrow> ide_wait_bsy b (base + ATA_REG_STATUS) w;
            Some (m, w) } })"

section \<open>Words of the data port\<close>

lemma store16_pair: "store16 m a (ucast lo OR push_bit 8 (ucast hi)) = store_bytes m a [lo, hi]"
proof -
  have "ucast (ucast lo OR push_bit 8 (ucast hi) :: u16) = lo" by (rule bit_word_eqI) (auto simp: bit_simps)
  moreover have "ucast (drop_bit 8 (ucast lo OR push_bit 8 (ucast hi) :: u16)) = hi"
    by (rule bit_word_eqI) (auto simp: bit_simps dest: bit_imp_le_length)
  ultimately show ?thesis by (simp add: store16_def)
qed

text \<open>The bytes written to the registers determine the address and the count.\<close>

lemma next_byte:
  fixes v :: u64
  shows "take_bit k v OR push_bit k (ucast (ucast (drop_bit k v) :: u8)) = take_bit (k + 8) v"
  by (rule bit_word_eqI) (auto simp: bit_simps)

lemma lba48:
  fixes lba :: u64
  assumes "unat lba < 2 ^ 48"
  shows "ucast (ucast lba :: u8) OR push_bit 8 (ucast (ucast (drop_bit 8 lba) :: u8)) OR
    push_bit 16 (ucast (ucast (drop_bit 16 lba) :: u8)) OR push_bit 24 (ucast (ucast (drop_bit 24 lba) :: u8)) OR
    push_bit 32 (ucast (ucast (drop_bit 32 lba) :: u8)) OR push_bit 40 (ucast (ucast (drop_bit 40 lba) :: u8)) = lba"
proof -
  have "ucast (ucast lba :: u8) = take_bit 8 lba" by (rule bit_word_eqI) (auto simp: bit_simps)
  moreover have "take_bit 48 lba = lba" using assms by (simp add: word_unat_eq_iff unat_take_bit)
  ultimately show ?thesis
    using next_byte [of 8 lba] next_byte [of 16 lba] next_byte [of 24 lba] next_byte [of 32 lba] next_byte [of 40 lba]
    by (simp add: or.assoc [symmetric])
qed

lemma count16:
  fixes cnt :: u64
  assumes "unat cnt < 65536"
  shows "256 * unat (ucast (drop_bit 8 cnt) :: u8) + unat (ucast cnt :: u8) = unat cnt"
proof -
  have "unat (ucast (drop_bit 8 cnt) :: u8) = unat cnt div 256"
    using assms by (simp add: unsigned_ucast_eq unat_drop_bit take_bit_nat_eq_self)
  moreover have "unat (ucast cnt :: u8) = unat cnt mod 256"
    by (simp add: unsigned_ucast_eq take_bit_eq_mod)
  ultimately show ?thesis by simp
qed

lemma unat_ucast_up: "unat (ucast (i :: u32) :: u64) = unat i"
proof -
  have "unat i < 2 ^ 64" by (rule less_trans [OF unsigned_less]) simp
  then show ?thesis by (simp add: unsigned_ucast_eq take_bit_nat_eq_self)
qed

lemma unat_ucast_16_64: "unat (ucast (i :: u16) :: u64) = unat i"
proof -
  have "unat i < 2 ^ 64" by (rule less_trans [OF unsigned_less]) simp
  then show ?thesis by (simp add: unsigned_ucast_eq take_bit_nat_eq_self)
qed

section \<open>The ATA protocol\<close>

text \<open>
  What a drive shows of its state: the device register, the count and address registers, each of which
  remembers the byte written before the last one, and the data it has yet to hand out.
\<close>

record ata_dev =
  ata_sel :: u8
  ata_count :: "u8 \<times> u8"
  ata_lba0 :: "u8 \<times> u8"
  ata_lba1 :: "u8 \<times> u8"
  ata_lba2 :: "u8 \<times> u8"
  ata_data :: "u8 list"

definition ata_address :: "ata_dev \<Rightarrow> u64" where
  "ata_address d = ucast (fst (ata_lba0 d)) OR push_bit 8 (ucast (fst (ata_lba1 d))) OR
     push_bit 16 (ucast (fst (ata_lba2 d))) OR push_bit 24 (ucast (snd (ata_lba0 d))) OR
     push_bit 32 (ucast (snd (ata_lba1 d))) OR push_bit 40 (ucast (snd (ata_lba2 d)))"

definition ata_sectors :: "ata_dev \<Rightarrow> nat" where
  "ata_sectors d = (let n = 256 * unat (snd (ata_count d)) + unat (fst (ata_count d)) in if n = 0 then 65536 else n)"

text \<open>
  A drive without faults on the bus position \<open>bus\<close> of a channel: reading the status changes nothing and
  sooner or later finds the drive idle, then asking for a transfer as long as it has data; the extended
  read command makes the addressed sectors available, and the data port hands them out word by word.
\<close>

locale ata_drive =
  fixes b :: "'w bus" and base ctrl :: u16 and bus :: u8 and dev :: "'w \<Rightarrow> ata_dev" and disk :: "u8 list"
  assumes status_keeps: "dev (snd (inb b (base + ATA_REG_STATUS) w)) = dev w"
    and ctrl_keeps: "dev (snd (inb b ctrl w)) = dev w"
    and no_fault: "fst (inb b (base + ATA_REG_STATUS) w) AND (ATA_SR_ERR OR ATA_SR_DF) = 0"
    and becomes_idle: "\<exists>k. fst (inb b (base + ATA_REG_STATUS) (after_reads b (base + ATA_REG_STATUS) k w)) AND ATA_SR_BSY = 0"
    and data_request: "fst (inb b (base + ATA_REG_STATUS) w) AND ATA_SR_BSY = 0 \<Longrightarrow>
      fst (inb b (base + ATA_REG_STATUS) w) AND ATA_SR_DRQ \<noteq> 0 \<longleftrightarrow> ata_data (dev w) \<noteq> []"
    and out_sel: "dev (outb b (base + ATA_REG_DEVSEL) v w) = (dev w)\<lparr>ata_sel := v\<rparr>"
    and out_count: "dev (outb b (base + ATA_REG_SECCOUNT) v w) = (dev w)\<lparr>ata_count := (v, fst (ata_count (dev w)))\<rparr>"
    and out_lba0: "dev (outb b (base + ATA_REG_LBA0) v w) = (dev w)\<lparr>ata_lba0 := (v, fst (ata_lba0 (dev w)))\<rparr>"
    and out_lba1: "dev (outb b (base + ATA_REG_LBA1) v w) = (dev w)\<lparr>ata_lba1 := (v, fst (ata_lba1 (dev w)))\<rparr>"
    and out_lba2: "dev (outb b (base + ATA_REG_LBA2) v w) = (dev w)\<lparr>ata_lba2 := (v, fst (ata_lba2 (dev w)))\<rparr>"
    and out_read: "ata_sel (dev w) = 0x40 OR push_bit 4 bus \<Longrightarrow> ata_data (dev w) = [] \<Longrightarrow>
      (unat (ata_address (dev w)) + ata_sectors (dev w)) * 512 \<le> length disk \<Longrightarrow>
      dev (outb b (base + ATA_REG_COMMAND) ATA_CMD_READ_PIO_EXT w) =
        (dev w)\<lparr>ata_data := take (ata_sectors (dev w) * 512) (drop (unat (ata_address (dev w)) * 512) disk)\<rparr>"
    and in_data: "ata_data (dev w) = lo # hi # rest \<Longrightarrow>
      fst (inw b (base + ATA_REG_DATA) w) = ucast lo OR push_bit 8 (ucast hi) \<and>
      dev (snd (inw b (base + ATA_REG_DATA) w)) = (dev w)\<lparr>ata_data := rest\<rparr>"
begin

lemma polls:
  assumes "\<exists>k. ok (fst (inb b (base + ATA_REG_STATUS) (after_reads b (base + ATA_REG_STATUS) k w)))"
  shows "\<exists>v w'. poll_until b (base + ATA_REG_STATUS) ok w = Some (v, w') \<and> dev w' = dev w"
proof -
  from assms poll_until_terminates [of ok b "base + ATA_REG_STATUS" _ w] obtain k where
    "poll_until b (base + ATA_REG_STATUS) ok w =
      Some (inb b (base + ATA_REG_STATUS) (after_reads b (base + ATA_REG_STATUS) k w))" by blast
  moreover have "dev (snd (inb b (base + ATA_REG_STATUS) (after_reads b (base + ATA_REG_STATUS) k w))) = dev w"
    using after_reads_keeps [of dev b "base + ATA_REG_STATUS" k w] by (simp add: status_keeps)
  ultimately show ?thesis by (metis prod.collapse)
qed

lemma wait_bsy: "\<exists>w'. ide_wait_bsy b (base + ATA_REG_STATUS) w = Some w' \<and> dev w' = dev w"
  using polls [of "\<lambda>v. v AND ATA_SR_BSY = 0" w] becomes_idle [of w] by (auto simp: ide_wait_bsy_def)

lemma await_drq:
  assumes "ata_data (dev w) \<noteq> []"
  shows "\<exists>w'. ide_await_drq b (base + ATA_REG_STATUS) w = Some w' \<and> dev w' = dev w"
proof -
  from becomes_idle [of w] obtain k where
    k: "fst (inb b (base + ATA_REG_STATUS) (after_reads b (base + ATA_REG_STATUS) k w)) AND ATA_SR_BSY = 0" ..
  have "dev (after_reads b (base + ATA_REG_STATUS) k w) = dev w" by (rule after_reads_keeps) (rule status_keeps)
  with data_request [OF k] assms
  have "fst (inb b (base + ATA_REG_STATUS) (after_reads b (base + ATA_REG_STATUS) k w)) AND ATA_SR_DRQ \<noteq> 0" by simp
  then have "\<exists>k. fst (inb b (base + ATA_REG_STATUS) (after_reads b (base + ATA_REG_STATUS) k w)) AND ATA_SR_DRQ \<noteq> 0" ..
  from polls [of "\<lambda>v. v AND ATA_SR_DRQ \<noteq> 0", OF this] show ?thesis by (auto simp: ide_await_drq_def)
qed

lemma delay: "dev (ide_delay b ctrl w) = dev w"
  unfolding ide_delay_def by (rule after_reads_keeps) (rule ctrl_keeps)

lemma sector_words:
  assumes "ata_data (dev w) = xs @ rest" and "length xs = 512"
  shows "\<exists>w'. for_range 0 256 (\<lambda>j (it, m, w).
      let (v, w) = inw b (base + ATA_REG_DATA) w in Some (it + 2, store16 m it v, w)) (it, m, w) =
    Some (it + 512, store_bytes m it xs, w') \<and> dev w' = (dev w)\<lparr>ata_data := rest\<rparr>"
proof -
  let ?body = "\<lambda>j (it, m, w). let (v, w) = inw b (base + ATA_REG_DATA) w in Some (it + 2, store16 m it v, w)"
  define P where "P = (\<lambda>(i :: usz) (it', m', w'). it' = it + 2 * i \<and> m' = store_bytes m it (take (2 * unat i) xs) \<and>
    dev w' = (dev w)\<lparr>ata_data := drop (2 * unat i) xs @ rest\<rparr>)"
  have "\<exists>st. for_range 0 256 ?body (it, m, w) = Some st \<and> P 256 st"
  proof (rule for_range_rule [where P = P])
    show "P 0 (it, m, w)" using assms(1) by (simp add: P_def)
    fix i :: usz and st assume i: "i < 256" and "P i st"
    then obtain w' where st: "st = (it + 2 * i, store_bytes m it (take (2 * unat i) xs), w')"
      and d: "dev w' = (dev w)\<lparr>ata_data := drop (2 * unat i) xs @ rest\<rparr>" by (auto simp: P_def)
    let ?k = "unat i" and ?lo = "xs ! (2 * unat i)" and ?hi = "xs ! Suc (2 * unat i)"
    have k: "Suc (2 * ?k) < length xs" using i assms(2) by (simp add: word_less_nat_alt)
    have pair: "drop (2 * ?k) xs = ?lo # ?hi # drop (2 * ?k + 2) xs"
      using k by (simp add: Cons_nth_drop_Suc Suc_lessD)
    have front: "take (2 * Suc ?k) xs = take (2 * ?k) xs @ [?lo, ?hi]"
      using k by (simp add: take_Suc_conv_app_nth Suc_lessD)
    from in_data [of w' ?lo ?hi "drop (2 * ?k + 2) xs @ rest"] d pair
    have r: "fst (inw b (base + ATA_REG_DATA) w') = ucast ?lo OR push_bit 8 (ucast ?hi)"
      "dev (snd (inw b (base + ATA_REG_DATA) w')) = (dev w)\<lparr>ata_data := drop (2 * Suc ?k) xs @ rest\<rparr>"
      by simp_all
    have "store16 (store_bytes m it (take (2 * ?k) xs)) (it + 2 * i) (ucast ?lo OR push_bit 8 (ucast ?hi)) =
        store_bytes m it (take (2 * Suc ?k) xs)"
      unfolding front store_bytes_append using k by (simp add: store16_pair)
    then show "\<exists>st'. ?body i st = Some st' \<and> P (i + 1) st'"
      using r unat_succ_less [OF i] by (auto simp: st P_def case_prod_beta algebra_simps)
  qed simp
  then show ?thesis using assms(2) by (auto simp: P_def)
qed

lemma read_sector:
  assumes "ata_data (dev w) = xs @ rest" and "length xs = 512"
  shows "\<exists>w'. ide_read_sector b base (it, m, w) = Some (it + 512, store_bytes m it xs, w') \<and>
    dev w' = (dev w)\<lparr>ata_data := rest\<rparr>"
proof -
  obtain w1 where w1: "ide_wait_bsy b (base + ATA_REG_STATUS) w = Some w1" "dev w1 = dev w" using wait_bsy by blast
  moreover have "ata_data (dev w1) \<noteq> []" using assms w1(2) by auto
  then obtain w2 where w2: "ide_await_drq b (base + ATA_REG_STATUS) w1 = Some w2" "dev w2 = dev w1"
    using await_drq by blast
  moreover from sector_words [of w2 xs rest it m] assms w1(2) w2(2) obtain w3 where
    "for_range 0 256 (\<lambda>j (it, m, w).
      let (v, w) = inw b (base + ATA_REG_DATA) w in Some (it + 2, store16 m it v, w)) (it, m, w2) =
    Some (it + 512, store_bytes m it xs, w3)" "dev w3 = (dev w)\<lparr>ata_data := rest\<rparr>" by auto
  ultimately show ?thesis unfolding ide_read_sector_def by auto
qed

lemma read_sectors:
  assumes "unat i + n = unat cnt" and "unat cnt < 2 ^ 32" and "length (ata_data (dev w)) = n * 512"
  shows "\<exists>it' w'. ide_read_sectors b base i cnt (it, m, w) = Some (it', store_bytes m it (ata_data (dev w)), w') \<and>
    dev w' = (dev w)\<lparr>ata_data := []\<rparr>"
  using assms
proof (induction n arbitrary: i it m w)
  case 0
  then have "\<not> (ucast i :: u64) < cnt" by (simp add: word_less_nat_alt unat_ucast_up)
  with 0 show ?case by (subst ide_read_sectors.simps) simp
next
  case (Suc n)
  let ?xs = "take 512 (ata_data (dev w))" and ?rest = "drop 512 (ata_data (dev w))"
  have lt: "(ucast i :: u64) < cnt" using Suc.prems(1) by (simp add: word_less_nat_alt unat_ucast_up)
  have lx: "length ?xs = 512" using Suc.prems(3) by simp
  from read_sector [of w ?xs ?rest it m] lx obtain w1 where
    w1: "ide_read_sector b base (it, m, w) = Some (it + 512, store_bytes m it ?xs, w1)"
      "dev w1 = (dev w)\<lparr>ata_data := ?rest\<rparr>" by auto
  have "unat (i + 1) = Suc (unat i)" using Suc.prems(1,2) by (simp add: unat_word_ariths)
  then have "unat (i + 1) + n = unat cnt" using Suc.prems(1) by simp
  from Suc.IH [OF this Suc.prems(2), of w1 "it + 512" "store_bytes m it ?xs"] w1(2) Suc.prems(3) obtain it' w' where
    "ide_read_sectors b base (i + 1) cnt (it + 512, store_bytes m it ?xs, w1) =
      Some (it', store_bytes (store_bytes m it ?xs) (it + 512) ?rest, w')" "dev w' = (dev w)\<lparr>ata_data := []\<rparr>" by auto
  moreover have "store_bytes (store_bytes m it ?xs) (it + 512) ?rest = store_bytes m it (ata_data (dev w))"
    using store_bytes_append [of m it ?xs ?rest] lx by simp
  ultimately show ?case using lt w1(1) by (subst ide_read_sectors.simps) simp
qed

lemma command:
  assumes "ata_data (dev w) = []" and "unat lba < 2 ^ 48" and "0 < unat cnt" and "unat cnt < 65536"
    and "(unat lba + unat cnt) * 512 \<le> length disk"
  shows "\<exists>w'. ide_command b base ctrl bus lba cnt w = Some w' \<and>
    ata_data (dev w') = take (unat cnt * 512) (drop (unat lba * 512) disk)"
proof -
  obtain w1 where w1: "ide_wait_bsy b (base + ATA_REG_STATUS) w = Some w1" "dev w1 = dev w" using wait_bsy by blast
  define w2 where "w2 = outbs b [(base + ATA_REG_SECCOUNT, ucast (drop_bit 8 cnt)),
      (base + ATA_REG_LBA0, ucast (drop_bit 24 lba)), (base + ATA_REG_LBA1, ucast (drop_bit 32 lba)),
      (base + ATA_REG_LBA2, ucast (drop_bit 40 lba)), (base + ATA_REG_SECCOUNT, ucast cnt),
      (base + ATA_REG_LBA0, ucast lba), (base + ATA_REG_LBA1, ucast (drop_bit 8 lba)),
      (base + ATA_REG_LBA2, ucast (drop_bit 16 lba))]
    (ide_delay b ctrl (outb b (base + ATA_REG_DEVSEL) (0x40 OR push_bit 4 bus) w1))"
  have d: "ata_sel (dev w2) = 0x40 OR push_bit 4 bus" "ata_data (dev w2) = []"
    "ata_count (dev w2) = (ucast cnt, ucast (drop_bit 8 cnt))"
    "ata_lba0 (dev w2) = (ucast lba, ucast (drop_bit 24 lba))"
    "ata_lba1 (dev w2) = (ucast (drop_bit 8 lba), ucast (drop_bit 32 lba))"
    "ata_lba2 (dev w2) = (ucast (drop_bit 16 lba), ucast (drop_bit 40 lba))"
    using assms(1) w1(2) by (simp_all add: w2_def out_sel out_count out_lba0 out_lba1 out_lba2 delay)
  have addr: "ata_address (dev w2) = lba" unfolding ata_address_def d fst_conv snd_conv by (rule lba48) fact
  have n: "ata_sectors (dev w2) = unat cnt" unfolding ata_sectors_def d fst_conv snd_conv count16 [OF assms(4)]
    using assms(3) by simp
  let ?w3 = "ide_delay b ctrl (outb b (base + ATA_REG_COMMAND) ATA_CMD_READ_PIO_EXT w2)"
  have "ata_data (dev ?w3) = take (unat cnt * 512) (drop (unat lba * 512) disk)"
    using out_read [OF d(1,2)] assms(5) by (simp add: delay addr n)
  moreover obtain w4 where "ide_wait_bsy b (base + ATA_REG_STATUS) ?w3 = Some w4" "dev w4 = dev ?w3" using wait_bsy by blast
  moreover have "ide_command b base ctrl bus lba cnt w = ide_wait_bsy b (base + ATA_REG_STATUS) ?w3"
    by (simp add: ide_command_def w1(1) w2_def)
  ultimately show ?thesis by auto
qed

end

section \<open>The driver as a drive\<close>

text \<open>A drive of the driver's tables, on the channel and bus position of an ATA drive.\<close>

locale ide_disk = ata_drive b base ctrl bus dev disk
  for b :: "'w bus" and base ctrl :: u16 and bus :: u8 and dev :: "'w \<Rightarrow> ata_dev" and disk :: "u8 list" +
  fixes s :: ide_t and drive :: ide_drive_t
  assumes on_channel: "\<exists>ch. arr_get (ide_channels s) (ucast (drv_channel drive)) = Some ch \<and>
      base_port ch = base \<and> ctrl_port ch = ctrl"
    and on_bus: "drv_bus drive = bus"
    and addressable: "length disk \<le> 512 * 2 ^ 48"
begin

lemma read_drive:
  assumes "ata_data (dev w) = []" and "0 < unat cnt" and "unat cnt < 65536"
    and "(unat lba + unat cnt) * 512 \<le> length disk"
  shows "\<exists>w'. ide_read_drive b s drive lba cnt dst (m, w) =
      Some (OK, store_bytes m dst (take (unat cnt * 512) (drop (unat lba * 512) disk)), w') \<and> ata_data (dev w') = []"
proof -
  let ?data = "take (unat cnt * 512) (drop (unat lba * 512) disk)"
  have "unat lba < 2 ^ 48" using assms(2,4) addressable by simp
  from command [OF assms(1) this assms(2-4)] obtain w1 where
    w1: "ide_command b base ctrl bus lba cnt w = Some w1" "ata_data (dev w1) = ?data" by blast
  let ?status = "fst (inb b (base + ATA_REG_STATUS) w1)" and ?w2 = "snd (inb b (base + ATA_REG_STATUS) w1)"
  have ok: "?status AND ATA_SR_ERR = 0" "?status AND ATA_SR_DF = 0"
    using no_fault [of w1] by (simp_all add: bit.conj_disj_distrib or_eq_0_iff)
  have d2: "ata_data (dev ?w2) = ?data" by (simp add: status_keeps w1(2))
  have "length (ata_data (dev ?w2)) = unat cnt * 512" unfolding d2 using assms(4) by (simp add: algebra_simps)
  with read_sectors [of 0 "unat cnt" cnt ?w2 dst m] assms(3) d2 obtain it' w3 where
    w3: "ide_read_sectors b base 0 cnt (dst, m, ?w2) = Some (it', store_bytes m dst ?data, w3)" "ata_data (dev w3) = []"
    by auto
  obtain w4 where "ide_wait_bsy b (base + ATA_REG_STATUS) w3 = Some w4" "dev w4 = dev w3" using wait_bsy by blast
  with w3 w1(1) ok on_channel show ?thesis by (auto simp: ide_read_drive_def case_prod_beta on_bus)
qed

end

sublocale ide_disk \<subseteq> block: block_drive "ide_read_drive b s drive" "\<lambda>w. ata_data (dev w) = []" disk 65536
  by unfold_locales (use read_drive in \<open>simp add: word_less_nat_alt\<close>)

text \<open>The boot loader's copy reads the same sectors when the kernel's driver succeeds.\<close>

lemma stage2_reads_alike:
  assumes "ide_read_drive b s drive lba (ucast cnt) dst st = Some (OK, st')"
  shows "stage2_ide_read_drive b s drive dst lba cnt st = Some st'"
  using assms
  by (auto simp: ide_read_drive_def stage2_ide_read_drive_def case_prod_beta Let_def bind_eq_Some_conv split: if_splits)

section \<open>A simulated drive\<close>

text \<open>The master drive of the primary channel, whose world is its registers.\<close>

definition ata_write :: "u8 list \<Rightarrow> u16 \<Rightarrow> u8 \<Rightarrow> ata_dev \<Rightarrow> ata_dev" where
  "ata_write disk port v d =
     (if port = 0x1F6 then d\<lparr>ata_sel := v\<rparr>
      else if port = 0x1F2 then d\<lparr>ata_count := (v, fst (ata_count d))\<rparr>
      else if port = 0x1F3 then d\<lparr>ata_lba0 := (v, fst (ata_lba0 d))\<rparr>
      else if port = 0x1F4 then d\<lparr>ata_lba1 := (v, fst (ata_lba1 d))\<rparr>
      else if port = 0x1F5 then d\<lparr>ata_lba2 := (v, fst (ata_lba2 d))\<rparr>
      else if port = 0x1F7 \<and> v = 0x24 \<and> ata_sel d = 0x40 then
        d\<lparr>ata_data := take (ata_sectors d * 512) (drop (unat (ata_address d) * 512) disk)\<rparr>
      else d)"

definition ata_status :: "ata_dev \<Rightarrow> u8" where
  "ata_status d = (if ata_data d = [] then 0x40 else 0x48)"

definition ata_word :: "ata_dev \<Rightarrow> u16 \<times> ata_dev" where
  "ata_word d = (case ata_data d of
       lo # hi # rest \<Rightarrow> (ucast lo OR push_bit 8 (ucast hi), d\<lparr>ata_data := rest\<rparr>) | _ \<Rightarrow> (0, d))"

definition ata_bus :: "u8 list \<Rightarrow> ata_dev bus" where
  "ata_bus disk = \<lparr>bus_inb = \<lambda>port d. (ata_status d, d), bus_inw = \<lambda>port d. ata_word d, bus_inl = \<lambda>_ d. (0, d),
     bus_outb = ata_write disk, bus_outw = \<lambda>_ _ d. d, bus_outl = \<lambda>_ _ d. d,
     bus_ldl = \<lambda>_ d. (0, d), bus_stl = \<lambda>_ _ d. d, bus_time = \<lambda>d. (0, d)\<rparr>"

definition ata_idle :: ata_dev where
  "ata_idle = \<lparr>ata_sel = 0, ata_count = (0, 0), ata_lba0 = (0, 0), ata_lba1 = (0, 0), ata_lba2 = (0, 0), ata_data = []\<rparr>"

text \<open>The part of an image that 48-bit addresses reach.\<close>

definition ata_image :: "u8 list \<Rightarrow> u8 list" where
  "ata_image disk = take (512 * 2 ^ 48) disk"

definition sim_drive :: ide_drive_t where
  "sim_drive = \<lparr>drv_channel = 0, drv_bus = 0, drv_type = 0, drv_name = [], drv_signature = 0, drv_capabilities = 0,
     drv_cmd_sets = 0, drv_size = 0\<rparr>"

definition sim_ide :: ide_t where
  "sim_ide = \<lparr>ide_drives = [sim_drive], ide_drive_count = 1,
     ide_channels = [\<lparr>base_port = 0x1F0, ctrl_port = 0x3F6, bmide_port = 0\<rparr>]\<rparr>"

lemma ata_bus_simps:
  "inb (ata_bus disk) port d = (ata_status d, d)" "inw (ata_bus disk) port d = ata_word d"
  "outb (ata_bus disk) port v d = ata_write disk port v d"
  by (simp_all add: ata_bus_def inb_def inw_def outb_def)

interpretation sim: ide_disk "ata_bus (ata_image disk)" "0x1F0" "0x3F6" 0 id "ata_image disk" sim_ide sim_drive
proof
  show "length (ata_image disk) \<le> 512 * 2 ^ 48" by (simp add: ata_image_def)
  show "\<exists>k. fst (inb (ata_bus (ata_image disk)) (0x1F0 + ATA_REG_STATUS)
      (after_reads (ata_bus (ata_image disk)) (0x1F0 + ATA_REG_STATUS) k w)) AND ATA_SR_BSY = 0" for w
    by (rule exI [of _ 0]) (simp add: ata_bus_simps ata_status_def ata_bits)
qed (simp_all add: ata_bus_simps ata_status_def ata_bits ata_regs ata_write_def ata_word_def ATA_CMD_READ_PIO_EXT_def
    sim_ide_def sim_drive_def)

section \<open>Properties\<close>

text \<open>
  C12 On a drive that follows the ATA protocol without faults, \<^verbatim>\<open>ide_read_drive\<close> and its copy in the boot
  loader return for every range of at least one and fewer than 65536 sectors on the disk, with exactly
  the bytes of these sectors at the destination, the rest of the memory unchanged and the drive idle.
\<close>

theorem ide_read_drive_reads:
  assumes "ide_disk b base ctrl bus dev disk s drive" and "ata_data (dev w) = []"
    and "0 < cnt" and "(unat lba + unat cnt) * 512 \<le> length disk"
  shows "\<exists>w'. ide_read_drive b s drive lba (ucast (cnt :: u16)) dst (m, w) =
      Some (OK, store_bytes m dst (take (unat cnt * 512) (drop (unat lba * 512) disk)), w') \<and>
    stage2_ide_read_drive b s drive dst lba cnt (m, w) =
      Some (store_bytes m dst (take (unat cnt * 512) (drop (unat lba * 512) disk)), w') \<and> ata_data (dev w') = []"
proof -
  have u: "unat (ucast cnt :: u64) = unat cnt" by (rule unat_ucast_16_64)
  have "0 < unat cnt" "unat cnt < 65536" using assms(3) unsigned_less [of cnt, where 'a = nat]
    by (simp_all add: word_less_nat_alt)
  with ide_disk.read_drive [OF assms(1,2), of "ucast cnt" lba dst m] assms(4) show ?thesis
    unfolding u using stage2_reads_alike by blast
qed

theorem ide_read_drive_reads_witness:
  "\<exists>w'. ide_read_drive (ata_bus (ata_image (replicate 1024 7))) sim_ide sim_drive 1 (ucast (1 :: u16)) 0x2000 (\<lambda>_. 0, ata_idle) =
     Some (OK, store_bytes (\<lambda>_. 0) 0x2000 (replicate 512 7), w')"
proof -
  have "length (ata_image (replicate 1024 7)) = 1024" by (simp add: ata_image_def)
  with ide_read_drive_reads [OF sim.ide_disk_axioms, of ata_idle 1 1 "replicate 1024 7" "0x2000" "\<lambda>_. 0"]
  show ?thesis by (auto simp: ata_idle_def ata_image_def)
qed

end
