(* ===== verification/Cpuid.thy ===== *)
theory Cpuid
  imports Prelude
begin

text \<open>
  The processor identification of \<^verbatim>\<open>kernel/x86/cpuid.h\<close> and the model specific registers of
  \<^verbatim>\<open>kernel/x86/msr.h\<close>.  The instruction \<^verbatim>\<open>cpuid\<close> is a parameter: a function from the requested leaf to the
  registers.  A packed structure of one-bit fields is the sequence of the names of its bits; the two
  register values that are stored over it are its 64 bits.

  The lemmas show which bit of which register each field reads.
\<close>

section \<open>Definitions\<close>

record cpuid_regs =
  r_eax :: u32
  r_ebx :: u32
  r_ecx :: u32
  r_edx :: u32

type_synonym cpuid = "u32 \<Rightarrow> cpuid_regs"

definition cpu_info_t :: "string list" where
  "cpu_info_t = [
     ''sse3'', ''pclmul'', ''dtes64'', ''monitor'', ''ds_cpl'', ''vmx'', ''smx'', ''est'', ''tm2'',
     ''ssse3'', ''cid'', ''fma'', ''cx16'', ''etprd'', ''pdcm'', '''', ''pcid'', ''dca'', ''sse4_1'',
     ''sse4_2'', ''x2apic'', ''movbe'', ''popcnt'', ''aes'', ''xsave'', ''osxsave'', ''avx'', ''fpu'',
     ''vme'', ''de'', ''pse'', ''tsc'', ''msr'', ''pae'', ''mce'', ''cx8'', ''apic'', '''', ''sep'',
     ''mtrr'', ''pge'', ''mca'', ''cmov'', ''pat'', ''pse36'', ''psn'', ''clfsh'', '''', ''ds'',
     ''acpi'', ''mmx'', ''fxsr'', ''sse'', ''sse2'', ''ss'', ''htt'', ''tm1'', ''ia64'', ''pbe'']"

definition cpu_info_ext_t :: "string list" where
  "cpu_info_ext_t = [
     ''lahf_lm'', ''cmp_legacy'', ''svm'', ''extapic'', ''cr8_legacy'', ''abm'', ''sse4a'',
     ''misalignsse'', ''prefetch3dnow'', ''osvw'', ''ibs'', ''xop'', ''skinit'', ''wdt'', '''', ''lwp'',
     ''fma4'', ''tce'', '''', ''nodeid_msr'', '''', ''tbm'', ''topoext'', ''perfctr_core'',
     ''perfctr_nb'', '''', ''dbx'', ''perftsc'', ''pcx_l2i'', '''', '''', '''', ''fpu'', ''vme'',
     ''de'', ''pse'', ''tsc'', ''msr'', ''pae'', ''mce'', ''cx8'', ''apic'', '''', ''syscall'',
     ''mtrr'', ''pge'', ''mca'', ''cmov'', ''pat'', ''pse36'', '''', ''mp'', ''nx'', '''', ''mmxext'',
     ''mmx'', ''fxsr'', ''fxsr_opt'', ''pdpe1gb'', ''rdtscp'', '''', ''lm'', ''ext3dnow'', ''s_3dnow'']"

text \<open>The position of a field, and the field of the stored value.\<close>

fun field_index :: "string list \<Rightarrow> string \<Rightarrow> nat" where
  "field_index [] name = 0"
| "field_index (f # fs) name = (if f = name then 0 else Suc (field_index fs name))"

definition cpu_field :: "string list \<Rightarrow> u64 \<Rightarrow> string \<Rightarrow> bool" where
  "cpu_field str info name = bit info (field_index str name)"

definition dword_bytes :: "u32 \<Rightarrow> u8 list" where
  "dword_bytes v = [ucast v, ucast (drop_bit 8 v), ucast (drop_bit 16 v), ucast (drop_bit 24 v)]"

definition cpu_vendor_str :: "cpuid \<Rightarrow> u8 list" where
  "cpu_vendor_str cpuid =
     (let r = cpuid 0 in dword_bytes (r_ebx r) @ dword_bytes (r_edx r) @ dword_bytes (r_ecx r) @ [0])"

definition cpu_highest_ext_func :: "cpuid \<Rightarrow> u32" where
  "cpu_highest_ext_func cpuid = r_eax (cpuid 0x80000000)"

definition brand_part :: "cpuid_regs \<Rightarrow> u8 list" where
  "brand_part r = dword_bytes (r_eax r) @ dword_bytes (r_ebx r) @ dword_bytes (r_ecx r) @ dword_bytes (r_edx r)"

definition cpu_brand_str :: "cpuid \<Rightarrow> u8 list" where
  "cpu_brand_str cpuid =
     brand_part (cpuid 0x80000002) @ brand_part (cpuid 0x80000003) @ brand_part (cpuid 0x80000004)"

definition cpu_info :: "cpuid \<Rightarrow> u64" where
  "cpu_info cpuid = (let r = cpuid 1 in ucast (r_ecx r) OR push_bit 32 (ucast (r_edx r)))"

definition cpu_extended_info :: "cpuid \<Rightarrow> u64" where
  "cpu_extended_info cpuid = (let r = cpuid 0x80000001 in ucast (r_ecx r) OR push_bit 32 (ucast (r_edx r)))"

definition cpu_lapic_id :: "cpuid \<Rightarrow> u8" where
  "cpu_lapic_id cpuid = ucast (drop_bit 24 (r_ebx (cpuid 1)))"

text \<open>The model specific registers, by number: the low half goes to \<^verbatim>\<open>eax\<close>, the high half to \<^verbatim>\<open>edx\<close>.\<close>

definition MSR_APIC_BASE :: u32 where "MSR_APIC_BASE = 0x1B"
definition MSR_APIC_ENABLE :: u32 where "MSR_APIC_ENABLE = 0x800"

definition rdmsr :: "u32 \<Rightarrow> (u32 \<Rightarrow> u64) \<Rightarrow> u32 \<times> u32" where
  "rdmsr msr regs = (ucast (regs msr), ucast (drop_bit 32 (regs msr)))"

definition wrmsr :: "u32 \<Rightarrow> u32 \<Rightarrow> u32 \<Rightarrow> (u32 \<Rightarrow> u64) \<Rightarrow> (u32 \<Rightarrow> u64)" where
  "wrmsr msr eax edx regs = regs(msr := ucast eax OR push_bit 32 (ucast edx))"

section \<open>Fields and register bits\<close>

lemma register_pair_bit:
  "bit (ucast (c :: u32) OR push_bit 32 (ucast (d :: u32)) :: u64) n \<longleftrightarrow>
     (if n < 32 then bit c n else n < 64 \<and> bit d (n - 32))"
  by (auto simp: bit_simps dest: bit_imp_le_length)

lemma rdmsr_wrmsr: "rdmsr msr (wrmsr msr eax edx regs) = (eax, edx)"
proof -
  have "ucast (ucast eax OR push_bit 32 (ucast edx) :: u64) = eax"
    by (rule bit_word_eqI) (simp add: bit_ucast_iff register_pair_bit)
  moreover have "ucast (drop_bit 32 (ucast eax OR push_bit 32 (ucast edx) :: u64)) = edx"
    by (rule bit_word_eqI, simp only: bit_ucast_iff bit_drop_bit_eq o_def register_pair_bit) simp
  ultimately show ?thesis by (simp add: rdmsr_def wrmsr_def)
qed

text \<open>
  The structure for leaf 1 has 27 fields before those of \<^verbatim>\<open>edx\<close>, so the fields of \<^verbatim>\<open>edx\<close> lie five bits
  too low; the one for the extended leaf has all 32.
\<close>

lemma field_positions:
  "field_index cpu_info_t ''fpu'' = 27" "field_index cpu_info_t ''msr'' = 32" "field_index cpu_info_t ''apic'' = 36"
  "field_index cpu_info_ext_t ''fpu'' = 32" "field_index cpu_info_ext_t ''lm'' = 61"
  by code_simp+

section \<open>Properties\<close>

text \<open>
  The tests for the model specific registers and the local APIC that the kernel makes before it uses
  them read bits 0 and 4 of \<^verbatim>\<open>edx\<close>, the bits for the floating point unit and the time stamp counter, where the
  processor reports these features in bits 5 and 9; the extended information is read from the right bits.
\<close>

lemma cpu_info_msr_apic_bits:
  "cpu_field cpu_info_t (cpu_info cpuid) ''msr'' = bit (r_edx (cpuid 1)) 0 \<and>
   cpu_field cpu_info_t (cpu_info cpuid) ''apic'' = bit (r_edx (cpuid 1)) 4 \<and>
   cpu_field cpu_info_ext_t (cpu_extended_info cpuid) ''fpu'' = bit (r_edx (cpuid 0x80000001)) 0 \<and>
   cpu_field cpu_info_ext_t (cpu_extended_info cpuid) ''lm'' = bit (r_edx (cpuid 0x80000001)) 29"
  by (simp add: cpu_field_def field_positions cpu_info_def cpu_extended_info_def Let_def register_pair_bit)

end
