(* ===== verification/Stage2.thy ===== *)
theory Stage2
  imports Ide Pci Dfs
begin

text \<open>
  The C part of the boot loader, \<^verbatim>\<open>stage2/stage2_c.c\<close> and \<^verbatim>\<open>stage2/pci.h\<close>, with the ELF structures of
  \<^verbatim>\<open>libk/elf.h\<close>: find the IDE controller, look for \<^verbatim>\<open>kernel.bin\<close> on each drive, read it to a fixed address
  and load its sections.  \<^verbatim>\<open>panic_c\<close> does not return, so it is \<^term>\<open>None\<close>.  String literals are at the
  addresses given by \<open>lits\<close>; messages, and the section names they print, are left out.

  The lemmas show that the loader leaves in memory exactly the sections of the file.
\<close>

section \<open>ELF structures\<close>

record elf32_fh_t =
  fh_class :: u8
  fh_encoding :: u8
  fh_header_version :: u8
  fh_osabi :: u8
  fh_obj_type :: u16
  fh_arch :: u16
  fh_version :: u32
  fh_entry :: u32
  fh_ph_offset :: u32
  fh_sh_offset :: u32
  fh_cpu_flags :: u32
  fh_fh_size :: u16
  fh_ph_size :: u16
  fh_ph_count :: u16
  fh_sh_size :: u16
  fh_sh_count :: u16
  fh_sh_strtab_index :: u16

definition elf32_fh :: "mem \<Rightarrow> addr \<Rightarrow> elf32_fh_t" where
  "elf32_fh m a =
     \<lparr>fh_class = m (a + 4), fh_encoding = m (a + 5), fh_header_version = m (a + 6), fh_osabi = m (a + 7),
      fh_obj_type = load16 m (a + 16), fh_arch = load16 m (a + 18), fh_version = load32 m (a + 20),
      fh_entry = load32 m (a + 24), fh_ph_offset = load32 m (a + 28), fh_sh_offset = load32 m (a + 32),
      fh_cpu_flags = load32 m (a + 36), fh_fh_size = load16 m (a + 40), fh_ph_size = load16 m (a + 42),
      fh_ph_count = load16 m (a + 44), fh_sh_size = load16 m (a + 46), fh_sh_count = load16 m (a + 48),
      fh_sh_strtab_index = load16 m (a + 50)\<rparr>"

record elf32_sh_t =
  sh_name_stab_offs :: u32
  sh_type :: u32
  sh_flags :: u32
  sh_addr :: u32
  sh_offs :: u32
  sh_sz :: u32
  sh_link :: u32
  sh_info :: u32
  sh_addr_align :: u32
  sh_ent_size :: u32

definition elf32_sh :: "mem \<Rightarrow> addr \<Rightarrow> elf32_sh_t" where
  "elf32_sh m a =
     \<lparr>sh_name_stab_offs = load32 m a, sh_type = load32 m (a + 4), sh_flags = load32 m (a + 8),
      sh_addr = load32 m (a + 12), sh_offs = load32 m (a + 16), sh_sz = load32 m (a + 20),
      sh_link = load32 m (a + 24), sh_info = load32 m (a + 28), sh_addr_align = load32 m (a + 32),
      sh_ent_size = load32 m (a + 36)\<rparr>"

definition sizeof_elf32_sh :: u32 where "sizeof_elf32_sh = 40"

definition ELF_SH_TYPE_PROGBITS :: u32 where "ELF_SH_TYPE_PROGBITS = 1"
definition ELF_SH_TYPE_NOBITS :: u32 where "ELF_SH_TYPE_NOBITS = 8"

section \<open>Loading the kernel\<close>

text \<open>One section header: the bounds \<^verbatim>\<open>klow\<close> and \<^verbatim>\<open>khigh\<close> of what was loaded, and the memory.\<close>

definition load_section :: "addr \<Rightarrow> elf32_sh_t \<Rightarrow> u32 \<times> u32 \<times> mem \<Rightarrow> u32 \<times> u32 \<times> mem" where
  "load_section kernel_elf_data sh = (\<lambda>(klow, khigh, m).
     let low = (if sh_addr sh < klow then sh_addr sh else klow);
         high = (if sh_addr sh + sh_sz sh > khigh then sh_addr sh + sh_sz sh else khigh)
     in if sh_type sh = ELF_SH_TYPE_PROGBITS \<and> sh_addr sh \<noteq> 0 then
          (low, high, mcpy8 m (sh_addr sh) (kernel_elf_data + sh_offs sh) (sh_sz sh))
        else if sh_type sh = ELF_SH_TYPE_NOBITS then (low, high, mset8 m (sh_addr sh) 0 (sh_sz sh))
        else (klow, khigh, m))"

lemma unat_ucast_16_32: "unat (ucast (v :: u16) :: u32) = unat v"
proof -
  have "unat v < 2 ^ 32" by (rule less_trans [OF unsigned_less]) simp
  then show ?thesis by (simp add: unsigned_ucast_eq take_bit_nat_eq_self)
qed

text \<open>The loop reads the section count and the headers from memory in every iteration.\<close>

function load_sections :: "addr \<Rightarrow> addr \<Rightarrow> u32 \<Rightarrow> u32 \<times> u32 \<times> mem \<Rightarrow> u32 \<times> u32 \<times> mem" where
  "load_sections kernel_elf_data sh i (klow, khigh, m) =
     (if i < ucast (fh_sh_count (elf32_fh m kernel_elf_data)) then
        load_sections kernel_elf_data sh (i + 1)
          (load_section kernel_elf_data (elf32_sh m (sh + sizeof_elf32_sh * i)) (klow, khigh, m))
      else (klow, khigh, m))"
  by pat_completeness auto
termination
proof (relation "measure (\<lambda>(k, sh, i, st). 65536 - unat i)", simp)
  fix k sh i klow khigh m
  assume i: "i < (ucast (fh_sh_count (elf32_fh m k)) :: u32)"
  have "unat (fh_sh_count (elf32_fh m k)) < 65536" using unsigned_less [where 'a = nat and 'b = 16] by simp
  with i have "unat i < 65536" by (simp add: word_less_nat_alt unat_ucast_16_32)
  with unat_succ_less [OF i]
  show "((k, sh, i + 1, load_section k (elf32_sh m (sh + sizeof_elf32_sh * i)) (klow, khigh, m)), k, sh, i, klow, khigh, m)
    \<in> measure (\<lambda>(k, sh, i, st). 65536 - unat i)" by simp
qed

declare load_sections.simps [simp del]

text \<open>\<open>magic\<close> is the address of the local array with the signature.  The result is the entry point with the bounds.\<close>

definition load_elf_kernel :: "addr \<Rightarrow> addr \<Rightarrow> mem \<Rightarrow> (addr \<times> u32 \<times> u32 \<times> mem) option" where
  "load_elf_kernel magic kernel_elf_data m =
     (let m = store_bytes m magic [0x7F, 0x45, 0x4C, 0x46]
      in if strneq m kernel_elf_data magic 4 = 0 then None
         else
           let sh = kernel_elf_data + fh_sh_offset (elf32_fh m kernel_elf_data);
               (klow, khigh, m) = load_sections kernel_elf_data sh 0 (0xFFFFFFFF, 0, m)
           in Some (fh_entry (elf32_fh m kernel_elf_data), klow, khigh, m))"

section \<open>Finding the controller and the kernel\<close>

definition pci_reg8 :: "mem \<Rightarrow> addr \<Rightarrow> u32 \<Rightarrow> u8" where
  "pci_reg8 m regs offset = m (regs + offset)"

definition stage2_pci_reg32 :: "mem \<Rightarrow> addr \<Rightarrow> u32 \<Rightarrow> u32" where
  "stage2_pci_reg32 m regs offset = load32 m (regs + offset)"

definition pci_make_addr :: "u8 \<Rightarrow> u8 \<Rightarrow> u8 \<Rightarrow> u8 \<Rightarrow> u32" where
  "pci_make_addr bus device func offset =
     push_bit 31 1 OR push_bit 16 (ucast bus) OR push_bit 11 (ucast device AND 0xF) OR
     push_bit 8 (ucast func AND 0xF) OR ucast (offset AND 0xFC)"

definition pci_read_reg :: "'w bus \<Rightarrow> u8 \<Rightarrow> u8 \<Rightarrow> u8 \<Rightarrow> u8 \<Rightarrow> 'w \<Rightarrow> u32 \<times> 'w" where
  "pci_read_reg b bus device func offset w =
     (let (v, w) = inl b PCI_CONFIG_DATA (outl b PCI_CONFIG_ADDR (pci_make_addr bus device func offset) w)
      in (drop_bit (unat (offset AND 2) * 8) v, w))"

text \<open>
  The search for drives on a table of records, like that of the kernel; \<^verbatim>\<open>Stage2_Ide\<close> has the code of
  \<^verbatim>\<open>stage2/ide.c\<close> on the bytes of the table, and shows that it does the same.
\<close>

definition stage2_ide_initialize ::
    "'w bus \<Rightarrow> u32 \<Rightarrow> u32 \<Rightarrow> u32 \<Rightarrow> u32 \<Rightarrow> u32 \<Rightarrow> ide_t \<Rightarrow> 'w \<Rightarrow> (u32 \<times> ide_t \<times> 'w) option" where
  "stage2_ide_initialize b bar0 bar1 bar2 bar3 bar4 s w = ide_initialize b bar0 bar1 bar2 bar3 bar4 s w"

text \<open>
  One step of the enumeration; \<open>regs\<close> is the address of the local array.  The flag says that the controller
  was found and the function has returned.
\<close>

definition stage2_probe ::
    "'w bus \<Rightarrow> addr \<Rightarrow> u32 \<Rightarrow> u32 \<Rightarrow> u32 \<Rightarrow> bool \<times> u32 \<times> ide_t \<times> mem \<times> 'w \<Rightarrow> (bool \<times> u32 \<times> ide_t \<times> mem \<times> 'w) option" where
  "stage2_probe b regs bus device func = (\<lambda>(done, drive_count, s, m, w).
     if done then Some (done, drive_count, s, m, w)
     else
       let (res, w) = pci_read_reg b (ucast bus) (ucast device) (ucast func) 0 w
       in if (ucast res :: u16) = 0xFFFF then Some (False, drive_count, s, m, w)
          else do {
            (_, m, w) \<leftarrow> for_range 0 20 (\<lambda>i (it, m, w).
               let (v, w) = pci_read_reg b (ucast bus) (ucast device) (ucast func) (ucast (push_bit 2 i)) w
               in Some (it + 4, store32 m it v, w)) (regs, m, w);
            if pci_reg8 m regs PCI_HC_HEADER_TYPE = PCI_HEADER_TYPE_0 \<and> pci_reg8 m regs PCI_HC_CLASS = 0x01 \<and>
               pci_reg8 m regs PCI_HC_SUBCLASS = 0x01
            then do {
              (drive_count, s, w) \<leftarrow> stage2_ide_initialize b (stage2_pci_reg32 m regs PCI_H0_BAR0)
                (stage2_pci_reg32 m regs PCI_H0_BAR1) (stage2_pci_reg32 m regs PCI_H0_BAR2)
                (stage2_pci_reg32 m regs PCI_H0_BAR3) (stage2_pci_reg32 m regs PCI_H0_BAR4) s w;
              Some (True, drive_count, s, m, w) }
            else Some (False, drive_count, s, m, w) })"

definition enumerate_and_initialize ::
    "'w bus \<Rightarrow> addr \<Rightarrow> ide_t \<Rightarrow> mem \<times> 'w \<Rightarrow> (u32 \<times> ide_t \<times> mem \<times> 'w) option" where
  "enumerate_and_initialize b regs s st =
     do { (done, drive_count, s, m, w) \<leftarrow>
            for_range 0 PCI_MAX_BUS (\<lambda>bus. for_range 0 PCI_MAX_DEVICE (\<lambda>device. for_range 0 PCI_MAX_FUNC (\<lambda>func.
              stage2_probe b regs bus device func))) (False, 0, s, st);
          if done then Some (drive_count, s, m, w) else None }"

definition TMP_ELF_ADDR :: addr where "TMP_ELF_ADDR = 0x200000"

text \<open>
  The file chain of one drive, with the sector buffer at \<open>buf\<close>: the outcome is the loaded kernel, or
  \<^term>\<open>None\<close> at the end of the chain.
\<close>

partial_function (option) stage2_chain ::
    "'w bus \<Rightarrow> (string \<Rightarrow> addr) \<Rightarrow> addr \<Rightarrow> addr \<Rightarrow> ide_t \<Rightarrow> ide_drive_t \<Rightarrow> u64 \<Rightarrow> mem \<times> 'w \<Rightarrow>
      ((addr \<times> u32 \<times> u32) option \<times> mem \<times> 'w) option" where
  "stage2_chain b lits magic buf s drive lba st =
     (if lba \<noteq> 0 then do {
        (m, w) \<leftarrow> stage2_ide_read_drive b s drive buf lba 1 st;
        if strneq m (buf + 16) (lits ''kernel.bin'') 32 \<noteq> 0 then do {
          (m, w) \<leftarrow> stage2_ide_read_drive b s drive TMP_ELF_ADDR (lba + 1) (ucast (load64 m buf)) (m, w);
          (entry, klow, khigh, m) \<leftarrow> load_elf_kernel magic TMP_ELF_ADDR m;
          Some (Some (entry, klow, khigh), m, w) }
        else stage2_chain b lits magic buf s drive (load64 m (buf + 8)) (m, w) }
      else case st of (m, w) \<Rightarrow> Some (None, m, w))"

definition stage2_c :: "'w bus \<Rightarrow> (string \<Rightarrow> addr) \<Rightarrow> addr \<Rightarrow> addr \<Rightarrow> addr \<Rightarrow> ide_t \<Rightarrow> mem \<times> 'w \<Rightarrow>
    ((addr \<times> u32 \<times> u32) \<times> mem \<times> 'w) option" where
  "stage2_c b lits regs magic buf s st =
     do { (drive_count, s, st) \<leftarrow> enumerate_and_initialize b regs s st;
          (found, st) \<leftarrow> for_range 0 drive_count (\<lambda>i (found, st).
            if found \<noteq> None then Some (found, st)
            else do { drive \<leftarrow> arr_get (ide_drives s) i; stage2_chain b lits magic buf s drive 1 st }) (None, st);
          kernel \<leftarrow> found;
          Some (kernel, st) }"

section \<open>The sections of a file\<close>

text \<open>Two memories agree on the \<open>n\<close> bytes at \<open>a\<close>.\<close>

definition agree :: "mem \<Rightarrow> mem \<Rightarrow> addr \<Rightarrow> nat \<Rightarrow> bool" where
  "agree m m' a n \<longleftrightarrow> (\<forall>k<n. m' (a + of_nat k) = m (a + of_nat k))"

lemma agree_refl [simp]: "agree m m a n"
  by (simp add: agree_def)

lemma agree_store:
  "agree m m' a n \<Longrightarrow> away d (length bs) a n \<Longrightarrow> length bs \<le> 2 ^ 32 \<Longrightarrow> agree m (store_bytes m' d bs) a n"
  by (simp add: agree_def store_bytes_away)

lemma agree_at: "agree m m' a n \<Longrightarrow> k + i < n \<Longrightarrow> m' (a + of_nat k + of_nat i) = m (a + of_nat k + of_nat i)"
  unfolding agree_def by (drule spec [of _ "k + i"]) (simp add: add.assoc)

lemma agree_load32:
  assumes "agree m m' a n" and "k + 4 \<le> n"
  shows "load32 m' (a + of_nat k) = load32 m (a + of_nat k)"
  by (rule load32_cong) (use assms in \<open>simp add: agree_at\<close>)

lemma agree_load16:
  assumes "agree m m' a n" and "k + 2 \<le> n"
  shows "load16 m' (a + of_nat k) = load16 m (a + of_nat k)"
proof -
  have "m' (a + of_nat j) = m (a + of_nat j)" if "j < n" for j using assms(1) that by (simp add: agree_def)
  from this [of k] this [of "k + 1"] assms(2) show ?thesis by (simp add: load16_def algebra_simps)
qed

lemma agree_load_bytes:
  assumes "agree m m' a n" and "k + l \<le> n"
  shows "load_bytes m' (a + of_nat k) l = load_bytes m (a + of_nat k) l"
  using assms by (simp add: load_bytes_eq_map agree_at)

lemma agree_sh:
  assumes "agree m m' a n" and "k + 40 \<le> n"
  shows "elf32_sh m' (a + of_nat k) = elf32_sh m (a + of_nat k)"
proof -
  have f: "load32 m' (a + of_nat k + of_nat j) = load32 m (a + of_nat k + of_nat j)" if "j \<le> 36" for j
    using agree_load32 [OF assms(1), of "k + j"] assms(2) that by (simp add: add.assoc)
  show ?thesis unfolding elf32_sh_def
    using f [of 0] f [of 4] f [of 8] f [of 12] f [of 16] f [of 20] f [of 24] f [of 28] f [of 32] f [of 36] by simp
qed

lemma agree_fh:
  assumes "agree m m' a n" and "52 \<le> n"
  shows "fh_sh_count (elf32_fh m' a) = fh_sh_count (elf32_fh m a)"
    "fh_sh_offset (elf32_fh m' a) = fh_sh_offset (elf32_fh m a)" "fh_entry (elf32_fh m' a) = fh_entry (elf32_fh m a)"
  using agree_load16 [OF assms(1), of 48] agree_load32 [OF assms(1), of 32] agree_load32 [OF assms(1), of 24] assms(2)
  by (simp_all add: elf32_fh_def)

text \<open>Two memories agree outside the \<open>n\<close> bytes at \<open>a\<close>.\<close>

definition agree_outside :: "mem \<Rightarrow> mem \<Rightarrow> addr \<Rightarrow> nat \<Rightarrow> bool" where
  "agree_outside m m' a n \<longleftrightarrow> (\<forall>x. n \<le> unat (x - a) \<longrightarrow> m' x = m x)"

lemma agree_outside_store: "length bs = n \<Longrightarrow> n \<le> 2 ^ 32 \<Longrightarrow> agree_outside m (store_bytes m a bs) a n"
  by (auto simp: agree_outside_def store_bytes_apply)

lemma agree_outside_trans: "agree_outside m m' a n \<Longrightarrow> agree_outside m' m'' a n \<Longrightarrow> agree_outside m m'' a n"
  by (simp add: agree_outside_def)

text \<open>The section headers of the file at \<open>elf\<close>, which of them are loaded, and the bytes of one.\<close>

definition elf_sections :: "mem \<Rightarrow> addr \<Rightarrow> elf32_sh_t list" where
  "elf_sections m elf =
     map (\<lambda>i. elf32_sh m (elf + of_nat (unat (fh_sh_offset (elf32_fh m elf)) + 40 * i)))
       [0..<unat (fh_sh_count (elf32_fh m elf))]"

definition sh_loaded :: "elf32_sh_t \<Rightarrow> bool" where
  "sh_loaded sh \<longleftrightarrow> sh_type sh = 1 \<and> sh_addr sh \<noteq> 0 \<or> sh_type sh = 8"

definition section_bytes :: "mem \<Rightarrow> addr \<Rightarrow> elf32_sh_t \<Rightarrow> u8 list" where
  "section_bytes m elf sh =
     (if sh_type sh = 1 then load_bytes m (elf + sh_offs sh) (unat (sh_sz sh)) else replicate (unat (sh_sz sh)) 0)"

lemma length_section_bytes [simp]: "length (section_bytes m elf sh) = unat (sh_sz sh)"
  by (simp add: section_bytes_def)

text \<open>
  A file of \<open>n\<close> bytes that holds its section table and the contents of its sections, none of which is to be
  placed over the file.
\<close>

definition section_ok :: "addr \<Rightarrow> nat \<Rightarrow> elf32_sh_t \<Rightarrow> bool" where
  "section_ok elf n sh \<longleftrightarrow> (sh_type sh = 1 \<longrightarrow> unat (sh_offs sh) + unat (sh_sz sh) \<le> n) \<and>
     away (sh_addr sh) (unat (sh_sz sh)) elf n"

definition elf_file :: "mem \<Rightarrow> addr \<Rightarrow> nat \<Rightarrow> bool" where
  "elf_file m elf n \<longleftrightarrow> bytes_at m elf [0x7F, 0x45, 0x4C, 0x46] \<and> 52 \<le> n \<and>
     unat (fh_sh_offset (elf32_fh m elf)) + 40 * unat (fh_sh_count (elf32_fh m elf)) \<le> n \<and>
     (\<forall>sh \<in> set (elf_sections m elf). sh_loaded sh \<longrightarrow> section_ok elf n sh)"

section \<open>Loading\<close>

lemma mcpy8_store_bytes:
  assumes "unat n \<le> unat (d - s)"
  shows "mcpy8 m d s n = store_bytes m d (load_bytes m s (unat n))"
proof
  fix x
  have "mmove8_loop m d s (of_nat (unat n)) x = (if unat (x - d) < unat n then m (s + (x - d)) else m x)"
    by (rule mmove8_loop_apply) (use assms in \<open>simp_all add: less_imp_le\<close>)
  moreover have "store_bytes m d (load_bytes m s (unat n)) x =
      (if unat (x - d) < unat n then m (s + (x - d)) else m x)"
    by (subst store_bytes_apply) (simp_all add: load_bytes_nth less_imp_le)
  ultimately show "mcpy8 m d s n x = store_bytes m d (load_bytes m s (unat n)) x" by (simp add: mcpy8_def)
qed

lemma copy_forward:
  assumes "away d sz elf n" and "k + sz \<le> n"
  shows "sz \<le> unat (d - (elf + of_nat k))"
proof (rule ccontr)
  assume less: "\<not> ?thesis"
  define j where "j = k + unat (d - (elf + of_nat k))"
  have "elf + of_nat j - d = 0" by (simp add: j_def)
  moreover have "j < n" using less assms(2) by (simp add: j_def)
  ultimately have "sz \<le> 0" using assms(1) unfolding away_def by (metis unsigned_0)
  with less show False by simp
qed

text \<open>What loading a section should do, with the bytes of the original file.\<close>

definition place :: "mem \<Rightarrow> addr \<Rightarrow> elf32_sh_t \<Rightarrow> u32 \<times> u32 \<times> mem \<Rightarrow> u32 \<times> u32 \<times> mem" where
  "place m0 elf sh = (\<lambda>(l, h, m).
     if sh_loaded sh then (min (sh_addr sh) l, max (sh_addr sh + sh_sz sh) h, store_bytes m (sh_addr sh) (section_bytes m0 elf sh))
     else (l, h, m))"

lemma load_section_place:
  assumes "agree m0 m elf n" and "sh_loaded sh \<longrightarrow> section_ok elf n sh"
  shows "load_section elf sh (l, h, m) = place m0 elf sh (l, h, m)"
proof -
  have copy: "mcpy8 m (sh_addr sh) (elf + sh_offs sh) (sh_sz sh) = store_bytes m (sh_addr sh) (section_bytes m0 elf sh)"
    if "sh_type sh = 1" "sh_addr sh \<noteq> 0"
  proof -
    from that assms(2) have ok: "unat (sh_offs sh) + unat (sh_sz sh) \<le> n" "away (sh_addr sh) (unat (sh_sz sh)) elf n"
      by (simp_all add: sh_loaded_def section_ok_def)
    have "mcpy8 m (sh_addr sh) (elf + of_nat (unat (sh_offs sh))) (sh_sz sh) =
        store_bytes m (sh_addr sh) (load_bytes m (elf + of_nat (unat (sh_offs sh))) (unat (sh_sz sh)))"
      by (rule mcpy8_store_bytes) (rule copy_forward [OF ok(2,1)])
    with agree_load_bytes [OF assms(1) ok(1)] that show ?thesis by (simp add: section_bytes_def)
  qed
  show ?thesis
    by (auto simp: load_section_def place_def sh_loaded_def copy Let_def ELF_SH_TYPE_PROGBITS_def ELF_SH_TYPE_NOBITS_def
        mset8_def section_bytes_def min_def max_def)
qed

lemma place_agree:
  assumes "agree m0 m elf n" and "sh_loaded sh \<longrightarrow> section_ok elf n sh"
  shows "agree m0 (snd (snd (place m0 elf sh (l, h, m)))) elf n"
  using assms by (auto simp: place_def section_ok_def less_imp_le intro!: agree_store)

lemma fold_place_agree:
  assumes "agree m0 m elf n" and "\<forall>sh \<in> set shs. sh_loaded sh \<longrightarrow> section_ok elf n sh"
  shows "agree m0 (snd (snd (fold (place m0 elf) shs (l, h, m)))) elf n"
  using assms
proof (induction shs arbitrary: l h m)
  case (Cons y shs)
  obtain l' h' m' where "place m0 elf y (l, h, m) = (l', h', m')" by (metis prod.exhaust)
  with Cons place_agree [OF Cons.prems(1), of y l h] show ?case by simp
qed simp

lemma load_sections_fold:
  assumes F: "elf_file m0 elf n" and "agree m0 m elf n" and "unat i + j = length (elf_sections m0 elf)"
  shows "load_sections elf (elf + fh_sh_offset (elf32_fh m0 elf)) i (l, h, m) =
    fold (place m0 elf) (drop (unat i) (elf_sections m0 elf)) (l, h, m)"
  using assms(2,3)
proof (induction j arbitrary: i l h m)
  case 0
  have "fh_sh_count (elf32_fh m elf) = fh_sh_count (elf32_fh m0 elf)"
    using agree_fh(1) [OF 0(1)] F by (simp add: elf_file_def)
  then show ?case using 0(2) by (subst load_sections.simps)
    (simp add: word_less_nat_alt unat_ucast_16_32 elf_sections_def)
next
  case (Suc j)
  let ?secs = "elf_sections m0 elf" and ?off = "fh_sh_offset (elf32_fh m0 elf)"
  have i: "unat i < length ?secs" using Suc.prems(2) by simp
  have n: "52 \<le> n" "unat ?off + 40 * length ?secs \<le> n" using F by (simp_all add: elf_file_def elf_sections_def)
  have lt: "i < ucast (fh_sh_count (elf32_fh m elf))"
    using i agree_fh(1) [OF Suc.prems(1) n(1)] by (simp add: word_less_nat_alt unat_ucast_16_32 elf_sections_def)
  have "elf32_sh m (elf + of_nat (unat ?off + 40 * unat i)) = ?secs ! unat i"
    using agree_sh [OF Suc.prems(1), of "unat ?off + 40 * unat i"] i n(2) by (simp add: elf_sections_def)
  then have sh: "elf32_sh m (elf + ?off + sizeof_elf32_sh * i) = ?secs ! unat i"
    by (simp add: sizeof_elf32_sh_def add.assoc)
  have ok: "sh_loaded (?secs ! unat i) \<longrightarrow> section_ok elf n (?secs ! unat i)" using F i by (simp add: elf_file_def)
  obtain l' h' m' where p: "place m0 elf (?secs ! unat i) (l, h, m) = (l', h', m')" by (metis prod.exhaust)
  have "agree m0 m' elf n" using place_agree [OF Suc.prems(1) ok, of l h] p by simp
  moreover have u: "unat (i + 1) = Suc (unat i)" by (rule unat_succ_less [OF lt])
  ultimately have "load_sections elf (elf + ?off) (i + 1) (l', h', m') = fold (place m0 elf) (drop (Suc (unat i)) ?secs) (l', h', m')"
    using Suc.IH [of m' "i + 1" l' h'] Suc.prems(2) by simp
  moreover have "drop (unat i) ?secs = ?secs ! unat i # drop (Suc (unat i)) ?secs" using i by (simp add: Cons_nth_drop_Suc)
  ultimately show ?case using lt
    by (subst load_sections.simps) (simp add: sh load_section_place [OF Suc.prems(1) ok] p)
qed

text \<open>A list of sections of which no later one is placed over an earlier one.\<close>

definition no_overlap :: "elf32_sh_t list \<Rightarrow> bool" where
  "no_overlap shs \<longleftrightarrow> sorted_wrt (\<lambda>x y. away (sh_addr y) (unat (sh_sz y)) (sh_addr x) (unat (sh_sz x))) (filter sh_loaded shs)"

definition placed :: "mem \<Rightarrow> addr \<Rightarrow> u32 \<times> u32 \<times> mem \<Rightarrow> elf32_sh_t \<Rightarrow> bool" where
  "placed m0 elf = (\<lambda>(l, h, m) sh. l \<le> sh_addr sh \<and> sh_addr sh + sh_sz sh \<le> h \<and>
     load_bytes m (sh_addr sh) (unat (sh_sz sh)) = section_bytes m0 elf sh)"

lemma place_placed:
  assumes "sh_loaded sh"
  shows "placed m0 elf (place m0 elf sh st) sh"
proof -
  obtain l h m where st: "st = (l, h, m)" by (metis prod.exhaust)
  show ?thesis using assms load_store_bytes [of "section_bytes m0 elf sh" m "sh_addr sh"]
    by (simp add: st place_def placed_def less_imp_le)
qed

lemma place_keeps:
  assumes "placed m0 elf st x" and "sh_loaded y \<longrightarrow> away (sh_addr y) (unat (sh_sz y)) (sh_addr x) (unat (sh_sz x))"
  shows "placed m0 elf (place m0 elf y st) x"
proof -
  obtain l h m where st: "st = (l, h, m)" by (metis prod.exhaust)
  show ?thesis using assms load_bytes_away [of "sh_addr y" "section_bytes m0 elf y" "sh_addr x" "unat (sh_sz x)" m]
    by (auto simp: st place_def placed_def less_imp_le min_le_iff_disj le_max_iff_disj)
qed

lemma fold_place_keeps:
  assumes "placed m0 elf st x"
    and "\<forall>y \<in> set shs. sh_loaded y \<longrightarrow> away (sh_addr y) (unat (sh_sz y)) (sh_addr x) (unat (sh_sz x))"
  shows "placed m0 elf (fold (place m0 elf) shs st) x"
  using assms by (induction shs arbitrary: st) (simp_all add: place_keeps)

lemma fold_place_placed:
  assumes "no_overlap shs" and "x \<in> set shs" and "sh_loaded x"
  shows "placed m0 elf (fold (place m0 elf) shs st) x"
  using assms
proof (induction shs arbitrary: st)
  case (Cons y shs)
  have tail: "no_overlap shs" using Cons.prems(1) by (simp add: no_overlap_def split: if_splits)
  show ?case
  proof (cases "x \<in> set shs")
    case True
    with Cons.IH [OF tail True Cons.prems(3)] show ?thesis by simp
  next
    case False
    with Cons.prems have "x = y" by simp
    have "\<forall>z \<in> set shs. sh_loaded z \<longrightarrow> away (sh_addr z) (unat (sh_sz z)) (sh_addr x) (unat (sh_sz x))"
      using Cons.prems(1,3) \<open>x = y\<close> by (simp add: no_overlap_def)
    with place_placed [OF Cons.prems(3)] \<open>x = y\<close> show ?thesis by (simp add: fold_place_keeps)
  qed
qed simp

lemma fold_place_frame:
  assumes "\<forall>y \<in> set shs. sh_loaded y \<longrightarrow> unat (sh_sz y) \<le> unat (x - sh_addr y)"
  shows "snd (snd (fold (place m0 elf) shs (l, h, m))) x = m x"
  using assms
proof (induction shs arbitrary: l h m)
  case (Cons y shs)
  obtain l' h' m' where p: "place m0 elf y (l, h, m) = (l', h', m')" by (metis prod.exhaust)
  have "m' x = m x" using p Cons.prems
    by (auto simp: place_def store_bytes_apply less_imp_le split: if_splits)
  with Cons p show ?case by simp
qed simp

section \<open>Following the chain\<close>

lemma strneq_commute: "strneq m a b n = strneq m b a n"
proof -
  have "strneq_loop m a b i n = strneq_loop m b a i n" for i
    using strneq_loop_iff [of m a b i n] strneq_loop_iff [of m b a i n]
      strneq_loop_bool [of m a b i n] strneq_loop_bool [of m b a i n] by metis
  then show ?thesis by (simp add: strneq_def)
qed

context ide_disk
begin

lemma stage2_read:
  assumes "ata_data (dev w) = []" and "0 < n" and "n < 65536" and "(lba + n) * 512 \<le> length disk"
  shows "\<exists>w'. stage2_ide_read_drive b s drive dst (of_nat lba) (of_nat n) (m, w) =
    Some (store_bytes m dst (take (n * 512) (drop (lba * 512) disk)), w') \<and> ata_data (dev w') = []"
proof -
  have "unat (of_nat n :: u16) = n" using assms(3) by (simp add: unat_of_nat)
  then have n: "unat (ucast (of_nat n :: u16) :: u64) = n" by (simp only: unat_ucast_16_64)
  have l: "unat (of_nat lba :: u64) = lba" using assms(4) addressable by (simp add: unat_of_nat)
  from read_drive [OF assms(1), of "ucast (of_nat n :: u16)" "of_nat lba" dst m] assms(2-4) n l
  show ?thesis using stage2_reads_alike by (metis (no_types, lifting))
qed

lemma stage2_chain_step:
  fixes m :: mem
  assumes D: "disk_at disk lba ((name, data) # fs)" and A: "away buf 512 (lits ''kernel.bin'') 32"
    and R: "ata_data (dev w) = []" and S: "file_sectors data < 65536"
  defines "K \<equiv> path_name m (lits ''kernel.bin'')"
    and "m1 \<equiv> store_bytes m buf (DFSFileHeader (of_nat (file_sectors data))
      (of_nat (if fs = [] then 0 else lba + 1 + file_sectors data)) name)"
  shows "\<exists>w'. ata_data (dev w') = [] \<and> stage2_chain b lits magic buf s drive (of_nat lba) (m, w) =
    (if stored_name name = K then
       do { (entry, klow, khigh, m2) \<leftarrow> load_elf_kernel magic TMP_ELF_ADDR (store_bytes m1 TMP_ELF_ADDR (padded data));
            Some (Some (entry, klow, khigh), m2, w') }
     else stage2_chain b lits magic buf s drive (of_nat (if fs = [] then 0 else lba + 1 + file_sectors data)) (m1, w'))"
proof -
  let ?next = "if fs = [] then 0 else lba + 1 + file_sectors data"
  note d = disk_at_Cons [OF D]
  have len: "length disk < 2 ^ 62" using D by (simp add: disk_at_def)
  have "0 < lba" "lba < 2 ^ 64" using D d(3) len by (simp_all add: disk_at_def)
  then have lnz: "(of_nat lba :: u64) \<noteq> 0" using of_nat_Suc_neq_0 [of "lba - 1", where 'a = 64] by simp
  from d(3) have "(lba + 1) * 512 \<le> length disk" by simp
  from stage2_read [OF R zero_less_one _ this, of buf m] obtain w1 where
    r1: "stage2_ide_read_drive b s drive buf (of_nat lba) 1 (m, w) = Some (m1, w1)" and w1: "ata_data (dev w1) = []"
    unfolding m1_def by (auto simp: d(1))
  have fp: "0 < file_sectors data" by (simp add: file_sectors_def)
  from stage2_read [OF w1 fp S d(3), of TMP_ELF_ADDR m1] obtain w2 where
    r2: "stage2_ide_read_drive b s drive TMP_ELF_ADDR (of_nat lba + 1) (of_nat (file_sectors data)) (m1, w1) =
      Some (store_bytes m1 TMP_ELF_ADDR (padded data), w2)" and w2: "ata_data (dev w2) = []"
    by (auto simp only: d(2) of_nat_add of_nat_1)
  note hm = header_in_memory [OF refl A, of m "of_nat (file_sectors data)" "of_nat ?next" name, folded m1_def]
  have name: "strneq m1 (buf + 16) (lits ''kernel.bin'') 32 \<noteq> 0 \<longleftrightarrow> stored_name name = K"
    unfolding K_def using hm(3) by (simp only: strneq_commute) (simp only: eq_commute)
  have sc: "(ucast (load64 m1 buf) :: u16) = of_nat (file_sectors data)"
    unfolding hm(1) using S by (simp add: word_unat_eq_iff unsigned_ucast_eq unat_of_nat take_bit_eq_mod mod_mod_cancel)
  have "stage2_chain b lits magic buf s drive (of_nat lba) (m, w) =
    (if stored_name name = K then
       do { (entry, klow, khigh, m2) \<leftarrow> load_elf_kernel magic TMP_ELF_ADDR (store_bytes m1 TMP_ELF_ADDR (padded data));
            Some (Some (entry, klow, khigh), m2, w2) }
     else stage2_chain b lits magic buf s drive (of_nat ?next) (m1, w1))"
    by (subst stage2_chain.simps) (simp add: lnz r1 name sc r2 hm(2))
  with w1 w2 show ?thesis by (cases "stored_name name = K") (simp_all, blast+)
qed

lemma stage2_chain_finds:
  assumes "disk_at disk lba fs" and "away buf 512 (lits ''kernel.bin'') 32" and "ata_data (dev w) = []"
    and "\<forall>(name, data) \<in> set fs. file_sectors data < 65536"
    and "find (\<lambda>(name, data). stored_name name = path_name m (lits ''kernel.bin'')) fs = Some (name, data)"
  shows "\<exists>m1 w'. agree_outside m m1 buf 512 \<and> stage2_chain b lits magic buf s drive (of_nat lba) (m, w) =
    do { (entry, klow, khigh, m2) \<leftarrow> load_elf_kernel magic TMP_ELF_ADDR (store_bytes m1 TMP_ELF_ADDR (padded data));
         Some (Some (entry, klow, khigh), m2, w') }"
  using assms(1,3-5)
proof (induction fs arbitrary: lba m w)
  case (Cons f fs)
  obtain na da where f: "f = (na, da)" by (cases f)
  let ?next = "if fs = [] then 0 else lba + 1 + file_sectors da"
  let ?m1 = "store_bytes m buf (DFSFileHeader (of_nat (file_sectors da)) (of_nat ?next) na)"
  have S: "file_sectors da < 65536" using Cons.prems(3) f by simp
  note D = Cons.prems(1) [unfolded f]
  have out: "agree_outside m ?m1 buf 512" by (rule agree_outside_store) simp_all
  note chain_step = stage2_chain_step [where lits = lits and m = m and magic = magic, OF D assms(2) Cons.prems(2) S]
  from chain_step obtain w1 where w1: "ata_data (dev w1) = []"
    and step: "stage2_chain b lits magic buf s drive (of_nat lba) (m, w) =
    (if stored_name na = path_name m (lits ''kernel.bin'') then
       do { (entry, klow, khigh, m2) \<leftarrow> load_elf_kernel magic TMP_ELF_ADDR (store_bytes ?m1 TMP_ELF_ADDR (padded da));
            Some (Some (entry, klow, khigh), m2, w1) }
     else stage2_chain b lits magic buf s drive (of_nat ?next) (?m1, w1))" by blast
  show ?case
  proof (cases "stored_name na = path_name m (lits ''kernel.bin'')")
    case True
    with Cons.prems(4) have "data = da" by (simp add: f)
    with True step out show ?thesis by (intro exI [of _ ?m1] exI [of _ w1]) simp
  next
    case False
    with Cons.prems(4) have fnd: "find (\<lambda>(name, data). stored_name name = path_name m (lits ''kernel.bin'')) fs = Some (name, data)"
      by (simp add: f)
    then have "fs \<noteq> []" by auto
    have pn: "path_name ?m1 (lits ''kernel.bin'') = path_name m (lits ''kernel.bin'')"
      by (rule header_in_memory(4) [OF refl assms(2)])
    have "\<exists>m1 w'. agree_outside ?m1 m1 buf 512 \<and> stage2_chain b lits magic buf s drive (of_nat (lba + 1 + file_sectors da)) (?m1, w1) =
      do { (entry, klow, khigh, m2) \<leftarrow> load_elf_kernel magic TMP_ELF_ADDR (store_bytes m1 TMP_ELF_ADDR (padded data));
           Some (Some (entry, klow, khigh), m2, w') }"
      by (rule Cons.IH [OF disk_at_Cons(4) [OF D] w1]) (use Cons.prems(3) fnd in \<open>simp_all add: pn f\<close>)
    with False step \<open>fs \<noteq> []\<close> agree_outside_trans [OF out] show ?thesis by auto
  qed
qed simp

end

lemma load_elf_result:
  assumes "elf_file m elf n" and "no_overlap (elf_sections m elf)" and "away magic 4 elf n"
  shows "\<exists>klow khigh m'. load_elf_kernel magic elf m = Some (fh_entry (elf32_fh m elf), klow, khigh, m') \<and>
    (\<forall>sh \<in> set (elf_sections m elf). sh_loaded sh \<longrightarrow> klow \<le> sh_addr sh \<and> sh_addr sh + sh_sz sh \<le> khigh \<and>
       load_bytes m' (sh_addr sh) (unat (sh_sz sh)) = section_bytes m elf sh) \<and>
    (\<forall>x. (\<forall>sh \<in> set (elf_sections m elf). sh_loaded sh \<longrightarrow> unat (sh_sz sh) \<le> unat (x - sh_addr sh)) \<and>
       4 \<le> unat (x - magic) \<longrightarrow> m' x = m x)"
proof -
  define sig :: "u8 list" where "sig = [0x7F, 0x45, 0x4C, 0x46]"
  let ?secs = "elf_sections m elf"
  define m1 where "m1 = store_bytes m magic sig"
  have l4: "length sig = 4" by (simp add: sig_def)
  have n: "52 \<le> n" and "bytes_at m elf sig" using assms(1) by (simp_all add: elf_file_def sig_def)
  then have at: "load_bytes m elf 4 = sig" using bytes_at_load l4 by metis
  have ag: "agree m m1 elf n" unfolding m1_def by (rule agree_store [OF agree_refl]) (simp_all add: l4 assms(3))
  have s1: "load_bytes m1 elf 4 = sig" using agree_load_bytes [OF ag, of 0 4] n at by simp
  have s2: "load_bytes m1 magic 4 = sig"
    unfolding m1_def by (rule load_store_bytes [of sig m magic, unfolded l4]) simp
  have ok: "strneq m1 elf magic 4 \<noteq> 0"
    using strneq_loop_iff [of m1 elf magic 0 4] s1 s2 by (simp add: strneq_def)
  obtain klow khigh m' where f: "fold (place m elf) ?secs (0xFFFFFFFF, 0, m1) = (klow, khigh, m')" by (metis prod.exhaust)
  have off: "fh_sh_offset (elf32_fh m1 elf) = fh_sh_offset (elf32_fh m elf)" by (rule agree_fh(2) [OF ag n])
  from load_sections_fold [OF assms(1) ag, of 0 "length ?secs" "0xFFFFFFFF" 0] f
  have r: "load_sections elf (elf + fh_sh_offset (elf32_fh m1 elf)) 0 (0xFFFFFFFF, 0, m1) = (klow, khigh, m')"
    by (simp add: off)
  have "agree m m' elf n" using fold_place_agree [OF ag, of ?secs "0xFFFFFFFF" 0] assms(1) f by (simp add: elf_file_def)
  then have e: "fh_entry (elf32_fh m' elf) = fh_entry (elf32_fh m elf)" by (rule agree_fh(3) [OF _ n])
  have run: "load_elf_kernel magic elf m = Some (fh_entry (elf32_fh m elf), klow, khigh, m')"
    unfolding load_elf_kernel_def Let_def sig_def [symmetric] m1_def [symmetric] r using ok by (simp add: e)
  have secs: "placed m elf (klow, khigh, m') sh" if "sh \<in> set ?secs" "sh_loaded sh" for sh
    using fold_place_placed [OF assms(2) that, of m elf "(0xFFFFFFFF, 0, m1)"] f by simp
  have frame: "m' x = m x" if "\<forall>sh \<in> set ?secs. sh_loaded sh \<longrightarrow> unat (sh_sz sh) \<le> unat (x - sh_addr sh)"
      "4 \<le> unat (x - magic)" for x
    using fold_place_frame [OF that(1), of m elf "0xFFFFFFFF" 0 m1] f that(2) l4 by (simp add: m1_def store_bytes_apply)
  show ?thesis
    by (rule exI [of _ klow], rule exI [of _ khigh], rule exI [of _ m'])
      (use run secs frame in \<open>simp add: placed_def\<close>)
qed

text \<open>The file is a matter of its own bytes alone.\<close>

lemma elf_file_agree:
  assumes ag: "agree m m' elf n" and F: "elf_file m elf n"
  shows "fh_entry (elf32_fh m' elf) = fh_entry (elf32_fh m elf)" "elf_sections m' elf = elf_sections m elf"
    "elf_file m' elf n" "sh \<in> set (elf_sections m elf) \<Longrightarrow> sh_loaded sh \<Longrightarrow> section_bytes m' elf sh = section_bytes m elf sh"
proof -
  have n: "52 \<le> n" "unat (fh_sh_offset (elf32_fh m elf)) + 40 * unat (fh_sh_count (elf32_fh m elf)) \<le> n"
    using F by (simp_all add: elf_file_def)
  note fh = agree_fh [OF ag n(1)]
  show "fh_entry (elf32_fh m' elf) = fh_entry (elf32_fh m elf)" by (rule fh(3))
  show secs: "elf_sections m' elf = elf_sections m elf"
    unfolding elf_sections_def fh(1,2)
    by (rule map_cong [OF refl], rule agree_sh [OF ag]) (use n(2) in simp)
  have "load_bytes m' elf 4 = load_bytes m elf 4" using agree_load_bytes [OF ag, of 0 4] n(1) by simp
  moreover have "bytes_at m elf [0x7F, 0x45, 0x4C, 0x46]" using F by (simp add: elf_file_def)
  ultimately have "bytes_at m' elf [0x7F, 0x45, 0x4C, 0x46]"
    by (simp add: numeral_eq_Suc)
  then show "elf_file m' elf n" using F unfolding elf_file_def secs fh(1,2) by blast
  show "section_bytes m' elf sh = section_bytes m elf sh" if "sh \<in> set (elf_sections m elf)" "sh_loaded sh"
  proof (cases "sh_type sh = 1")
    case True
    have "section_ok elf n sh" using F that by (simp add: elf_file_def)
    then have "load_bytes m' (elf + of_nat (unat (sh_offs sh))) (unat (sh_sz sh)) =
        load_bytes m (elf + of_nat (unat (sh_offs sh))) (unat (sh_sz sh))"
      using True by (intro agree_load_bytes [OF ag]) (simp add: section_ok_def)
    then show ?thesis by (simp add: section_bytes_def)
  qed (simp add: section_bytes_def)
qed

section \<open>Properties\<close>

text \<open>
  C15 For an ELF file in memory whose sections lie inside it and are to be placed outside it and apart from
  each other, \<^verbatim>\<open>load_elf_kernel\<close> returns the entry point of the file; every section with contents and an
  address is copied there, every section without contents is cleared, both within the bounds
  \<^verbatim>\<open>klow\<close> and \<^verbatim>\<open>khigh\<close>, and no byte outside the sections and the local array changes.
\<close>

theorem load_elf_kernel_loads:
  assumes "elf_file m elf n" and "no_overlap (elf_sections m elf)" and "away magic 4 elf n"
  shows "\<exists>klow khigh m'. load_elf_kernel magic elf m = Some (fh_entry (elf32_fh m elf), klow, khigh, m') \<and>
    (\<forall>sh \<in> set (elf_sections m elf). sh_loaded sh \<longrightarrow> klow \<le> sh_addr sh \<and> sh_addr sh + sh_sz sh \<le> khigh \<and>
       load_bytes m' (sh_addr sh) (unat (sh_sz sh)) = section_bytes m elf sh) \<and>
    (\<forall>x. (\<forall>sh \<in> set (elf_sections m elf). sh_loaded sh \<longrightarrow> unat (sh_sz sh) \<le> unat (x - sh_addr sh)) \<and>
       4 \<le> unat (x - magic) \<longrightarrow> m' x = m x)"
  using assms by (rule load_elf_result)

text \<open>A file of one section with four bytes, to be placed at 1 MiB, which is also the entry point.\<close>

definition sample_elf :: "u8 list" where
  "sample_elf = [0x7F, 0x45, 0x4C, 0x46] @ replicate 20 0 @ [0, 0, 0x10, 0] @ replicate 4 0 @ [52, 0, 0, 0] @
     replicate 12 0 @ [1, 0, 0, 0] @
     [0, 0, 0, 0, 1, 0, 0, 0, 0, 0, 0, 0, 0, 0, 0x10, 0, 92, 0, 0, 0, 4, 0, 0, 0] @ replicate 16 0 @ [1, 2, 3, 4]"

definition sample_elf_mem :: mem where
  "sample_elf_mem a = (let k = unat (a - 0x200000) in if k < 96 then sample_elf ! k else 0)"

lemma sample_elf_fields:
  "fh_entry (elf32_fh sample_elf_mem 0x200000) = 0x100000"
  "unat (fh_sh_offset (elf32_fh sample_elf_mem 0x200000)) = 52"
  "unat (fh_sh_count (elf32_fh sample_elf_mem 0x200000)) = 1"
  "bytes_at sample_elf_mem 0x200000 [0x7F, 0x45, 0x4C, 0x46]"
  "load_bytes sample_elf_mem 0x20005C 4 = [1, 2, 3, 4]"
  by code_simp+

definition sample_section :: elf32_sh_t where
  "sample_section = \<lparr>sh_name_stab_offs = 0, sh_type = 1, sh_flags = 0, sh_addr = 0x100000, sh_offs = 92, sh_sz = 4,
     sh_link = 0, sh_info = 0, sh_addr_align = 0, sh_ent_size = 0\<rparr>"

lemma sample_elf_section: "elf32_sh sample_elf_mem 0x200034 = sample_section"
  by code_simp

lemma sample_elf_sections: "elf_sections sample_elf_mem 0x200000 = [sample_section]"
  by (simp add: elf_sections_def sample_elf_fields(2,3) sample_elf_section)

lemma sample_away: "away 0x100000 4 0x200000 96" "away 0x7000 4 0x200000 96"
proof -
  have "unat (0x100000 + of_nat i :: addr) = 0x100000 + i" "unat (0x1F9000 + of_nat i :: addr) = 0x1F9000 + i" if "i < 96" for i
    using that by (simp_all add: unat_word_ariths unat_of_nat)
  then show "away 0x100000 4 0x200000 96" "away 0x7000 4 0x200000 96" by (auto simp: away_def)
qed

lemma sample_elf_file: "elf_file sample_elf_mem 0x200000 96" "no_overlap (elf_sections sample_elf_mem 0x200000)"
  unfolding elf_file_def sample_elf_sections using sample_away(1) sample_elf_fields(2,3,4)
  by (simp_all add: section_ok_def sample_section_def no_overlap_def)

lemma sample_section_loads:
  "sh_loaded sample_section" "section_bytes sample_elf_mem 0x200000 sample_section = [1, 2, 3, 4]"
  "sh_addr sample_section = 0x100000" "sh_sz sample_section = 4"
  using sample_elf_fields(5) by (simp_all add: sh_loaded_def section_bytes_def sample_section_def)

theorem load_elf_kernel_loads_witness:
  "\<exists>klow khigh m'. load_elf_kernel 0x7000 0x200000 sample_elf_mem = Some (0x100000, klow, khigh, m') \<and>
     klow \<le> 0x100000 \<and> 0x100004 \<le> khigh \<and> load_bytes m' 0x100000 4 = [1, 2, 3, 4]"
  using load_elf_kernel_loads [OF sample_elf_file sample_away(2)] sample_section_loads
  unfolding sample_elf_sections sample_elf_fields(1) by auto

end
