(* ===== verification/Stage2_Ide.thy ===== *)
theory Stage2_Ide
  imports Stage2
begin

text \<open>
  The IDE driver of the boot loader, \<^verbatim>\<open>stage2/ide.c\<close>, down to the bytes: the identification buffer and the
  table of drives are static arrays in memory, and the driver stores every field of a drive at its offset in
  \<^verbatim>\<open>ide_drive_t\<close>.  The channels and the number of drives are values.  The addresses of the arrays are
  parameters.

  The lemmas show that the search for drives does to the bytes what the driver of the kernel, whose model
  keeps the table as a list of records, does to the records.
\<close>

section \<open>The drive table in memory\<close>

record ide_statics =
  st_drives :: addr
  st_id_buf :: addr

definition sizeof_ide_drive :: u32 where "sizeof_ide_drive = 56"

text \<open>\<^verbatim>\<open>ide_drive_t\<close>: three bytes, 41 bytes of the name, two half words and two words, without padding.\<close>

definition ide_drive_at :: "mem \<Rightarrow> addr \<Rightarrow> ide_drive_t" where
  "ide_drive_at m a =
     \<lparr>drv_channel = m a, drv_bus = m (a + 1), drv_type = m (a + 2), drv_name = load_bytes m (a + 3) 41,
      drv_signature = load16 m (a + 44), drv_capabilities = load16 m (a + 46), drv_cmd_sets = load32 m (a + 48),
      drv_size = load32 m (a + 52)\<rparr>"

section \<open>Definitions\<close>

definition s2_ide_wait_bsy :: "'w bus \<Rightarrow> u16 \<Rightarrow> 'w \<Rightarrow> 'w option" where
  "s2_ide_wait_bsy b port w = map_option snd (poll_until b port (\<lambda>v. v AND ATA_SR_BSY = 0) w)"

definition s2_ide_await_drq :: "'w bus \<Rightarrow> u16 \<Rightarrow> 'w \<Rightarrow> 'w option" where
  "s2_ide_await_drq b port w = map_option snd (poll_until b port (\<lambda>v. v AND ATA_SR_DRQ \<noteq> 0) w)"

definition s2_ide_delay :: "'w bus \<Rightarrow> u16 \<Rightarrow> 'w \<Rightarrow> 'w option" where
  "s2_ide_delay b port w = for_range 0 4 (\<lambda>i w. Some (snd (inb b port w))) w"

text \<open>The two loops over the name at the address \<open>name\<close>.\<close>

function s2_copy_name :: "addr \<Rightarrow> addr \<Rightarrow> u32 \<Rightarrow> mem \<Rightarrow> mem" where
  "s2_copy_name name id_buf i m =
     (if i < 40 then
        let m = m(name + i := m (id_buf + of_nat ATA_IDENT_MODEL + i + 1));
            m = m(name + i + 1 := m (id_buf + of_nat ATA_IDENT_MODEL + i))
        in s2_copy_name name id_buf (i + 2) m
      else m)"
  by pat_completeness auto
termination
proof (relation "measure (\<lambda>(name, id_buf, i, m). 40 - unat i)", simp)
  fix name id_buf i :: u32 and m x xa :: mem
  assume "i < 40"
  then have i: "unat i < 40" by (simp add: word_less_nat_alt)
  then have "unat (i + 2) = unat i + 2" by (subst unat_add_bounded) simp_all
  with i show "((name, id_buf, i + 2, xa), name, id_buf, i, m) \<in> measure (\<lambda>(name, id_buf, i, m). 40 - unat i)" by simp
qed

function s2_trim_name :: "addr \<Rightarrow> u32 \<Rightarrow> mem \<Rightarrow> mem" where
  "s2_trim_name name i m =
     (if i \<noteq> 0 then
        if m (name + i) \<noteq> 0x20 then m(name + i + 1 := 0) else s2_trim_name name (i - 1) m
      else m)"
  by pat_completeness auto
termination
  by (relation "measure (\<lambda>(name, i, m). unat i)") (auto simp: unat_minus_one unat_gt_0)

declare s2_copy_name.simps [simp del] s2_trim_name.simps [simp del]

definition s2_add_drive :: "ide_statics \<Rightarrow> u8 \<Rightarrow> u8 \<Rightarrow> u16 \<Rightarrow> u32 \<times> mem \<Rightarrow> u32 \<times> mem" where
  "s2_add_drive st channel bus type = (\<lambda>(count, m).
     let id_buf = st_id_buf st;
         drive = st_drives st + sizeof_ide_drive * count;
         count = count + 1;
         m = m(drive + 2 := ucast type);
         m = m(drive := channel);
         m = m(drive + 1 := bus);
         m = store16 m (drive + 44) (load16 m (id_buf + of_nat ATA_IDENT_DEVICETYPE));
         m = store16 m (drive + 46) (load16 m (id_buf + of_nat ATA_IDENT_CAPABILITIES));
         m = store32 m (drive + 48) (load32 m (id_buf + of_nat ATA_IDENT_COMMANDSETS));
         m = store32 m (drive + 52)
           (if load32 m (drive + 48) AND push_bit 26 1 \<noteq> 0 then load32 m (id_buf + of_nat ATA_IDENT_MAX_LBA_EXT)
            else load32 m (id_buf + of_nat ATA_IDENT_MAX_LBA));
         m = s2_copy_name (drive + 3) id_buf 0 m;
         m = s2_trim_name (drive + 3) (40 - 1) m
     in (count, m))"

definition s2_read_id :: "'w bus \<Rightarrow> u16 \<Rightarrow> addr \<times> mem \<times> 'w \<Rightarrow> (addr \<times> mem \<times> 'w) option" where
  "s2_read_id b base st =
     for_range 0 256 (\<lambda>i (it, m, w).
       let (v, w) = inw b (base + ATA_REG_DATA) w in Some (it + 2, store16 m it v, w)) st"

definition s2_found ::
    "'w bus \<Rightarrow> ide_statics \<Rightarrow> u16 \<Rightarrow> u8 \<Rightarrow> u8 \<Rightarrow> u16 \<Rightarrow> u32 \<times> mem \<times> 'w \<Rightarrow> (u32 \<times> mem \<times> 'w) option" where
  "s2_found b st base channel bus type = (\<lambda>(count, m, w).
     do { (it, m, w) \<leftarrow> s2_read_id b base (st_id_buf st, m, w);
          let (count, m) = s2_add_drive st channel bus type (count, m);
          Some (count, m, w) })"

partial_function (option) s2_poll_ident :: "'w bus \<Rightarrow> u16 \<Rightarrow> 'w \<Rightarrow> (bool \<times> 'w) option" where
  "s2_poll_ident b port w =
     (let (status, w) = inb b port w
      in if status AND ATA_SR_ERR \<noteq> 0 then Some (False, w)
         else if status AND ATA_SR_DRQ \<noteq> 0 then Some (True, w)
         else s2_poll_ident b port w)"

definition s2_ide_check_and_add_drive ::
    "'w bus \<Rightarrow> ide_statics \<Rightarrow> ide_channel_t list \<Rightarrow> u8 \<Rightarrow> u8 \<Rightarrow> u32 \<times> mem \<times> 'w \<Rightarrow> (u32 \<times> mem \<times> 'w) option" where
  "s2_ide_check_and_add_drive b st chs channel bus = (\<lambda>(count, m, w).
     do { ch \<leftarrow> arr_get chs (ucast channel);
          let base = base_port ch;
          let ctrl = ctrl_port ch;
          let type = (ucast IDE_ATA :: u16);
          let w = outb b (base + ATA_REG_DEVSEL) (0xA0 OR push_bit 4 bus) w;
          w \<leftarrow> s2_ide_delay b ctrl w;
          let w = outb b (base + ATA_REG_LBA0) 0 w;
          let w = outb b (base + ATA_REG_LBA1) 0 w;
          let w = outb b (base + ATA_REG_LBA2) 0 w;
          let w = outb b (base + ATA_REG_COMMAND) ATA_CMD_IDENTIFY w;
          w \<leftarrow> s2_ide_delay b ctrl w;
          let (status, w) = inb b (base + ATA_REG_STATUS) w;
          if status = 0 then Some (count, m, w)
          else do {
            w \<leftarrow> s2_ide_wait_bsy b (base + ATA_REG_STATUS) w;
            let (lba1, w) = inb b (base + ATA_REG_LBA1) w;
            let (lba2, w) = inb b (base + ATA_REG_LBA2) w;
            if (lba1 = 0x14 \<and> lba2 = 0xEB) \<or> (lba1 = 0x69 \<and> lba2 = 0x96) then
              do { let type = ucast IDE_ATAPI;
                   let w = outb b (base + ATA_REG_COMMAND) ATA_CMD_IDENTIFY_PACKET w;
                   w \<leftarrow> s2_ide_delay b ctrl w;
                   w \<leftarrow> s2_ide_await_drq b (base + ATA_REG_STATUS) w;
                   s2_found b st base channel bus type (count, m, w) }
            else if lba1 \<noteq> 0 \<or> lba2 \<noteq> 0 then Some (count, m, w)
            else do {
              (found, w) \<leftarrow> s2_poll_ident b (base + ATA_REG_STATUS) w;
              if found then s2_found b st base channel bus type (count, m, w) else Some (count, m, w) } } })"

definition s2_ide_print_error :: "u8 \<Rightarrow> string list" where
  "s2_ide_print_error err =
     ''ATA Error:'' # map snd (filter (\<lambda>(bit, _). err AND bit \<noteq> 0)
       [(0x80, ''- Bad block''), (0x40, ''- Uncorrectable data''), (0x20, ''- Media changed''), (0x10, ''- ID mark not found''),
        (0x08, ''- Media change request''), (0x04, ''- Command aborted''), (0x02, ''- Track 0 not found''),
        (0x01, ''- No address mark'')])"

text \<open>The result is \<^verbatim>\<open>*out_drive_count\<close>, the pointer to the table and the channels, with the count and the memory.\<close>

definition s2_ide_initialize ::
    "'w bus \<Rightarrow> ide_statics \<Rightarrow> u32 \<Rightarrow> u32 \<Rightarrow> u32 \<Rightarrow> u32 \<Rightarrow> u32 \<Rightarrow> u32 \<times> mem \<times> 'w \<Rightarrow>
      (u32 \<times> addr \<times> ide_channel_t list \<times> u32 \<times> mem \<times> 'w) option" where
  "s2_ide_initialize b st bar0 bar1 bar2 bar3 bar4 = (\<lambda>(count, m, w).
     do { let bar0 = (if bar0 = 0 \<or> bar0 = 1 then 0x1F0 else bar0);
          let bar1 = (if bar1 = 0 \<or> bar1 = 1 then 0x3F6 else bar1);
          let bar2 = (if bar2 = 0 \<or> bar2 = 1 then 0x170 else bar2);
          let bar3 = (if bar3 = 0 \<or> bar3 = 1 then 0x376 else bar3);
          let chs = [\<lparr>base_port = ucast bar0, ctrl_port = ucast bar1, bmide_port = ucast bar4\<rparr>,
             \<lparr>base_port = ucast bar2, ctrl_port = ucast bar3, bmide_port = ucast (bar4 + 8)\<rparr>];
          let w = outb b (ucast bar1 + ATA_REG_DEVCTRL) 2 w;
          let w = outb b (ucast bar3 + ATA_REG_DEVCTRL) 2 w;
          s \<leftarrow> s2_ide_check_and_add_drive b st chs ATA_PRIMARY ATA_MASTER (count, m, w);
          s \<leftarrow> s2_ide_check_and_add_drive b st chs ATA_PRIMARY ATA_SLAVE s;
          s \<leftarrow> s2_ide_check_and_add_drive b st chs ATA_SECONDARY ATA_MASTER s;
          s \<leftarrow> s2_ide_check_and_add_drive b st chs ATA_SECONDARY ATA_SLAVE s;
          Some (fst s, st_drives st, chs, s) })"

section \<open>The two copies of the loops\<close>

lemma s2_waits [simp]:
  "s2_ide_wait_bsy b port w = ide_wait_bsy b port w" "s2_ide_await_drq b port w = ide_await_drq b port w"
  "s2_ide_delay b port w = Some (ide_delay b port w)"
proof -
  show "s2_ide_wait_bsy b port w = ide_wait_bsy b port w"
    by (cases "poll_until b port (\<lambda>v. v AND ATA_SR_BSY = 0) w") (auto simp: s2_ide_wait_bsy_def ide_wait_bsy_def)
  show "s2_ide_await_drq b port w = ide_await_drq b port w"
    by (cases "poll_until b port (\<lambda>v. v AND ATA_SR_DRQ \<noteq> 0) w") (auto simp: s2_ide_await_drq_def ide_await_drq_def)
  have four: "4 = Suc (Suc (Suc (Suc 0)))" by simp
  have "after_reads b port 4 w = snd (inb b port (snd (inb b port (snd (inb b port (snd (inb b port w)))))))"
    unfolding four by simp
  then show "s2_ide_delay b port w = Some (ide_delay b port w)"
    by (simp add: s2_ide_delay_def ide_delay_def for_range.simps)
qed

lemma s2_poll_ident [simp]: "s2_poll_ident b port w = ide_poll_ident b port w"
proof -
  have a: "ide_poll_ident b port w = Some r" if "s2_poll_ident b port w = Some r" for r
    using that
  proof (rule s2_poll_ident.raw_induct [rotated])
    fix f and b :: "'a bus" and port w r
    assume IH: "\<And>b port w r. f b port w = Some r \<Longrightarrow> ide_poll_ident b port w = Some r"
      and run: "(let (status, w) = inb b port w
        in if status AND ATA_SR_ERR \<noteq> 0 then Some (False, w)
           else if status AND ATA_SR_DRQ \<noteq> 0 then Some (True, w) else f b port w) = Some r"
    then show "ide_poll_ident b port w = Some r"
      by (subst ide_poll_ident.simps) (auto simp: case_prod_beta Let_def split: if_splits)
  qed
  have c: "s2_poll_ident b port w = Some r" if "ide_poll_ident b port w = Some r" for r
    using that
  proof (rule ide_poll_ident.raw_induct [rotated])
    fix f and b :: "'a bus" and port w r
    assume IH: "\<And>b port w r. f b port w = Some r \<Longrightarrow> s2_poll_ident b port w = Some r"
      and run: "(let (status, w) = inb b port w
        in if status AND ATA_SR_ERR \<noteq> 0 then Some (False, w)
           else if status AND ATA_SR_DRQ \<noteq> 0 then Some (True, w) else f b port w) = Some r"
    then show "s2_poll_ident b port w = Some r"
      by (subst s2_poll_ident.simps) (auto simp: case_prod_beta Let_def split: if_splits)
  qed
  from a c show ?thesis by (cases "ide_poll_ident b port w"; cases "s2_poll_ident b port w") auto
qed

lemma s2_ide_print_error_eq: "s2_ide_print_error err = ide_print_error err"
  by (simp add: s2_ide_print_error_def ide_print_error_def)

section \<open>Bytes and lists\<close>

lemma offsets_distinct: "j < 4294967296 \<Longrightarrow> k < 4294967296 \<Longrightarrow> (of_nat j :: addr) = of_nat k \<longleftrightarrow> j = k"
  by (metis unat_of_nat_small)

lemma load_bytes_upd:
  assumes "k < n" and "n < 4294967296"
  shows "load_bytes (m(a + of_nat k := v)) a n = (load_bytes m a n)[k := v]"
  using assms by (intro nth_equalityI) (auto simp: load_bytes_nth nth_list_update offsets_distinct)

lemma agree_outside_refl [simp]: "agree_outside m m a n"
  by (simp add: agree_outside_def)

lemma agree_outside_upd: "k < n \<Longrightarrow> n < 4294967296 \<Longrightarrow> agree_outside m (m(a + of_nat k := v)) a n"
  by (auto simp: agree_outside_def unat_of_nat_small)

text \<open>What is stored among the \<open>n\<close> bytes at \<open>a\<close> does not change a buffer apart from them.\<close>

lemma agree_away: "agree_outside m m' a n \<Longrightarrow> away a n b k \<Longrightarrow> agree m m' b k"
  by (simp add: agree_outside_def agree_def away_def)

lemma away_apart:
  assumes "away a n b k" and "i < k" and "j < n" and "n < 4294967296"
  shows "b + of_nat i \<noteq> a + of_nat j"
proof
  assume "b + of_nat i = a + of_nat j"
  then have "unat (b + of_nat i - a) = j" using assms(3,4) by (simp add: unat_of_nat_small)
  with assms(1-3) show False unfolding away_def by (metis not_le)
qed

text \<open>The identification buffer as a list.\<close>

lemma buf_loads:
  assumes "load_bytes m a 512 = buf"
  shows "off + 2 \<le> 512 \<Longrightarrow> load16 m (a + of_nat off) = buf16 buf off"
    and "off + 4 \<le> 512 \<Longrightarrow> load32 m (a + of_nat off) = buf32 buf off"
proof -
  have nth: "buf ! unat (of_nat off + of_nat j :: u32) = m (a + of_nat off + of_nat j)" if "off + j < 512" for off j
  proof -
    have "unat (of_nat (off + j) :: u32) = off + j" using that by (intro unat_of_nat_small) simp
    then show ?thesis using load_bytes_nth [OF that, of m a] assms by (simp add: add.assoc)
  qed
  show "off + 2 \<le> 512 \<Longrightarrow> load16 m (a + of_nat off) = buf16 buf off"
    using nth [of off 0] nth [of off 1] by (simp add: load16_def buf16_def)
  show "off + 4 \<le> 512 \<Longrightarrow> load32 m (a + of_nat off) = buf32 buf off"
    using nth [of off 0] nth [of off 1] nth [of off 2] nth [of off 3]
    by (simp add: load32_def load16_def buf32_def add.assoc)
qed

lemma s2_copy_name_result:
  assumes "unat i + 2 * n = 40" and "load_bytes m b 512 = buf" and "away a 41 b 512"
  shows "load_bytes (s2_copy_name a b i m) a 41 = ide_copy_name buf (unat i) n (load_bytes m a 41) \<and>
    agree_outside m (s2_copy_name a b i m) a 41"
  using assms(1,2)
proof (induction n arbitrary: i m)
  case 0
  then have "\<not> i < 40" by (simp add: word_less_nat_alt)
  then show ?case using 0 by (simp add: s2_copy_name.simps [of a b i])
next
  case (Suc n)
  let ?i = "unat i"
  have i: "?i < 40" "i < 40" using Suc.prems(1) by (simp_all add: word_less_nat_alt)
  have i2: "unat (i + 2) = ?i + 2" using i(1) by (subst unat_add_bounded) simp_all
  define c0 where "c0 = buf ! (ATA_IDENT_MODEL + ?i)"
  define c1 where "c1 = buf ! (ATA_IDENT_MODEL + ?i + 1)"
  let ?m1 = "m(a + of_nat ?i := c1)"
  let ?m2 = "?m1(a + of_nat (?i + 1) := c0)"
  have nth: "m (b + of_nat k) = buf ! k" if "k < 512" for k
    using load_bytes_nth [OF that, of m b] Suc.prems(2) by simp
  have k: "ATA_IDENT_MODEL + ?i + 1 < 512" using i(1) by (simp add: ATA_IDENT_MODEL_def)
  have r1: "m (b + of_nat ATA_IDENT_MODEL + i + 1) = c1"
    using nth [OF k] by (simp add: c1_def algebra_simps)
  have "?m1 (b + of_nat (ATA_IDENT_MODEL + ?i)) = m (b + of_nat (ATA_IDENT_MODEL + ?i))"
    using away_apart [OF assms(3), of "ATA_IDENT_MODEL + ?i" ?i] i(1) k by simp
  then have r0: "?m1 (b + of_nat ATA_IDENT_MODEL + i) = c0"
    using nth [of "ATA_IDENT_MODEL + ?i"] k by (simp add: c0_def add.assoc)
  have idx: "a + of_nat ?i = a + i" "a + of_nat (?i + 1) = a + i + 1" by (simp_all add: add.assoc)
  have "s2_copy_name a b i m = s2_copy_name a b (i + 2) ((m(a + i := m (b + of_nat ATA_IDENT_MODEL + i + 1)))
      (a + i + 1 := (m(a + i := m (b + of_nat ATA_IDENT_MODEL + i + 1))) (b + of_nat ATA_IDENT_MODEL + i)))"
    by (subst s2_copy_name.simps) (simp only: i(2) if_True Let_def)
  then have step: "s2_copy_name a b i m = s2_copy_name a b (i + 2) ?m2" using r0 by (simp only: r1 idx)
  have o1: "agree_outside m ?m1 a 41" "agree_outside ?m1 ?m2 a 41"
    using i(1) by (intro agree_outside_upd; simp)+
  then have o: "agree_outside m ?m2 a 41" by (rule agree_outside_trans)
  from agree_away [OF o assms(3)] have "load_bytes ?m2 b 512 = load_bytes m b 512"
    unfolding load_bytes_eq_map agree_def by simp
  then have buf: "load_bytes ?m2 b 512 = buf" using Suc.prems(2) by simp
  have l: "load_bytes ?m2 a 41 = (load_bytes m a 41)[?i := c1, ?i + 1 := c0]"
    using i(1) by (subst load_bytes_upd, simp, simp, subst load_bytes_upd) simp_all
  have "unat (i + 2) + 2 * n = 40" using i2 Suc.prems(1) by simp
  note IH = Suc.IH [OF this buf, unfolded i2]
  have "agree_outside m (s2_copy_name a b (i + 2) ?m2) a 41" using o IH by (blast intro: agree_outside_trans)
  moreover have "ide_copy_name buf ?i (Suc n) (load_bytes m a 41) = ide_copy_name buf (?i + 2) n (load_bytes ?m2 a 41)"
    unfolding ide_copy_name.simps c0_def [symmetric] c1_def [symmetric] l ..
  ultimately show ?case unfolding step using IH by (simp only: simp_thms)
qed

lemma s2_trim_name_result:
  assumes "i < 40"
  shows "load_bytes (s2_trim_name a (of_nat i) m) a 41 = ide_trim_name i (load_bytes m a 41) \<and>
    agree_outside m (s2_trim_name a (of_nat i) m) a 41"
  using assms
proof (induction i)
  case 0
  show ?case by (simp add: s2_trim_name.simps)
next
  case (Suc i)
  have nz: "(of_nat (Suc i) :: u32) \<noteq> 0" using Suc.prems by (intro of_nat_Suc_neq_0) simp
  have pred: "(of_nat (Suc i) - 1 :: u32) = of_nat i" by simp
  have at: "a + of_nat (Suc i) + 1 = a + of_nat (Suc i + 1)" by (simp add: add.commute add.left_commute)
  have l: "load_bytes m a 41 ! Suc i = m (a + of_nat (Suc i))" using Suc.prems by (intro load_bytes_nth) simp
  have step: "s2_trim_name a (of_nat (Suc i)) m =
      (if load_bytes m a 41 ! Suc i \<noteq> 32 then m(a + of_nat (Suc i + 1) := 0) else s2_trim_name a (of_nat i) m)"
    unfolding l at [symmetric] by (subst s2_trim_name.simps) (use nz pred in \<open>simp del: of_nat_Suc\<close>)
  show ?case
  proof (cases "load_bytes m a 41 ! Suc i = 32")
    case True
    with Suc step show ?thesis by simp
  next
    case False
    have "load_bytes (m(a + of_nat (Suc i + 1) := 0)) a 41 = (load_bytes m a 41)[Suc i + 1 := 0]"
      "agree_outside m (m(a + of_nat (Suc i + 1) := 0)) a 41"
      using Suc.prems by (intro load_bytes_upd agree_outside_upd; simp)+
    moreover have "s2_trim_name a (of_nat (Suc i)) m = m(a + of_nat (Suc i + 1) := 0)"
      using False by (simp only: step if_True simp_thms)
    moreover have "ide_trim_name (Suc i) (load_bytes m a 41) = (load_bytes m a 41)[Suc i + 1 := 0]" using False by simp
    ultimately show ?thesis by (simp only: simp_thms)
  qed
qed


section \<open>Storing a drive\<close>

lemma ide_drive_at_cong:
  assumes "agree m m' a 56"
  shows "ide_drive_at m' a = ide_drive_at m a"
proof -
  have byte: "m' (a + of_nat k) = m (a + of_nat k)" if "k < 56" for k using assms that by (simp add: agree_def)
  have w: "load32 m' (a + of_nat k) = load32 m (a + of_nat k)" if "k + 4 \<le> 56" for k
    using agree_load32 [OF assms that] .
  have h: "load16 m' (a + of_nat k) = load16 m (a + of_nat k)" if "k + 2 \<le> 56" for k
    using agree_load16 [OF assms that] .
  have "load_bytes m' (a + of_nat 3) 41 = load_bytes m (a + of_nat 3) 41" using agree_load_bytes [OF assms, of 3 41] by simp
  then show ?thesis unfolding ide_drive_at_def
    using byte [of 0] byte [of 1] byte [of 2] h [of 44] h [of 46] w [of 48] w [of 52] by simp
qed

text \<open>The stores to the fields of the drive at \<open>d\<close>, apart from the name.\<close>

definition put_fields :: "addr \<Rightarrow> u8 \<Rightarrow> u8 \<Rightarrow> u8 \<Rightarrow> u16 \<Rightarrow> u16 \<Rightarrow> u32 \<Rightarrow> u32 \<Rightarrow> mem \<Rightarrow> mem" where
  "put_fields d channel bus type sig cap cmds sz m =
     store32 (store32 (store16 (store16 (m(d + 2 := type, d := channel, d + 1 := bus)) (d + 44) sig) (d + 46) cap)
       (d + 48) cmds) (d + 52) sz"

lemma put_fields_apply:
  "put_fields d channel bus type sig cap cmds sz m x =
     (if x = d then channel else if x = d + 1 then bus else if x = d + 2 then type
      else if x = d + 44 then ucast sig else if x = d + 45 then ucast (drop_bit 8 sig)
      else if x = d + 46 then ucast cap else if x = d + 47 then ucast (drop_bit 8 cap)
      else if x = d + 48 then ucast cmds else if x = d + 49 then ucast (drop_bit 8 cmds)
      else if x = d + 50 then ucast (drop_bit 16 cmds) else if x = d + 51 then ucast (drop_bit 24 cmds)
      else if x = d + 52 then ucast sz else if x = d + 53 then ucast (drop_bit 8 sz)
      else if x = d + 54 then ucast (drop_bit 16 sz) else if x = d + 55 then ucast (drop_bit 24 sz) else m x)"
  by (simp add: put_fields_def store32_bytes store16_def add.assoc)


lemma put_fields_outside:
  assumes "56 \<le> unat (x - d) \<or> 3 \<le> unat (x - d) \<and> unat (x - d) < 44"
  shows "put_fields d channel bus type sig cap cmds sz m x = m x"
  unfolding put_fields_apply using assms by (simp split: if_split) (intro conjI impI; auto)

lemma put_fields_agree: "agree_outside m (put_fields d channel bus type sig cap cmds sz m) d 56"
  by (simp add: agree_outside_def put_fields_outside)

lemma load16_bytes: "m a = ucast v \<Longrightarrow> m (a + 1) = ucast (drop_bit 8 v) \<Longrightarrow> load16 m a = v" for v :: u16
  using load16_slice [of m a 0 v] by simp

lemma load32_bytes:
  fixes v :: u32
  assumes "m a = ucast v" "m (a + 1) = ucast (drop_bit 8 v)" "m (a + 2) = ucast (drop_bit 16 v)" "m (a + 3) = ucast (drop_bit 24 v)"
  shows "load32 m a = v"
proof -
  have "load16 m a = ucast (drop_bit 0 v)" "load16 m (a + 2) = ucast (drop_bit (0 + 16) v)"
    using load16_slice [of m a 0 v] load16_slice [of m "a + 2" 16 v] assms by (simp_all add: add.assoc)
  from load32_slice [OF this] show ?thesis by simp
qed

lemma put_fields_fields:
  fixes m :: mem and d :: addr and channel bus type :: u8 and sig cap :: u16 and cmds sz :: u32
  defines "m' \<equiv> put_fields d channel bus type sig cap cmds sz m"
  shows "m' d = channel" "m' (d + 1) = bus" "m' (d + 2) = type" "load16 m' (d + 44) = sig" "load16 m' (d + 46) = cap"
    "load32 m' (d + 48) = cmds" "load32 m' (d + 52) = sz" "load_bytes m' (d + 3) 41 = load_bytes m (d + 3) 41"
proof -
  show "m' d = channel" "m' (d + 1) = bus" "m' (d + 2) = type" by (simp_all add: m'_def put_fields_apply)
  show "load16 m' (d + 44) = sig" "load16 m' (d + 46) = cap"
    by (rule load16_bytes; simp add: m'_def put_fields_apply add.assoc)+
  show "load32 m' (d + 48) = cmds" "load32 m' (d + 52) = sz"
    by (rule load32_bytes; simp add: m'_def put_fields_apply add.assoc)+
  have "m' (d + 3 + of_nat k) = m (d + 3 + of_nat k)" if "k < 41" for k
  proof -
    have "d + 3 + of_nat k - d = of_nat (3 + k)" by simp
    then have "unat (d + 3 + of_nat k - d) = 3 + k" using that by (simp only: unat_of_nat_small)
    then show ?thesis unfolding m'_def using that by (intro put_fields_outside) simp
  qed
  then show "load_bytes m' (d + 3) 41 = load_bytes m (d + 3) 41" unfolding load_bytes_eq_map by simp
qed


text \<open>The record of a drive, from the identification data.\<close>

definition ident_drive :: "u8 \<Rightarrow> u8 \<Rightarrow> u8 \<Rightarrow> u8 list \<Rightarrow> ide_drive_t \<Rightarrow> ide_drive_t" where
  "ident_drive channel bus type buf drive =
     drive\<lparr>drv_type := type, drv_channel := channel, drv_bus := bus,
       drv_signature := buf16 buf ATA_IDENT_DEVICETYPE, drv_capabilities := buf16 buf ATA_IDENT_CAPABILITIES,
       drv_cmd_sets := buf32 buf ATA_IDENT_COMMANDSETS,
       drv_size := (if buf32 buf ATA_IDENT_COMMANDSETS AND push_bit 26 1 \<noteq> 0 then buf32 buf ATA_IDENT_MAX_LBA_EXT
         else buf32 buf ATA_IDENT_MAX_LBA),
       drv_name := ide_trim_name 39 (ide_copy_name buf 0 20 (drv_name drive))\<rparr>"

lemma ide_add_drive_ident:
  assumes "unat (ide_drive_count s) < length (ide_drives s)"
  shows "ide_add_drive channel bus type buf s =
    Some (s\<lparr>ide_drives := (ide_drives s)[unat (ide_drive_count s) :=
        ident_drive channel bus type buf (ide_drives s ! unat (ide_drive_count s))],
      ide_drive_count := ide_drive_count s + 1\<rparr>)"
  using assms by (simp add: ide_add_drive_def ident_drive_def Let_def del: ide_trim_name.simps ide_copy_name.simps)

lemma s2_add_drive_fields:
  fixes m :: mem
  assumes buf: "load_bytes m (st_id_buf st) 512 = buf" and sep: "away d 56 (st_id_buf st) 512"
    and d: "d = st_drives st + sizeof_ide_drive * count"
  shows "s2_add_drive st channel bus type (count, m) =
    (count + 1, s2_trim_name (d + 3) 39 (s2_copy_name (d + 3) (st_id_buf st) 0
       (put_fields d channel bus (ucast type) (buf16 buf ATA_IDENT_DEVICETYPE) (buf16 buf ATA_IDENT_CAPABILITIES)
          (buf32 buf ATA_IDENT_COMMANDSETS)
          (if buf32 buf ATA_IDENT_COMMANDSETS AND push_bit 26 1 \<noteq> 0 then buf32 buf ATA_IDENT_MAX_LBA_EXT
           else buf32 buf ATA_IDENT_MAX_LBA) m)))"
proof -
  let ?I = "st_id_buf st"
  define m0 where "m0 = m(d + 2 := ucast type, d := channel, d + 1 := bus)"
  define m1 where "m1 = store16 m0 (d + 44) (buf16 buf ATA_IDENT_DEVICETYPE)"
  define m2 where "m2 = store16 m1 (d + 46) (buf16 buf ATA_IDENT_CAPABILITIES)"
  define m3 where "m3 = store32 m2 (d + 48) (buf32 buf ATA_IDENT_COMMANDSETS)"
  have "agree_outside m m0 d 56" "agree_outside m0 m1 d 56" "agree_outside m1 m2 d 56" "agree_outside m2 m3 d 56"
    by (auto simp: agree_outside_def m0_def m1_def m2_def m3_def store32_bytes store16_def add.assoc)
  then have "agree_outside m m0 d 56" "agree_outside m m1 d 56" "agree_outside m m2 d 56" "agree_outside m m3 d 56"
    by (blast intro: agree_outside_trans)+
  then have bufs: "load_bytes m' ?I 512 = buf" if "m' \<in> {m0, m1, m2, m3}" for m'
    using agree_away [OF _ sep, of m m'] that buf unfolding load_bytes_eq_map agree_def by auto
  have r0: "load16 m0 (?I + of_nat ATA_IDENT_DEVICETYPE) = buf16 buf ATA_IDENT_DEVICETYPE"
    by (rule buf_loads(1)) (simp_all add: bufs ATA_IDENT_DEVICETYPE_def)
  have r1: "load16 m1 (?I + of_nat ATA_IDENT_CAPABILITIES) = buf16 buf ATA_IDENT_CAPABILITIES"
    by (rule buf_loads(1)) (simp_all add: bufs ATA_IDENT_CAPABILITIES_def)
  have r2: "load32 m2 (?I + of_nat ATA_IDENT_COMMANDSETS) = buf32 buf ATA_IDENT_COMMANDSETS"
    by (rule buf_loads(2)) (simp_all add: bufs ATA_IDENT_COMMANDSETS_def)
  have r3: "load32 m3 (?I + of_nat ATA_IDENT_MAX_LBA_EXT) = buf32 buf ATA_IDENT_MAX_LBA_EXT"
    "load32 m3 (?I + of_nat ATA_IDENT_MAX_LBA) = buf32 buf ATA_IDENT_MAX_LBA"
    by (rule buf_loads(2); simp add: bufs ATA_IDENT_MAX_LBA_EXT_def ATA_IDENT_MAX_LBA_def)+
  have r4: "load32 m3 (d + 48) = buf32 buf ATA_IDENT_COMMANDSETS" unfolding m3_def by (rule load32_store32)
  have "(40 - 1 :: u32) = 39" by simp
  then show ?thesis
    unfolding s2_add_drive_def case_prod_conv Let_def d [symmetric] m0_def [symmetric] r0 m1_def [symmetric] r1
      m2_def [symmetric] r2 m3_def [symmetric] r3 r4 put_fields_def by (simp only:)
qed

lemma past_name: "44 \<le> unat (x - d) \<Longrightarrow> 41 \<le> unat (x - (d + 3))" for d :: addr
proof -
  assume "44 \<le> unat (x - d)"
  then have "unat (x - d - 3) = unat (x - d) - 3" by (simp add: unat_sub word_le_nat_alt)
  moreover have "x - d - 3 = x - (d + 3)" by simp
  ultimately show ?thesis using \<open>44 \<le> unat (x - d)\<close> by simp
qed

lemma s2_add_drive_result:
  fixes m :: mem
  assumes buf: "load_bytes m (st_id_buf st) 512 = buf" and sep: "away d 56 (st_id_buf st) 512"
    and d: "d = st_drives st + sizeof_ide_drive * count"
  shows "\<exists>m'. s2_add_drive st channel bus type (count, m) = (count + 1, m') \<and> agree_outside m m' d 56 \<and>
    ide_drive_at m' d = ident_drive channel bus (ucast type) buf (ide_drive_at m d)"
proof -
  let ?sig = "buf16 buf ATA_IDENT_DEVICETYPE" and ?cap = "buf16 buf ATA_IDENT_CAPABILITIES"
    and ?cmds = "buf32 buf ATA_IDENT_COMMANDSETS"
  let ?sz = "if ?cmds AND push_bit 26 1 \<noteq> 0 then buf32 buf ATA_IDENT_MAX_LBA_EXT else buf32 buf ATA_IDENT_MAX_LBA"
  define m4 where "m4 = put_fields d channel bus (ucast type) ?sig ?cap ?cmds ?sz m"
  define m5 where "m5 = s2_copy_name (d + 3) (st_id_buf st) 0 m4"
  define m6 where "m6 = s2_trim_name (d + 3) (of_nat 39) m5"
  have run: "s2_add_drive st channel bus type (count, m) = (count + 1, m6)"
    unfolding s2_add_drive_fields [OF assms] m4_def m5_def m6_def by simp
  have o4: "agree_outside m m4 d 56" unfolding m4_def by (rule put_fields_agree)
  have "load_bytes m4 (st_id_buf st) 512 = buf"
    using agree_away [OF o4 sep] buf unfolding load_bytes_eq_map agree_def by auto
  moreover have past: "41 \<le> unat (x - (d + 3))" if "56 \<le> unat (x - d)" for x using that by (intro past_name) simp
  then have "away (d + 3) 41 (st_id_buf st) 512" using sep by (simp add: away_def)
  ultimately have n5: "load_bytes m5 (d + 3) 41 = ide_copy_name buf 0 20 (load_bytes m4 (d + 3) 41)"
      "agree_outside m4 m5 (d + 3) 41"
    using s2_copy_name_result [of 0 20 m4 "st_id_buf st" buf "d + 3"] by (simp_all add: m5_def)
  have n6: "load_bytes m6 (d + 3) 41 = ide_trim_name 39 (load_bytes m5 (d + 3) 41)" "agree_outside m5 m6 (d + 3) 41"
    using s2_trim_name_result [of 39 "d + 3" m5] by (simp_all add: m6_def)
  have o6: "agree_outside m4 m6 (d + 3) 41" by (rule agree_outside_trans [OF n5(2) n6(2)])
  have "agree_outside m4 m6 d 56" using o6 past by (simp add: agree_outside_def)
  with o4 have o: "agree_outside m m6 d 56" by (rule agree_outside_trans)
  have keep: "m6 (d + of_nat c) = m4 (d + of_nat c)" if "c < 3 \<or> 44 \<le> c \<and> c < 56" for c
  proof -
    have "41 \<le> unat (d + of_nat c - (d + 3))"
    proof (cases "c < 3")
      case True
      then have "c = 0 \<or> c = 1 \<or> c = 2" by auto
      then show ?thesis by auto
    next
      case False
      then show ?thesis using that past_name [of "d + of_nat c" d] by (simp add: unat_of_nat_small)
    qed
    then show ?thesis using o6 by (simp add: agree_outside_def)
  qed
  note f = put_fields_fields [of d channel bus "ucast type" ?sig ?cap ?cmds ?sz m, folded m4_def]
  have h: "load16 m6 (d + 44) = load16 m4 (d + 44)" "load16 m6 (d + 46) = load16 m4 (d + 46)"
    using keep [of 44] keep [of 45] keep [of 46] keep [of 47] by (simp_all add: load16_def add.assoc)
  have w: "load32 m6 (d + 48) = load32 m4 (d + 48)" "load32 m6 (d + 52) = load32 m4 (d + 52)"
    using keep [of 48] keep [of 49] keep [of 50] keep [of 51] keep [of 52] keep [of 53] keep [of 54] keep [of 55]
    by (simp_all add: load32_def load16_def add.assoc)
  have "m6 d = channel" "m6 (d + 1) = bus" "m6 (d + 2) = ucast type"
    using keep [of 0] keep [of 1] keep [of 2] f(1-3) by simp_all
  then have "ide_drive_at m6 d = ident_drive channel bus (ucast type) buf (ide_drive_at m d)"
    unfolding ide_drive_at_def ident_drive_def h w f n6(1) n5(1) by simp
  with run o show ?thesis by blast
qed


section \<open>The search for drives\<close>

text \<open>The table as the list of records of the kernel's model.\<close>

definition drives_at :: "ide_statics \<Rightarrow> mem \<Rightarrow> ide_drive_t list" where
  "drives_at st m = map (\<lambda>i. ide_drive_at m (st_drives st + sizeof_ide_drive * of_nat i)) [0..<4]"

definition abs_ide :: "ide_statics \<Rightarrow> ide_channel_t list \<Rightarrow> u32 \<Rightarrow> mem \<Rightarrow> ide_t" where
  "abs_ide st chs count m = \<lparr>ide_drives = drives_at st m, ide_drive_count = count, ide_channels = chs\<rparr>"

text \<open>The two arrays do not overlap.\<close>

definition statics_apart :: "ide_statics \<Rightarrow> bool" where
  "statics_apart st \<longleftrightarrow> away (st_drives st) 224 (st_id_buf st) 512"

text \<open>Only bytes of the two arrays have changed.\<close>

definition statics_only :: "ide_statics \<Rightarrow> mem \<Rightarrow> mem \<Rightarrow> bool" where
  "statics_only st m m' \<longleftrightarrow> (\<forall>x. 224 \<le> unat (x - st_drives st) \<longrightarrow> 512 \<le> unat (x - st_id_buf st) \<longrightarrow> m' x = m x)"

lemma statics_only_trans: "statics_only st m m' \<Longrightarrow> statics_only st m' m'' \<Longrightarrow> statics_only st m m''"
  by (simp add: statics_only_def)

lemma length_drives_at [simp]: "length (drives_at st m) = 4"
  by (simp add: drives_at_def)

lemma entry_offset:
  fixes a x :: addr
  assumes "i < 4" and "unat (x - (a + 56 * of_nat i)) < 56"
  shows "unat (x - a) = 56 * i + unat (x - (a + 56 * of_nat i))"
proof -
  define y where "y = x - (a + 56 * of_nat i)"
  have n: "unat (56 * of_nat i :: addr) = 56 * i"
    using unat_of_nat_small [of "56 * i"] assms(1) by simp
  have "x - a = 56 * of_nat i + y" by (simp add: y_def)
  moreover have "unat (56 * of_nat i + y) = unat (56 * of_nat i :: addr) + unat y"
    using assms n by (intro unat_add_bounded) (simp add: y_def)
  ultimately show ?thesis unfolding n y_def by simp
qed

text \<open>A change inside one entry leaves the others alone and lies in the table.\<close>

lemma drives_at_entry:
  assumes "agree_outside m m' (st_drives st + sizeof_ide_drive * count) 56" and "unat count < 4"
  shows "drives_at st m' = (drives_at st m)[unat count := ide_drive_at m' (st_drives st + sizeof_ide_drive * count)]"
    and "statics_only st m m'"
proof -
  let ?a = "st_drives st"
  have d: "?a + sizeof_ide_drive * count = ?a + 56 * of_nat (unat count)" by (simp add: sizeof_ide_drive_def)
  have out: "m' x = m x" if "\<not> (56 * unat count \<le> unat (x - ?a) \<and> unat (x - ?a) < 56 * unat count + 56)" for x
  proof (rule ccontr)
    assume "m' x \<noteq> m x"
    then have "unat (x - (?a + 56 * of_nat (unat count))) < 56"
      using assms(1) unfolding agree_outside_def d by (meson not_le)
    from entry_offset [OF assms(2) this] this that show False by linarith
  qed
  show "statics_only st m m'" unfolding statics_only_def using out assms(2)
    by (intro allI impI) (rule out, use assms(2) in linarith)
  show "drives_at st m' = (drives_at st m)[unat count := ide_drive_at m' (?a + sizeof_ide_drive * count)]"
  proof (rule nth_equalityI)
    fix i assume "i < length (drives_at st m')"
    then have i: "i < 4" by simp
    show "drives_at st m' ! i = (drives_at st m)[unat count := ide_drive_at m' (?a + sizeof_ide_drive * count)] ! i"
    proof (cases "i = unat count")
      case True
      then show ?thesis using i d by (simp add: drives_at_def sizeof_ide_drive_def)
    next
      case False
      have "agree m m' (?a + 56 * of_nat i) 56"
        unfolding agree_def
      proof (intro allI impI)
        fix k :: nat assume k: "k < 56"
        let ?x = "?a + 56 * of_nat i + of_nat k"
        have "unat (?x - (?a + 56 * of_nat i)) = k" using k by (simp add: unat_of_nat_small)
        with entry_offset [OF i, of ?x ?a] k have "unat (?x - ?a) = 56 * i + k" by simp
        moreover from False have "i < unat count \<or> unat count < i" by linarith
        ultimately show "m' ?x = m ?x" using k by (intro out) linarith
      qed
      from ide_drive_at_cong [OF this] False i show ?thesis by (simp add: drives_at_def sizeof_ide_drive_def)
    qed
  qed simp
qed


lemma length_ide_read_words [simp]: "length (fst (ide_read_words b port n w)) = 2 * n"
  by (induction n arbitrary: w) (simp_all add: case_prod_beta)

lemma s2_read_id_words:
  "s2_read_id b base (a, m, w) =
     (case ide_read_words b (base + ATA_REG_DATA) 256 w of (bs, w') \<Rightarrow> Some (a + 512, store_bytes m a bs, w'))"
proof -
  define body where "body = (\<lambda>(i :: u32) (it, m, w). let (v, w) = inw b (base + ATA_REG_DATA) w in Some (it + 2, store16 m it v, w))"
  have step: "body i (a, m, w) = (case inw b (base + ATA_REG_DATA) w of (v, w) \<Rightarrow> Some (a + 2, store16 m a v, w))" for i a m w
    by (simp add: body_def)
  have "for_range i 256 body (a, m, w) =
    (case ide_read_words b (base + ATA_REG_DATA) n w of (bs, w') \<Rightarrow> Some (a + 2 * of_nat n, store_bytes m a bs, w'))"
    if "unat i + n = 256" for i n a m w
    using that
  proof (induction n arbitrary: i a m w)
    case 0
    then have "256 \<le> i" by (simp add: word_le_nat_alt)
    then show ?case by simp
  next
    case (Suc n)
    then have i: "i < 256" by (simp add: word_less_nat_alt)
    have "unat (i + 1) + n = 256" using unat_succ_less [OF i] Suc.prems by simp
    note IH = Suc.IH [OF this]
    obtain v w1 where v: "inw b (base + ATA_REG_DATA) w = (v, w1)" by (cases "inw b (base + ATA_REG_DATA) w")
    have "store_bytes m a (ucast v # ucast (drop_bit 8 v) # bs) = store_bytes (store16 m a v) (a + 2) bs" for bs
      by (simp add: store16_def add.assoc)
    then show ?case unfolding for_range.simps [of i]
      using i by (simp add: v step IH add.assoc del: store_bytes.simps split: prod.splits)
  qed
  from this [of 0 256 a m w] show ?thesis by (simp add: s2_read_id_def body_def)
qed

text \<open>A result on the bytes implements a result on the records.\<close>

definition s2_sim ::
    "ide_statics \<Rightarrow> ide_channel_t list \<Rightarrow> u32 \<Rightarrow> mem \<Rightarrow> (u32 \<times> mem \<times> 'w) option \<Rightarrow> (ide_t \<times> 'w) option \<Rightarrow> bool" where
  "s2_sim st chs count m res spec \<longleftrightarrow> (case res of
     None \<Rightarrow> spec = None
   | Some (count', m', w') \<Rightarrow> spec = Some (abs_ide st chs count' m', w') \<and> unat count' \<le> unat count + 1 \<and> statics_only st m m')"

lemma s2_sim_unchanged: "s2_sim st chs count m (Some (count, m, w)) (Some (abs_ide st chs count m, w))"
  by (simp add: s2_sim_def statics_only_def)

lemma s2_sim_bind:
  assumes "\<And>w. s2_sim st chs count m (f w) (g w)"
  shows "s2_sim st chs count m (do { w \<leftarrow> r; f w }) (do { w \<leftarrow> r; g w })"
  using assms by (cases r) (simp_all add: s2_sim_def)

lemma s2_sim_if:
  assumes "c \<Longrightarrow> s2_sim st chs count m r s" and "\<not> c \<Longrightarrow> s2_sim st chs count m r' s'"
  shows "s2_sim st chs count m (if c then r else r') (if c then s else s')"
  using assms by simp

lemma s2_sim_case:
  assumes "\<And>x y. s2_sim st chs count m (f x y) (g x y)"
  shows "s2_sim st chs count m (case r of (x, y) \<Rightarrow> f x y) (case r of (x, y) \<Rightarrow> g x y)"
  using assms by (cases r) simp

lemmas s2_sim_rules = s2_sim_if s2_sim_case s2_sim_bind s2_sim_unchanged

lemma s2_found_sim:
  assumes "statics_apart st" and room: "unat count < 4"
  shows "s2_sim st chs count m (s2_found b st base channel bus type (count, m, w))
    (ide_found b base channel bus (ucast type) (abs_ide st chs count m) w)"
proof -
  let ?I = "st_id_buf st" and ?a = "st_drives st"
  let ?d = "?a + sizeof_ide_drive * count"
  obtain bs w1 where bs: "ide_read_words b (base + ATA_REG_DATA) 256 w = (bs, w1)"
    by (cases "ide_read_words b (base + ATA_REG_DATA) 256 w")
  then have len: "length bs = 512" using length_ide_read_words [of b "base + ATA_REG_DATA" 256 w] by simp
  let ?m = "store_bytes m ?I bs"
  have st: "?m x = (if unat (x - ?I) < 512 then bs ! unat (x - ?I) else m x)" for x
    using store_bytes_apply [of bs m ?I x] len by simp
  have buf: "load_bytes ?m ?I 512 = bs" using load_store_bytes [of bs m ?I] len by simp
  have d: "?d = ?a + 56 * of_nat (unat count)" by (simp add: sizeof_ide_drive_def)
  have far: "224 \<le> unat (?I + of_nat i - ?a)" if "i < 512" for i
    using assms(1) that by (simp add: statics_apart_def away_def)
  have sep: "away ?d 56 ?I 512" unfolding away_def
  proof (intro allI impI, rule ccontr)
    fix i :: nat assume i: "i < 512" and "\<not> 56 \<le> unat (?I + of_nat i - ?d)"
    then have less: "unat (?I + of_nat i - (?a + 56 * of_nat (unat count))) < 56" unfolding d by simp
    from entry_offset [OF room this] less far [OF i] room show False by linarith
  qed
  have same: "?m x = m x" if "unat (x - ?a) < 224" for x
  proof -
    have "\<not> unat (x - ?I) < 512"
    proof
      assume "unat (x - ?I) < 512"
      from far [OF this] that show False by simp
    qed
    then show ?thesis by (simp add: st)
  qed
  have drives: "drives_at st ?m = drives_at st m"
  proof -
    have "agree m ?m (?a + 56 * of_nat i) 56" if i: "i < 4" for i
      unfolding agree_def
    proof (intro allI impI)
      fix k :: nat assume k: "k < 56"
      let ?x = "?a + 56 * of_nat i + of_nat k"
      have "unat (?x - (?a + 56 * of_nat i)) = k" using k by (simp add: unat_of_nat_small)
      with entry_offset [OF i, of ?x ?a] k have "unat (?x - ?a) = 56 * i + k" by simp
      then show "?m ?x = m ?x" using i k by (intro same) linarith
    qed
    then show ?thesis by (simp add: drives_at_def sizeof_ide_drive_def ide_drive_at_cong)
  qed
  from s2_add_drive_result [OF buf sep refl, of channel bus type] obtain m' where
    m': "s2_add_drive st channel bus type (count, ?m) = (count + 1, m')" "agree_outside ?m m' ?d 56"
      "ide_drive_at m' ?d = ident_drive channel bus (ucast type) bs (ide_drive_at ?m ?d)" by blast
  note entry = drives_at_entry [OF m'(2) room]
  have "drives_at st ?m ! unat count = ide_drive_at ?m ?d" using room by (simp add: drives_at_def)
  then have upd: "drives_at st m' = (drives_at st m)[unat count := ident_drive channel bus (ucast type) bs (drives_at st m ! unat count)]"
    unfolding entry(1) m'(3) drives by simp
  have "statics_only st m ?m" by (simp add: statics_only_def st)
  then have only: "statics_only st m m'" using entry(2) by (rule statics_only_trans)
  have cnt: "unat (count + 1) \<le> unat count + 1" by (simp add: unat_plus_if') arith
  have "s2_found b st base channel bus type (count, m, w) = Some (count + 1, m', w1)"
    by (simp add: s2_found_def s2_read_id_words bs m'(1))
  moreover have "ide_found b base channel bus (ucast type) (abs_ide st chs count m) w =
      Some (abs_ide st chs (count + 1) m', w1)"
    using room by (simp add: ide_found_def bs ide_add_drive_ident abs_ide_def upd)
  ultimately show ?thesis using only cnt by (simp add: s2_sim_def)
qed


lemma s2_check_sim:
  assumes "statics_apart st" and "unat count < 4"
  shows "s2_sim st chs count m (s2_ide_check_and_add_drive b st chs channel bus (count, m, w))
    (ide_check_and_add_drive b channel bus (abs_ide st chs count m) w)"
proof -
  have chs: "ide_channels (abs_ide st chs count m) = chs" by (simp add: abs_ide_def)
  have found: "s2_sim st chs count m (s2_found b st base channel bus (ucast type) (count, m, w))
      (ide_found b base channel bus type (abs_ide st chs count m) w)" for base type w
  proof -
    have "ucast (ucast type :: u16) = type" by (rule bit_word_eqI) (auto simp: bit_simps)
    then show ?thesis using s2_found_sim [OF assms, of chs m b base channel bus "ucast type" w] by simp
  qed
  show ?thesis
  proof (cases "arr_get chs (ucast channel)")
    case None
    then show ?thesis by (simp add: s2_ide_check_and_add_drive_def ide_check_and_add_drive_def chs s2_sim_def)
  next
    case (Some ch)
    show ?thesis
      unfolding s2_ide_check_and_add_drive_def ide_check_and_add_drive_def chs Some Let_def bind.bind_lunit case_prod_conv
        s2_waits s2_poll_ident outbs_simps
      by (simp only: case_prod_beta) (intro s2_sim_rules found)
  qed
qed


text \<open>The four searches one after the other, with at most \<open>k\<close> drives found so far.\<close>

definition s2_runs ::
    "ide_statics \<Rightarrow> ide_channel_t list \<Rightarrow> mem \<Rightarrow> nat \<Rightarrow> (u32 \<times> mem \<times> 'w) option \<Rightarrow> (ide_t \<times> 'w) option \<Rightarrow> bool" where
  "s2_runs st chs m k res spec \<longleftrightarrow> (case res of
     None \<Rightarrow> spec = None
   | Some (count', m', w') \<Rightarrow> spec = Some (abs_ide st chs count' m', w') \<and> unat count' \<le> k \<and> statics_only st m m')"

lemma s2_runs_step:
  assumes "statics_apart st" and "s2_runs st chs m k r s" and "k < 4"
  shows "s2_runs st chs m (Suc k) (r \<bind> s2_ide_check_and_add_drive b st chs channel bus)
    (s \<bind> (\<lambda>(s, w). ide_check_and_add_drive b channel bus s w))"
proof (cases r)
  case None
  with assms(2) show ?thesis by (simp add: s2_runs_def)
next
  case (Some x)
  obtain count m1 w1 where x: "x = (count, m1, w1)" by (cases x)
  with Some assms(2) have s: "s = Some (abs_ide st chs count m1, w1)" and c: "unat count \<le> k" and m1: "statics_only st m m1"
    by (simp_all add: s2_runs_def)
  have "unat count < 4" using c assms(3) by simp
  from s2_check_sim [OF assms(1) this, of chs m1 b channel bus w1] c m1 show ?thesis
    by (auto simp: Some x s s2_runs_def s2_sim_def intro: statics_only_trans split: option.splits)
qed

text \<open>
  C13 Both copies of the IDE driver find the same drives.  If the identification buffer and the table of drives
  do not overlap, the search of the boot loader, which stores the fields of each drive at their offsets in the
  table, does to the bytes of the table exactly what the driver of the kernel does to its list of records, on
  every machine and whatever the drives answer: it returns if and only if the kernel's does, with the same
  count, channels, drives and accesses to the hardware, and writes to no byte outside of the two arrays.
\<close>

theorem s2_ide_initialize_refines:
  assumes "statics_apart st"
  shows "case s2_ide_initialize b st bar0 bar1 bar2 bar3 bar4 (0, m, w) of
      None \<Rightarrow> ide_initialize b bar0 bar1 bar2 bar3 bar4 (abs_ide st chs 0 m) w = None
    | Some (n, p, chs', count, m', w') \<Rightarrow>
        ide_initialize b bar0 bar1 bar2 bar3 bar4 (abs_ide st chs 0 m) w = Some (n, abs_ide st chs' count m', w') \<and>
        p = st_drives st \<and> n = count \<and> n \<le> 4 \<and> statics_only st m m'"
proof -
  let ?chs = "[\<lparr>base_port = ucast (ide_bar bar0 0x1F0), ctrl_port = ucast (ide_bar bar1 0x3F6), bmide_port = ucast bar4\<rparr>,
     \<lparr>base_port = ucast (ide_bar bar2 0x170), ctrl_port = ucast (ide_bar bar3 0x376), bmide_port = ucast (bar4 + 8)\<rparr>]"
  let ?w = "outb b (ucast (ide_bar bar3 0x376) + ATA_REG_DEVCTRL) 2 (outb b (ucast (ide_bar bar1 0x3F6) + ATA_REG_DEVCTRL) 2 w)"
  have start: "(abs_ide st chs 0 m)\<lparr>ide_channels := ?chs\<rparr> = abs_ide st ?chs 0 m" by (simp add: abs_ide_def)
  define r where "r = Some (0, m, ?w) \<bind> s2_ide_check_and_add_drive b st ?chs ATA_PRIMARY ATA_MASTER
    \<bind> s2_ide_check_and_add_drive b st ?chs ATA_PRIMARY ATA_SLAVE
    \<bind> s2_ide_check_and_add_drive b st ?chs ATA_SECONDARY ATA_MASTER
    \<bind> s2_ide_check_and_add_drive b st ?chs ATA_SECONDARY ATA_SLAVE"
  define d where "d = Some (abs_ide st ?chs 0 m, ?w) \<bind> (\<lambda>(s, w). ide_check_and_add_drive b ATA_PRIMARY ATA_MASTER s w)
    \<bind> (\<lambda>(s, w). ide_check_and_add_drive b ATA_PRIMARY ATA_SLAVE s w)
    \<bind> (\<lambda>(s, w). ide_check_and_add_drive b ATA_SECONDARY ATA_MASTER s w)
    \<bind> (\<lambda>(s, w). ide_check_and_add_drive b ATA_SECONDARY ATA_SLAVE s w)"
  have runs: "s2_runs st ?chs m (Suc (Suc (Suc (Suc 0)))) r d"
    unfolding r_def d_def by (intro s2_runs_step [OF assms]) (simp_all add: s2_runs_def statics_only_def)
  have impl: "s2_ide_initialize b st bar0 bar1 bar2 bar3 bar4 (0, m, w) = do { s \<leftarrow> r; Some (fst s, st_drives st, ?chs, s) }"
    by (simp add: r_def s2_ide_initialize_def Let_def ide_bar_def)
  have spec: "ide_initialize b bar0 bar1 bar2 bar3 bar4 (abs_ide st chs 0 m) w =
      do { (s, w) \<leftarrow> d; Some (ide_drive_count s, s, w) }"
    by (simp add: d_def ide_initialize_def Let_def start split_def)
  show ?thesis using runs unfolding impl spec
    by (auto simp: s2_runs_def abs_ide_def word_le_nat_alt split: option.splits)
qed


text \<open>A machine without drives: every port reads as zero.\<close>

definition empty_bus :: "unit bus" where
  "empty_bus = \<lparr>bus_inb = \<lambda>_ w. (0, w), bus_inw = \<lambda>_ w. (0, w), bus_inl = \<lambda>_ w. (0, w), bus_outb = \<lambda>_ _ w. w,
     bus_outw = \<lambda>_ _ w. w, bus_outl = \<lambda>_ _ w. w, bus_ldl = \<lambda>_ w. (0, w), bus_stl = \<lambda>_ _ w. w, bus_time = \<lambda>w. (0, w)\<rparr>"

definition sample_statics :: ide_statics where
  "sample_statics = \<lparr>st_drives = 0x1000, st_id_buf = 0x2000\<rparr>"

lemma sample_statics_apart: "statics_apart sample_statics"
  unfolding statics_apart_def away_def
proof (intro allI impI)
  fix i :: nat assume "i < 512"
  moreover have "st_id_buf sample_statics + of_nat i - st_drives sample_statics = of_nat (0x1000 + i)"
    by (simp add: sample_statics_def)
  ultimately show "224 \<le> unat (st_id_buf sample_statics + of_nat i - st_drives sample_statics)"
    by (simp only: unat_of_nat_small)
qed

lemma empty_bus_finds_none:
  "ide_initialize empty_bus 0 0 0 0 0 (abs_ide sample_statics [] 0 (\<lambda>_. 0)) () =
    Some (0, (abs_ide sample_statics [] 0 (\<lambda>_. 0))\<lparr>ide_channels :=
      [\<lparr>base_port = 0x1F0, ctrl_port = 0x3F6, bmide_port = 0\<rparr>, \<lparr>base_port = 0x170, ctrl_port = 0x376, bmide_port = 8\<rparr>]\<rparr>, ())"
  by (simp add: ide_initialize_def ide_check_and_add_drive_def Let_def inb_def empty_bus_def abs_ide_def ATA_PRIMARY_def
    ATA_SECONDARY_def ide_bar_def)

theorem s2_ide_initialize_refines_witness:
  "\<exists>chs' m'. s2_ide_initialize empty_bus sample_statics 0 0 0 0 0 (0, \<lambda>_. 0, ()) = Some (0, 0x1000, chs', 0, m', ()) \<and>
     statics_only sample_statics (\<lambda>_. 0) m'"
  using s2_ide_initialize_refines [OF sample_statics_apart, of empty_bus 0 0 0 0 0 "[]" "\<lambda>_. 0" "()"] empty_bus_finds_none
  by (auto simp: sample_statics_def split: option.splits)

end
