(* ===== verification/Kernel.thy ===== *)
theory Kernel
  imports Interrupts Desc_Tables Acpi Pci Ide Render Cpuid
begin

text \<open>
  The start of the kernel, \<^verbatim>\<open>kernel_enter\<close> of \<^verbatim>\<open>kernel/kernel.c\<close>, with \<^verbatim>\<open>kernel/drivers/vga.c\<close> and the parts of
  \<^verbatim>\<open>kernel/drivers/vbe.h\<close> it reads.  It runs the initialisation of every driver in turn and ends with the
  switch to the first process.  The steps of the function are definitions of their own.  \<^verbatim>\<open>panic\<close> does
  not return.  The local variables that the code addresses, and the string literals, are at given
  addresses; debug output is left out.

  An application processor runs \<^verbatim>\<open>ap_enter\<close> when it has been started: it releases \<^verbatim>\<open>ap_init_lock\<close> and
  halts.  Which processors come up is the parameter \<open>responds\<close>; one that does releases the lock before the
  next attempt to take it.

  The lemmas show that the memory the kernel occupies is never allocated, and that the scheduler starts in
  a state that satisfies its invariant.
\<close>

section \<open>Boot information\<close>

record bootinf_t =
  bi_kernel_start :: addr
  bi_kernel_end :: addr
  bi_memmap :: addr
  bi_mib :: addr
  bi_memmap_entry_count :: u16
  bi_boot_drive :: u8

definition bootinf :: "mem \<Rightarrow> addr \<Rightarrow> bootinf_t" where
  "bootinf m a = \<lparr>bi_kernel_start = load32 m a, bi_kernel_end = load32 m (a + 4), bi_memmap = load32 m (a + 8),
     bi_mib = load32 m (a + 12), bi_memmap_entry_count = load16 m (a + 16), bi_boot_drive = m (a + 18)\<rparr>"

text \<open>The BIOS memory map as it lies in memory; the mode information block.\<close>

definition sizeof_memmap :: u32 where "sizeof_memmap = 24"

definition memmap_entry :: "mem \<Rightarrow> addr \<Rightarrow> memmap_t" where
  "memmap_entry m a = \<lparr>mm_base = load64 m a, mm_len = load64 m (a + 8), mm_type = load32 m (a + 16),
     mm_attribs = load32 m (a + 20)\<rparr>"

definition memmap_entries :: "mem \<Rightarrow> addr \<Rightarrow> nat \<Rightarrow> memmap_t list" where
  "memmap_entries m a n = map (\<lambda>i. memmap_entry m (a + sizeof_memmap * of_nat i)) [0..<n]"

definition put_memmap_entry :: "addr \<Rightarrow> memmap_t \<Rightarrow> mem \<Rightarrow> mem" where
  "put_memmap_entry a e m =
     (let m = store32 (store32 m a (ucast (mm_base e))) (a + 4) (ucast (drop_bit 32 (mm_base e)));
          m = store32 (store32 m (a + 8) (ucast (mm_len e))) (a + 12) (ucast (drop_bit 32 (mm_len e)))
      in store32 (store32 m (a + 16) (mm_type e)) (a + 20) (mm_attribs e))"

primrec put_memmap_entries :: "addr \<Rightarrow> memmap_t list \<Rightarrow> mem \<Rightarrow> mem" where
  "put_memmap_entries a [] m = m"
| "put_memmap_entries a (e # es) m = put_memmap_entries (a + sizeof_memmap) es (put_memmap_entry a e m)"

record vbe_mib_t =
  mib_mode_attribs :: u16
  mib_win_a_attribs :: u8
  mib_win_b_attribs :: u8
  mib_win_granularity :: u16
  mib_win_size :: u16
  mib_win_a_seg :: u16
  mib_win_b_seg :: u16
  mib_win_func_ptr :: u32
  mib_scan_line_bytes :: u16
  mib_x_resolution :: u16
  mib_y_resolution :: u16
  mib_x_char_size :: u8
  mib_y_char_size :: u8
  mib_plane_count :: u8
  mib_bits_per_px :: u8
  mib_bank_count :: u8
  mib_mem_model :: u8
  mib_bank_size :: u8
  mib_img_page_count :: u8
  mib_reserved0 :: u8
  mib_r_mask_size :: u8
  mib_r_field_pos :: u8
  mib_g_mask_size :: u8
  mib_g_field_pos :: u8
  mib_b_mask_size :: u8
  mib_b_field_pos :: u8
  mib_resrv_mask_size :: u8
  mib_resrv_field_pos :: u8
  mib_dc_mode_info :: u8
  mib_phys_base_addr :: u32
  mib_reserved1 :: u32
  mib_reserved2 :: u16

definition vbe_mib :: "mem \<Rightarrow> addr \<Rightarrow> vbe_mib_t" where
  "vbe_mib m a =
     \<lparr>mib_mode_attribs = load16 m a, mib_win_a_attribs = m (a + 2), mib_win_b_attribs = m (a + 3),
      mib_win_granularity = load16 m (a + 4), mib_win_size = load16 m (a + 6), mib_win_a_seg = load16 m (a + 8),
      mib_win_b_seg = load16 m (a + 10), mib_win_func_ptr = load32 m (a + 12),
      mib_scan_line_bytes = load16 m (a + 16), mib_x_resolution = load16 m (a + 18),
      mib_y_resolution = load16 m (a + 20), mib_x_char_size = m (a + 22), mib_y_char_size = m (a + 23),
      mib_plane_count = m (a + 24), mib_bits_per_px = m (a + 25), mib_bank_count = m (a + 26),
      mib_mem_model = m (a + 27), mib_bank_size = m (a + 28), mib_img_page_count = m (a + 29),
      mib_reserved0 = m (a + 30), mib_r_mask_size = m (a + 31), mib_r_field_pos = m (a + 32),
      mib_g_mask_size = m (a + 33), mib_g_field_pos = m (a + 34), mib_b_mask_size = m (a + 35),
      mib_b_field_pos = m (a + 36), mib_resrv_mask_size = m (a + 37), mib_resrv_field_pos = m (a + 38),
      mib_dc_mode_info = m (a + 39), mib_phys_base_addr = load32 m (a + 40), mib_reserved1 = load32 m (a + 44),
      mib_reserved2 = load16 m (a + 48)\<rparr>"

definition vga_initialize :: "addr \<Rightarrow> u32 \<Rightarrow> u32 \<Rightarrow> framebuf_t" where
  "vga_initialize vram res_x res_y =
     \<lparr>fb_width = sint res_x, fb_height = sint res_y, fb_px_data = vram, fb_px_count = res_x * res_y\<rparr>"

section \<open>Memory\<close>

text \<open>Mark the kernel, the low BIOS memory and the memory map as used.\<close>

definition boot_reserve :: "bootinf_t \<Rightarrow> pmman_map_t \<Rightarrow> pmman_map_t option" where
  "boot_reserve info pmkmap =
     do { let kernel_len = bi_kernel_end info - bi_kernel_start info;
          pmkmap \<leftarrow> pmman_mark_range pmkmap (pmman_to_block pmkmap (bi_kernel_start info)) (pmman_to_blocks pmkmap kernel_len);
          pmkmap \<leftarrow> pmman_mark_range pmkmap 0 (pmman_to_blocks pmkmap 0x7C00);
          pmman_mark_range pmkmap (pmman_to_block pmkmap (bi_memmap info))
            (pmman_to_blocks pmkmap (sizeof_memmap * ucast (bi_memmap_entry_count info))) }"

text \<open>The memory manager sorts the memory map where it lies.\<close>

definition boot_memory :: "bootinf_t \<Rightarrow> mem \<Rightarrow> (pmman_map_t \<times> mem) option" where
  "boot_memory info m =
     do { (pmkmap, memmap) \<leftarrow> pmman_initialize (memmap_entries m (bi_memmap info) (unat (bi_memmap_entry_count info)))
            (ucast (bi_memmap_entry_count info));
          pmkmap \<leftarrow> boot_reserve info pmkmap;
          Some (pmkmap, put_memmap_entries (bi_memmap info) memmap m) }"

section \<open>Interrupt controllers\<close>

definition APIC_IO_BASE_DEFAULT :: addr where "APIC_IO_BASE_DEFAULT = 0xFEC00000"
definition INTM_PIC :: u8 where "INTM_PIC = 0"
definition INTM_APIC :: u8 where "INTM_APIC = 1"

text \<open>The base addresses of the local and the I/O APIC, and the model specific registers after the search.\<close>

definition boot_apic_base :: "cpuid \<Rightarrow> acpi_t \<Rightarrow> (u32 \<Rightarrow> u64) \<Rightarrow> addr \<times> addr \<times> (u32 \<Rightarrow> u64)" where
  "boot_apic_base cpuid acpi msrs =
     (if acpi_lapic acpi \<noteq> 0 then (acpi_lapic acpi, acpi_ioapic acpi, msrs)
      else if cpu_field cpu_info_t (cpu_info cpuid) ''msr'' \<and> cpu_field cpu_info_t (cpu_info cpuid) ''apic'' then
        let (eax, edx) = rdmsr MSR_APIC_BASE msrs;
            edx = edx OR push_bit 11 1;
            msrs = wrmsr MSR_APIC_BASE eax edx msrs
        in (eax AND 0xFFFFF000, APIC_IO_BASE_DEFAULT, msrs)
      else (0, APIC_IO_BASE_DEFAULT, msrs))"

definition boot_interrupts ::
    "'w bus \<Rightarrow> addr \<Rightarrow> addr \<Rightarrow> acpi_t \<Rightarrow> apic_t \<Rightarrow> 'w \<Rightarrow> (u8 \<times> apic_t \<times> 'w) option" where
  "boot_interrupts b lbase iobase acpi apic w =
     (if lbase \<noteq> 0 then
        do { let w = pic_mask_all b w;
             (apic, w) \<leftarrow> apic_initialize b lbase iobase (acpi_intr_mappings acpi) apic w;
             Some (INTM_APIC, apic, w) }
      else Some (INTM_PIC, apic, pic_unmask_all b w))"

section \<open>Devices\<close>

text \<open>The frame buffer with the pointer in its middle.\<close>

definition boot_vga :: "mem \<Rightarrow> addr \<Rightarrow> mouse_t \<Rightarrow> framebuf_t \<times> mouse_t \<times> mem" where
  "boot_vga m mib mouse =
     (let info = vbe_mib m mib;
          fb = vga_initialize (mib_phys_base_addr info) (ucast (mib_x_resolution info)) (ucast (mib_y_resolution info));
          m = render_clear fb 0 m
      in (fb, mouse\<lparr>mouse_x := of_int (fb_width fb div 2), mouse_y := of_int (fb_height fb div 2)\<rparr>, m))"

definition boot_ps2 :: "'w bus \<Rightarrow> mouse_t \<Rightarrow> ps2_t \<Rightarrow> 'w \<Rightarrow> (mouse_t \<times> ps2_t \<times> 'w) option" where
  "boot_ps2 b mouse ps2 w =
     do { let w = pit_initialize b w;
          (ps2, w) \<leftarrow> ps2_initialize b ps2 w;
          (mouse, w) \<leftarrow> (if ps2_p2 ps2 = PS2_DEV_GENERIC_MOUSE then mouse_initialize b PS2_PORT2 mouse w
             else Some (mouse, w));
          w \<leftarrow> ps2_enable_irqs b w;
          Some (mouse, ps2, w) }"

text \<open>The search for IDE controllers among the PCI devices; the flag is \<^verbatim>\<open>ide_found\<close>.\<close>

definition is_ide_controller :: "mem \<Rightarrow> addr \<Rightarrow> bool" where
  "is_ide_controller m dev \<longleftrightarrow> m (dev + pci_reg_data + PCI_HC_HEADER_TYPE) = PCI_HEADER_TYPE_0 \<and>
     m (dev + pci_reg_data + PCI_HC_CLASS) = 0x01 \<and> m (dev + pci_reg_data + PCI_HC_SUBCLASS) = 0x01"

definition boot_ide ::
    "'w bus \<Rightarrow> (string \<Rightarrow> addr) \<Rightarrow> addr \<Rightarrow> ide_t \<Rightarrow> mem \<times> 'w \<Rightarrow> (u32 \<times> ide_t \<times> mem \<times> 'w) option" where
  "boot_ide b str_addr pci_devices ide st =
     do { (pci_device_count, m, w) \<leftarrow> pci_enumerate b str_addr pci_devices st;
          (ide_found, drive_count, ide, w) \<leftarrow> for_range 0 pci_device_count
            (\<lambda>i (ide_found, drive_count, ide, w).
               let dev = pci_devices + sizeof_pci_dev * i
               in if is_ide_controller m dev then
                    do { (drive_count, ide, w) \<leftarrow> ide_initialize b (pci_reg32 m dev PCI_H0_BAR0)
                           (pci_reg32 m dev PCI_H0_BAR1) (pci_reg32 m dev PCI_H0_BAR2)
                           (pci_reg32 m dev PCI_H0_BAR3) (pci_reg32 m dev PCI_H0_BAR4) ide w;
                         Some (True, drive_count, ide, w) }
                  else Some (ide_found, drive_count, ide, w))
            (False, 0, ide, w);
          if ide_found then Some (drive_count, ide, m, w) else None }"

section \<open>Application processors\<close>

definition AP_TRAMPOLINE_CODE :: addr where "AP_TRAMPOLINE_CODE = 0x8000"
definition AP_TRAMPOLINE_DATA :: addr where "AP_TRAMPOLINE_DATA = 0x8500"

text \<open>The code of the trampoline is copied with a count of double words that is its size in bytes.\<close>

definition boot_trampoline :: "addr \<Rightarrow> usz \<Rightarrow> addr \<Rightarrow> addr \<Rightarrow> mem \<Rightarrow> mem" where
  "boot_trampoline bin_start bin_size ap_enter gdt m =
     (let m = mcpy32 m AP_TRAMPOLINE_CODE bin_start bin_size;
          m = store32 (store32 m (AP_TRAMPOLINE_DATA + 16) ap_enter) (AP_TRAMPOLINE_DATA + 20) 0;
          m = store32 (store32 m (AP_TRAMPOLINE_DATA + 8) (3 * sizeof_gdt)) (AP_TRAMPOLINE_DATA + 12) 0
      in store32 (store32 m AP_TRAMPOLINE_DATA gdt) (AP_TRAMPOLINE_DATA + 4) 0)"

text \<open>What a started processor does to the lock.\<close>

definition ap_enter :: "u8 \<Rightarrow> u8" where
  "ap_enter ap_init_lock = spinlock_release ap_init_lock"

definition boot_start_core ::
    "'w bus \<Rightarrow> (u8 \<Rightarrow> bool) \<Rightarrow> apic_t \<Rightarrow> u8 \<Rightarrow> u8 \<times> 'w \<Rightarrow> (u8 \<times> 'w) option" where
  "boot_start_core b responds apic core = (\<lambda>(ap_init_lock, w).
     do { l \<leftarrow> spinlock_lock ap_init_lock;
          w \<leftarrow> apic_start_core b apic core w;
          Some (if responds core then ap_enter l else l, w) })"

definition boot_start_aps ::
    "'w bus \<Rightarrow> (u8 \<Rightarrow> bool) \<Rightarrow> cpuid \<Rightarrow> acpi_t \<Rightarrow> apic_t \<Rightarrow> u8 \<times> 'w \<Rightarrow> (u8 \<times> 'w) option" where
  "boot_start_aps b responds cpuid acpi apic st =
     do { let bsp_id = cpu_lapic_id cpuid;
          (ap_init_lock, w) \<leftarrow> for_range 0 (ucast (acpi_cpu_count acpi)) (\<lambda>i st.
            do { core \<leftarrow> arr_get (acpi_lapic_ids acpi) i;
                 if core \<noteq> bsp_id then boot_start_core b responds apic core st else Some st }) st;
          l \<leftarrow> spinlock_lock ap_init_lock;
          Some (l, w) }"

section \<open>Processes\<close>

text \<open>The scheduler and the first two processes; \<open>startup\<close>, \<open>idle_fn\<close>, \<open>wserver\<close>, \<open>wclient\<close> are code addresses.\<close>

definition boot_spawn :: "addr \<Rightarrow> addr \<Rightarrow> addr \<Rightarrow> sched_t \<Rightarrow> sched_t option" where
  "boot_spawn startup entry name s = do { (child, s) \<leftarrow> proc_create startup entry name s; proc_register child s }"

definition boot_scheduler ::
    "(string \<Rightarrow> addr) \<Rightarrow> addr \<Rightarrow> addr \<Rightarrow> addr \<Rightarrow> addr \<Rightarrow> sched_t \<Rightarrow> sched_t option" where
  "boot_scheduler lits startup idle_fn wserver wclient s =
     do { s \<leftarrow> proc_init_scheduler startup idle_fn (lits ''idle'') s;
          s \<leftarrow> boot_spawn startup wserver (lits ''wserver'') s;
          s \<leftarrow> boot_spawn startup wclient (lits ''wclient'') s;
          proc_schedule s }"

section \<open>The whole start\<close>

text \<open>
  What the linker, the boot loader and the processor provide: addresses of code, tables, buffers and
  string literals.
\<close>

record boot_env =
  be_lits :: "string \<Rightarrow> addr"
  be_cpuid :: cpuid
  be_responds :: "u8 \<Rightarrow> bool"
  be_boot_info :: addr
  be_gdt :: addr
  be_idt :: addr
  be_isr :: "nat \<Rightarrow> u32"
  be_isr_sys :: u32
  be_pci_devices :: addr
  be_trampoline_start :: addr
  be_trampoline_size :: usz
  be_ap_enter :: addr
  be_buf :: addr
  be_startup :: addr
  be_idle_fn :: addr
  be_wserver :: addr
  be_wclient :: addr

text \<open>The memory, the world of the devices and the variables of the drivers.\<close>

record 'w machine =
  mc_mem :: mem
  mc_world :: 'w
  mc_msrs :: "u32 \<Rightarrow> u64"
  mc_gdt_desc :: gdt_desc_t
  mc_idt :: "idt_t list"
  mc_idt_desc :: idt_desc_t
  mc_tables :: table_regs
  mc_acpi :: acpi_t
  mc_apic :: apic_t
  mc_interrupt_mode :: u8
  mc_fb :: framebuf_t
  mc_mouse :: mouse_t
  mc_ps2 :: ps2_t
  mc_ide :: ide_t
  mc_ap_init_lock :: u8
  mc_sched :: sched_t

definition boot_aps :: "'w bus \<Rightarrow> boot_env \<Rightarrow> addr \<Rightarrow> acpi_t \<Rightarrow> apic_t \<Rightarrow> mem \<times> u8 \<times> 'w \<Rightarrow> (mem \<times> u8 \<times> 'w) option" where
  "boot_aps b e lbase acpi apic = (\<lambda>(m, l, w).
     if lbase \<noteq> 0 \<and> 0 < acpi_cpu_count acpi then
       do { let m = boot_trampoline (be_trampoline_start e) (be_trampoline_size e) (be_ap_enter e) (be_gdt e) m;
            (l, w) \<leftarrow> boot_start_aps b (be_responds e) (be_cpuid e) acpi apic (l, w);
            Some (m, l, w) }
     else Some (m, l, w))"

text \<open>
  \<^verbatim>\<open>kernel_enter\<close> up to the switch to the first process, with the root file system it sets up.  Interrupts
  that arrive on the way are not part of it.
\<close>

definition kernel_enter :: "'w bus \<Rightarrow> boot_env \<Rightarrow> 'w machine \<Rightarrow> ('w fs_t \<times> 'w machine) option" where
  "kernel_enter b e mc =
     do { let info = bootinf (mc_mem mc) (be_boot_info e);
          (pmkmap, m) \<leftarrow> boot_memory info (mc_mem mc);
          let m = gdt_make_flat (be_gdt e) m;
          let gdt_desc = \<lparr>gdt_desc_size = 3 * 8, gdt_desc_addr = be_gdt e\<rparr>;
          let tables = lgdt gdt_desc (mc_tables mc);
          let idt = idt_make_default (be_isr e) (be_isr_sys e) (mc_idt mc);
          let idt_desc = \<lparr>idt_desc_size = 256 * 8, idt_desc_addr = be_idt e\<rparr>;
          let tables = lidt idt_desc tables;
          acpi \<leftarrow> acpi_initialize (be_lits e) m (mc_acpi mc);
          let w = pic_initialize b (mc_world mc);
          let (lbase, iobase, msrs) = boot_apic_base (be_cpuid e) acpi (mc_msrs mc);
          (mode, apic, w) \<leftarrow> boot_interrupts b lbase iobase acpi (mc_apic mc) w;
          let c = sti (cpu (mc_sched mc));
          let (fb, mouse, m) = boot_vga m (bi_mib info) (mc_mouse mc);
          (mouse, ps2, w) \<leftarrow> boot_ps2 b mouse (mc_ps2 mc) w;
          (drive_count, ide, m, w) \<leftarrow> boot_ide b (be_lits e) (be_pci_devices e) (mc_ide mc) (m, w);
          (m, l, w) \<leftarrow> boot_aps b e lbase acpi apic (m, mc_ap_init_lock mc, w);
          let c = cli c;
          drive \<leftarrow> arr_get (ide_drives ide) 0;
          let (_, rootfs) = dfs_init (ide_read_drive b ide drive) (be_buf e);
          sched \<leftarrow> boot_scheduler (be_lits e) (be_startup e) (be_idle_fn e) (be_wserver e) (be_wclient e)
            ((mc_sched mc)\<lparr>cpu := c, pmman_kernel_map := pmkmap\<rparr>);
          Some (rootfs, \<lparr>mc_mem = m, mc_world = w, mc_msrs = msrs, mc_gdt_desc = gdt_desc, mc_idt = idt, mc_idt_desc = idt_desc,
            mc_tables = tables, mc_acpi = acpi, mc_apic = apic,
            mc_interrupt_mode = mode, mc_fb = fb, mc_mouse = mouse, mc_ps2 = ps2, mc_ide = ide, mc_ap_init_lock = l,
            mc_sched = sched\<rparr>) }"

section \<open>Reserved memory stays reserved\<close>

definition region :: "addr \<Rightarrow> usz \<Rightarrow> nat set" where
  "region a len = {unat a ..< unat a + unat len}"

text \<open>
  The blocks that are marked for a region are counted from its length alone, so they hold all of it only
  if its start is not too far into a block.
\<close>

definition covered :: "addr \<Rightarrow> usz \<Rightarrow> bool" where
  "covered a len \<longleftrightarrow> unat a mod 16384 + unat len \<le> 16384 * nblocks len \<and> unat a div 16384 + nblocks len \<le> 1024"

definition region_blocks :: "addr \<Rightarrow> usz \<Rightarrow> nat set" where
  "region_blocks a len = {unat a div 16384 ..< unat a div 16384 + nblocks len}"

lemma covered_block:
  assumes "covered a len" and "x \<in> region a len"
  shows "x div 16384 \<in> region_blocks a len"
proof -
  have eq: "unat a = 16384 * (unat a div 16384) + unat a mod 16384" by simp
  have x: "unat a \<le> x" "x < unat a + unat len" "unat a mod 16384 + unat len \<le> 16384 * nblocks len"
    using assms by (auto simp: covered_def region_def)
  have "x < 16384 * (unat a div 16384) + 16384 * nblocks len" using x(2,3) eq by linarith
  then have "16384 * (unat a div 16384) \<le> x" "x < 16384 * (unat a div 16384 + nblocks len)"
    using x(1) eq by (linarith, simp only: distrib_left)
  then show ?thesis unfolding region_blocks_def atLeastLessThan_iff
    by (metis div_le_mono less_mult_imp_div_less mult.commute nonzero_mult_div_cancel_left zero_neq_numeral)
qed

lemma mark_region:
  assumes inv: "pmman_inv mp" and fit: "unat a div 16384 + nblocks len \<le> 1024"
  shows "\<exists>mp'. pmman_mark_range mp (pmman_to_block mp a) (pmman_to_blocks mp len) = Some mp' \<and> pmman_inv mp' \<and>
    in_use mp' = in_use mp \<union> region_blocks a len"
proof -
  have len: "length (pm_bits mp) = 32" using inv by (simp add: pmman_inv_def)
  from pmman_mark_range_used [of "pmman_to_block mp a" "pmman_to_blocks mp len" mp] fit len obtain bs where
    bs: "pmman_mark_range mp (pmman_to_block mp a) (pmman_to_blocks mp len) = Some (mp\<lparr>pm_bits := bs\<rparr>)"
      "length bs = 32" "\<forall>k<1024. used bs k \<longleftrightarrow>
        (if unat a div 16384 \<le> k \<and> k < unat a div 16384 + nblocks len then True else used (pm_bits mp) k)"
    by (auto simp: unat_pmman_to_block [OF inv] unat_pmman_to_blocks [OF inv])
  have "in_use (mp\<lparr>pm_bits := bs\<rparr>) = in_use mp \<union> region_blocks a len"
    using bs(3) fit by (auto simp: in_use_def region_blocks_def)
  then show ?thesis using bs(1,2) inv by (auto simp: pmman_inv_def)
qed

lemma pmman_to_block_0: "pmman_inv mp \<Longrightarrow> pmman_to_block mp 0 = 0"
  by (simp add: pmman_to_block_def pmman_inv_def)

lemma nblocks_low: "nblocks 0x7C00 = 2"
  by (simp add: nblocks_def)

abbreviation kernel_len :: "bootinf_t \<Rightarrow> usz" where
  "kernel_len info \<equiv> bi_kernel_end info - bi_kernel_start info"

abbreviation memmap_len :: "bootinf_t \<Rightarrow> usz" where
  "memmap_len info \<equiv> sizeof_memmap * ucast (bi_memmap_entry_count info)"

lemma boot_reserve_result:
  assumes inv: "pmman_inv mp" and k: "covered (bi_kernel_start info) (kernel_len info)"
    and mm: "covered (bi_memmap info) (memmap_len info)"
  shows "\<exists>mp'. boot_reserve info mp = Some mp' \<and> pmman_inv mp' \<and>
    in_use mp' = in_use mp \<union> region_blocks (bi_kernel_start info) (kernel_len info) \<union> region_blocks 0 0x7C00 \<union>
      region_blocks (bi_memmap info) (memmap_len info)"
proof -
  from mark_region [OF inv] k obtain m1 where
    m1: "pmman_mark_range mp (pmman_to_block mp (bi_kernel_start info)) (pmman_to_blocks mp (kernel_len info)) = Some m1"
      "pmman_inv m1" "in_use m1 = in_use mp \<union> region_blocks (bi_kernel_start info) (kernel_len info)"
    unfolding covered_def by blast
  from mark_region [OF m1(2), of 0 "0x7C00"] obtain m2 where
    m2: "pmman_mark_range m1 0 (pmman_to_blocks m1 0x7C00) = Some m2"
      "pmman_inv m2" "in_use m2 = in_use m1 \<union> region_blocks 0 0x7C00"
    by (auto simp: pmman_to_block_0 [OF m1(2)] nblocks_low)
  from mark_region [OF m2(2)] mm obtain m3 where
    m3: "pmman_mark_range m2 (pmman_to_block m2 (bi_memmap info)) (pmman_to_blocks m2 (memmap_len info)) = Some m3"
      "pmman_inv m3" "in_use m3 = in_use m2 \<union> region_blocks (bi_memmap info) (memmap_len info)"
    unfolding covered_def by blast
  have "boot_reserve info mp = Some m3" by (simp add: boot_reserve_def m1(1) m2(1) m3(1))
  with m1 m2 m3 show ?thesis by blast
qed

text \<open>What \<^verbatim>\<open>pmman_alloc\<close> returns holds no byte of a region whose blocks are in use.\<close>

lemma alloc_avoids:
  assumes inv: "pmman_inv m" and cov: "covered a len" and sub: "region_blocks a len \<subseteq> in_use m"
    and zero: "0 \<in> in_use m" and al: "pmman_alloc m sz = Some (p, m')" "p \<noteq> 0"
  shows "{unat p ..< unat p + 16384 * nblocks sz} \<inter> region a len = {}"
proof -
  from pm.alloc_claims [OF inv zero al] obtain t where
    t: "p = pmman_block_addr t" "0 < nblocks sz" "t + nblocks sz \<le> 1024" "{t..<t + nblocks sz} \<inter> in_use m = {}"
    by blast
  have u: "unat p = 16384 * t" using t(1-3) by (simp add: unat_block_addr)
  have "False" if x: "x \<in> region a len" "x \<in> {unat p ..< unat p + 16384 * nblocks sz}" for x
  proof -
    have "16384 * t \<le> x" "x < 16384 * (t + nblocks sz)" using x(2) u by simp_all
    then have "x div 16384 \<in> {t..<t + nblocks sz}" unfolding atLeastLessThan_iff
      by (metis div_le_mono less_mult_imp_div_less mult.commute nonzero_mult_div_cancel_left zero_neq_numeral)
    with t(4) covered_block [OF cov x(1)] sub show False by blast
  qed
  then show ?thesis by blast
qed

lemma covered_low: "covered 0 0x7C00"
  by (simp add: covered_def nblocks_low)

lemma zero_low: "0 \<in> region_blocks 0 0x7C00"
  by (simp add: region_blocks_def nblocks_low)

lemma boot_memory_result:
  assumes "0 < bi_memmap_entry_count info"
    and "\<forall>e \<in> set (memmap_entries m (bi_memmap info) (unat (bi_memmap_entry_count info))).
      mm_base e \<noteq> - 1 \<and> unat (mm_base e) + unat (mm_len e) < 2 ^ 64"
    and "covered (bi_kernel_start info) (kernel_len info)" and "covered (bi_memmap info) (memmap_len info)"
  shows "\<exists>mp m'. boot_memory info m = Some (mp, m') \<and> pmman_inv mp \<and>
    in_use mp = {..<1024} -
        (\<Union>e \<in> set (memmap_entries m (bi_memmap info) (unat (bi_memmap_entry_count info))). entry_blocks e) \<union>
      region_blocks (bi_kernel_start info) (kernel_len info) \<union> region_blocks 0 0x7C00 \<union>
      region_blocks (bi_memmap info) (memmap_len info)"
proof -
  let ?n = "bi_memmap_entry_count info"
  let ?mm = "memmap_entries m (bi_memmap info) (unat ?n)"
  have n: "unat (ucast ?n :: u32) = unat ?n"
    by (simp add: unsigned_ucast_eq take_bit_nat_eq_self less_trans [OF unsigned_less])
  have "\<exists>mp mm'. pmman_initialize ?mm (ucast ?n) = Some (mp, mm') \<and> pmman_inv mp \<and>
      in_use mp = {..<1024} - (\<Union>e \<in> set ?mm. entry_blocks e) \<and> mset mm' = mset ?mm \<and> sorted (map mm_base mm')"
    by (rule pmman_initialize_result) (use assms(1,2) n in \<open>auto simp: memmap_entries_def word_less_nat_alt\<close>)
  then obtain mp0 mm' where i: "pmman_initialize ?mm (ucast ?n) = Some (mp0, mm')" "pmman_inv mp0"
    "in_use mp0 = {..<1024} - (\<Union>e \<in> set ?mm. entry_blocks e)" by blast
  have "boot_memory info m = map_option (\<lambda>mp. (mp, put_memmap_entries (bi_memmap info) mm' m)) (boot_reserve info mp0)"
    by (cases "boot_reserve info mp0") (simp_all add: boot_memory_def i(1))
  with boot_reserve_result [OF i(2) assms(3,4)] i(3) show ?thesis by auto
qed

text \<open>
  C10 When is the memory of the kernel safe from later allocations?  The number of blocks that \<^verbatim>\<open>kernel_enter\<close>
  marks for the kernel and for the memory map is computed from their lengths alone, so let those blocks hold all
  of them, as they do if both start on a 16 KiB boundary and lie below 16 MiB.  Then, for a non-empty memory map
  without wrap-around, initialisation returns a well-formed bitmap, and no run of \<^verbatim>\<open>pmman_alloc\<close> on it or on any
  later bitmap that keeps those blocks returns memory that overlaps the kernel, the low BIOS memory or the memory
  map.  Without that condition the last block of the kernel or of the map can be handed out.
\<close>

theorem boot_memory_protects:
  assumes "0 < bi_memmap_entry_count info"
    and "\<forall>e \<in> set (memmap_entries m (bi_memmap info) (unat (bi_memmap_entry_count info))).
      mm_base e \<noteq> - 1 \<and> unat (mm_base e) + unat (mm_len e) < 2 ^ 64"
    and "covered (bi_kernel_start info) (bi_kernel_end info - bi_kernel_start info)"
    and "covered (bi_memmap info) (sizeof_memmap * ucast (bi_memmap_entry_count info))"
  shows "\<exists>mp m'. boot_memory info m = Some (mp, m') \<and> pmman_inv mp \<and> 0 \<in> in_use mp \<and>
    (\<forall>mp1 sz p mp2. pmman_inv mp1 \<longrightarrow> in_use mp \<subseteq> in_use mp1 \<longrightarrow> pmman_alloc mp1 sz = Some (p, mp2) \<longrightarrow> p \<noteq> 0 \<longrightarrow>
       {unat p ..< unat p + 16384 * nblocks sz} \<inter>
         (region (bi_kernel_start info) (bi_kernel_end info - bi_kernel_start info) \<union> region 0 0x7C00 \<union>
          region (bi_memmap info) (sizeof_memmap * ucast (bi_memmap_entry_count info))) = {})"
proof -
  from boot_memory_result [OF assms] obtain mp m' where
    mp: "boot_memory info m = Some (mp, m')" "pmman_inv mp" and iu: "in_use mp = {..<1024} -
        (\<Union>e \<in> set (memmap_entries m (bi_memmap info) (unat (bi_memmap_entry_count info))). entry_blocks e) \<union>
      region_blocks (bi_kernel_start info) (kernel_len info) \<union> region_blocks 0 0x7C00 \<union>
      region_blocks (bi_memmap info) (memmap_len info)" by blast
  have z: "0 \<in> in_use mp" using iu zero_low by blast
  moreover have "{unat p ..< unat p + 16384 * nblocks sz} \<inter> (region (bi_kernel_start info) (kernel_len info) \<union>
      region 0 0x7C00 \<union> region (bi_memmap info) (memmap_len info)) = {}"
    if a: "pmman_inv mp1" "in_use mp \<subseteq> in_use mp1" "pmman_alloc mp1 sz = Some (p, mp2)" "p \<noteq> 0" for mp1 sz p mp2
  proof -
    note av = alloc_avoids [OF a(1) _ _ subsetD [OF a(2) z] a(3,4)]
    have b: "region_blocks (bi_kernel_start info) (kernel_len info) \<subseteq> in_use mp1" "region_blocks 0 0x7C00 \<subseteq> in_use mp1"
      "region_blocks (bi_memmap info) (memmap_len info) \<subseteq> in_use mp1"
      using a(2) iu by auto
    show ?thesis unfolding Int_Un_distrib
      using av [OF assms(3) b(1)] av [OF covered_low b(2)] av [OF assms(4) b(3)] by blast
  qed
  ultimately show ?thesis using mp by blast
qed

text \<open>A machine with two megabytes of memory, the kernel at one megabyte and the memory map in stage 2.\<close>

definition sample_bootinf :: bootinf_t where
  "sample_bootinf = \<lparr>bi_kernel_start = 0x100000, bi_kernel_end = 0x110000, bi_memmap = 0x9000, bi_mib = 0x9300,
     bi_memmap_entry_count = 1, bi_boot_drive = 0x80\<rparr>"

definition sample_low_mem :: mem where
  "sample_low_mem = (\<lambda>_. 0)(0x900A := 0x20, 0x9010 := 1)"

lemma sample_entries: "memmap_entries sample_low_mem 0x9000 1 =
    [\<lparr>mm_base = 0, mm_len = 0x200000, mm_type = 1, mm_attribs = 0\<rparr>]"
  by code_simp

lemma sample_covered: "covered 0x100000 0x10000" "covered 0x9000 24"
  by (simp_all add: covered_def nblocks_def)

theorem boot_memory_protects_witness:
  "\<exists>mp m' p mp2. boot_memory sample_bootinf sample_low_mem = Some (mp, m') \<and> pmman_alloc mp 4096 = Some (p, mp2) \<and> p \<noteq> 0 \<and>
     {unat p ..< unat p + 16384} \<inter> (region 0x100000 0x10000 \<union> region 0 0x7C00 \<union> region 0x9000 24) = {}"
proof -
  let ?i = sample_bootinf and ?m = sample_low_mem
  have h: "0 < bi_memmap_entry_count ?i"
    "\<forall>e \<in> set (memmap_entries ?m (bi_memmap ?i) (unat (bi_memmap_entry_count ?i))).
      mm_base e \<noteq> - 1 \<and> unat (mm_base e) + unat (mm_len e) < 2 ^ 64"
    "covered (bi_kernel_start ?i) (bi_kernel_end ?i - bi_kernel_start ?i)"
    "covered (bi_memmap ?i) (sizeof_memmap * ucast (bi_memmap_entry_count ?i))"
    using sample_covered sample_entries by (simp_all add: sample_bootinf_def sizeof_memmap_def)
  from boot_memory_result [OF h] obtain mp m' where mp: "boot_memory ?i ?m = Some (mp, m')" "pmman_inv mp"
    and iu: "3 \<notin> in_use mp" "0 \<in> in_use mp" using sample_entries
    by (auto simp: sample_bootinf_def sizeof_memmap_def entry_blocks_def region_blocks_def nblocks_def)
  have n: "nblocks 4096 = 1" by (simp add: nblocks_def)
  have "x = 3" if "x \<in> {3..<3 + nblocks 4096}" for x using that n by simp
  then have "{3..<3 + nblocks 4096} \<inter> in_use mp = {}" using iu(1) by blast
  from pm.alloc_some [OF mp(2) _ _ this] n obtain t mp2 where
    al: "pmman_alloc mp 4096 = Some (pmman_block_addr t, mp2)" "t < 1024" "t \<notin> in_use mp" by auto
  have "t \<noteq> 0" using al(3) iu(2) by metis
  then have "pmman_block_addr t \<noteq> 0" using unat_block_addr [OF al(2)] by (metis mult_eq_0_iff unat_0 zero_neq_numeral)
  with boot_memory_protects [OF h] mp al(1) have
    "{unat (pmman_block_addr t) ..< unat (pmman_block_addr t) + 16384 * nblocks 4096} \<inter>
       (region (bi_kernel_start ?i) (kernel_len ?i) \<union> region 0 0x7C00 \<union> region (bi_memmap ?i) (memmap_len ?i)) = {}"
    by (metis option.inject order_refl prod.inject)
  with mp(1) al(1) \<open>pmman_block_addr t \<noteq> 0\<close> show ?thesis
    by (simp add: sample_bootinf_def sizeof_memmap_def n)
qed

section \<open>The first processes\<close>

text \<open>The number of free blocks, and what creating a process does to it.\<close>

definition free_blocks :: "pmman_map_t \<Rightarrow> nat set" where
  "free_blocks mp = {..<1024} - in_use mp"

definition created :: "addr \<Rightarrow> addr \<Rightarrow> sched_t \<Rightarrow> sched_t \<Rightarrow> bool" where
  "created p entry s s' \<longleftrightarrow> p \<noteq> 0 \<and> owns s' p \<and> \<not> owns s p \<and> p_entry (procs s' p) = entry \<and>
     (\<forall>x. x \<noteq> p \<longrightarrow> procs s' x = procs s x) \<and> proc_current s' = proc_current s \<and> proc_idle s' = proc_idle s \<and>
     ready_q s' = ready_q s \<and> waiting_q s' = waiting_q s \<and> sched_lock s' = sched_lock s \<and>
     pmman_inv (pmman_kernel_map s') \<and> in_use (pmman_kernel_map s) \<subseteq> in_use (pmman_kernel_map s') \<and>
     card (free_blocks (pmman_kernel_map s)) = Suc (card (free_blocks (pmman_kernel_map s')))"

lemma proc_create_created:
  assumes m: "pmman_inv (pmman_kernel_map s)" "0 \<in> in_use (pmman_kernel_map s)"
    and free: "0 < card (free_blocks (pmman_kernel_map s))"
  shows "\<exists>p s'. proc_create st entry name s = Some (p, s') \<and> created p entry s s'"
proof -
  let ?m = "pmman_kernel_map s"
  from free obtain t where t: "t \<in> free_blocks ?m" by (metis all_not_in_conv card.empty less_irrefl)
  then have "{t..<t + nblocks PROC_SIZE} \<inter> in_use ?m = {}" "t + nblocks PROC_SIZE \<le> 1024"
    by (auto simp: free_blocks_def)
  from pm.alloc_some [OF m(1) _ this(2,1)] obtain b mp where
    al: "pmman_alloc ?m PROC_SIZE = Some (pmman_block_addr b, mp)" "pmman_inv mp" "b < 1024" "b \<notin> in_use ?m"
      "in_use mp = insert b (in_use ?m)" by auto
  have "b \<noteq> 0" using al(4) m(2) by metis
  then have nz: "pmman_block_addr b \<noteq> 0"
    using unat_block_addr [OF al(3)] by (metis mult_eq_0_iff unat_0 zero_neq_numeral)
  have own: "\<not> owns s (pmman_block_addr b)" using owns_fresh [OF _ al(3,4)] by blast
  have "free_blocks ?m = insert b (free_blocks mp)" "b \<notin> free_blocks mp" "finite (free_blocks mp)"
    using al(3-5) by (auto simp: free_blocks_def)
  then have "card (free_blocks ?m) = Suc (card (free_blocks mp))" by simp
  moreover have "owns (s\<lparr>pmman_kernel_map := mp\<rparr>) (pmman_block_addr b)" using al by (auto simp: owns_def)
  ultimately show ?thesis using al nz own
    by (auto simp: proc_create_def created_def owns_def)
qed

text \<open>A process that an earlier state did not own lies in memory that was free then.\<close>

abbreviation keeps_memory :: "sched_t \<Rightarrow> sched_t \<Rightarrow> bool" where
  "keeps_memory s s' \<equiv> in_use (pmman_kernel_map s) \<subseteq> in_use (pmman_kernel_map s')"

lemma owns_mono: "keeps_memory s s' \<Longrightarrow> owns s p \<Longrightarrow> owns s' p"
  unfolding owns_def by blast

lemma proc_init_scheduler_inv:
  assumes m: "pmman_inv (pmman_kernel_map s)" "0 \<in> in_use (pmman_kernel_map s)"
    and free: "card (free_blocks (pmman_kernel_map s)) = Suc n"
    and empty: "ready_q s = 0" "waiting_q s = 0" "proc_current s = 0" "sched_lock s = 0"
  shows "\<exists>s'. proc_init_scheduler st idle_fn name s = Some s' \<and> sched_inv s' [] [] \<and> proc_current s' = 0 \<and>
    p_entry (procs s' (proc_idle s')) = idle_fn \<and> card (free_blocks (pmman_kernel_map s')) = n \<and>
    \<not> owns s (proc_idle s') \<and> keeps_memory s s'"
proof -
  from proc_create_created [OF m, of st idle_fn name] free obtain p s1 where
    p: "proc_create st idle_fn name s = Some (p, s1)" "created p idle_fn s s1" by auto
  let ?s = "upd_proc p (\<lambda>q. q\<lparr>p_state := PROC_IDLE\<rparr>) (s1\<lparr>proc_idle := p\<rparr>)"
  have "proc_init_scheduler st idle_fn name s = Some ?s" by (simp add: proc_init_scheduler_def p(1))
  moreover have "sched_inv ?s [] []"
    using p(2) m(2) empty
    by (auto simp: sched_inv_as_def sched_core_def queues_def at_rest_as_def tasks_def created_def owns_def)
  ultimately show ?thesis using p(2) empty free by (auto simp: created_def)
qed

lemma boot_spawn_inv:
  assumes inv: "sched_inv s rs ws" and free: "card (free_blocks (pmman_kernel_map s)) = Suc n"
  shows "\<exists>p s'. boot_spawn st entry name s = Some s' \<and> sched_inv s' (p # rs) ws \<and> p_entry (procs s' p) = entry \<and>
    (\<forall>x. x \<noteq> p \<longrightarrow> procs s' x = procs s x) \<and> proc_current s' = proc_current s \<and> proc_idle s' = proc_idle s \<and>
    card (free_blocks (pmman_kernel_map s')) = n \<and> \<not> owns s p \<and> keeps_memory s s'"
proof -
  have m: "pmman_inv (pmman_kernel_map s)" "0 \<in> in_use (pmman_kernel_map s)"
    using inv by (auto simp: sched_inv_as_def sched_core_def)
  from proc_create_created [OF m, of st entry name] free obtain p s1 where
    p: "proc_create st entry name s = Some (p, s1)" and c: "created p entry s s1" by auto
  from proc_create_inv [OF inv, of st entry name] p c have
    i: "sched_inv s1 rs ws" "owns s1 p" "p \<notin> insert (proc_idle s1) (tasks s1 rs ws)" "p \<noteq> 0"
    by (auto simp: created_def)
  from proc_register_inv [OF i(1,3,4,2)] obtain s2 where
    r: "proc_register p s1 = Some s2" "sched_inv s2 (p # rs) ws" by blast
  from i(1) obtain cp f where ent: "enter s1 = Some (s1\<lparr>cpu := cp, sched_lock := 1, frame_flags := f\<rparr>)"
    by (auto simp: sched_inv_as_def elim: enter_free)
  have "p_entry (procs s2 p) = p_entry (procs s1 p)" "\<forall>x. x \<noteq> p \<longrightarrow> procs s2 x = procs s1 x"
    "proc_current s2 = proc_current s1" "proc_idle s2 = proc_idle s1" "pmman_kernel_map s2 = pmman_kernel_map s1"
    using r(1) by (auto simp: proc_register_def ent leave_def proc_release_def)
  then show ?thesis using p r c free
    by (auto simp: boot_spawn_def created_def intro!: exI [of _ p])
qed

lemma proc_schedule_first:
  assumes inv: "sched_inv s (q # rs) []" and cur: "proc_current s = 0"
  shows "\<exists>s' rs' ws'. proc_schedule s = Some s' \<and> sched_inv s' rs' ws' \<and> tasks s' rs' ws' = set (q # rs) \<and>
    proc_current s' = q \<and> proc_idle s' = proc_idle s \<and> pmman_kernel_map s' = pmman_kernel_map s \<and> (\<forall>x. p_entry (procs s' x) = p_entry (procs s x))"
proof -
  have core: "sched_core s (q # rs) []" "at_rest s (q # rs) []" using inv by (auto simp: sched_inv_as_def)
  from proc_schedule_inv [OF core(1)] core(2) obtain s' rs' ws' where
    s': "proc_schedule s = Some s'" "sched_core s' rs' ws'" "at_rest s' rs' ws'"
      "tasks s' rs' ws' = tasks s (q # rs) []" "sched_frame s s'" by blast
  have q: "ready_q s = q" "q \<noteq> 0" "waiting_q s = 0"
    using core(1) by (auto simp: sched_core_def queues_def)
  have "proc_schedule s = Some (proc_take_next s)"
    using q cur by (simp add: proc_schedule_def proc_wake_loop.simps)
  with s'(1) have e: "s' = proc_take_next s" by simp
  have "proc_current s' = q" "\<forall>x. p_entry (procs s' x) = p_entry (procs s x)"
    using q cur unfolding e by (auto simp: proc_take_next_def Let_def switch_procs_def)
  moreover have "tasks s (q # rs) [] = set (q # rs)" using cur by (simp add: tasks_def)
  ultimately show ?thesis using s' inv by (auto simp: sched_inv_as_def sched_frame_def)
qed

lemma boot_scheduler_result:
  assumes "pmman_inv (pmman_kernel_map s)" and "0 \<in> in_use (pmman_kernel_map s)"
    and "3 \<le> card (free_blocks (pmman_kernel_map s))"
    and "ready_q s = 0" and "waiting_q s = 0" and "proc_current s = 0" and "sched_lock s = 0"
  shows "\<exists>s' rs ws p q. boot_scheduler lits startup idle_fn wserver wclient s = Some s' \<and> sched_inv s' rs ws \<and>
    tasks s' rs ws = {p, q} \<and> p \<noteq> q \<and> proc_idle s' \<notin> {p, q} \<and> proc_current s' = q \<and>
    p_entry (procs s' p) = wserver \<and> p_entry (procs s' q) = wclient \<and> p_entry (procs s' (proc_idle s')) = idle_fn \<and>
    keeps_memory s s' \<and> (\<forall>x \<in> {proc_idle s', p, q}. owns s' x \<and> \<not> owns s x)"
proof -
  have "card (free_blocks (pmman_kernel_map s)) = Suc (Suc (Suc (card (free_blocks (pmman_kernel_map s)) - 3)))"
    using assms(3) by arith
  then obtain n where n: "card (free_blocks (pmman_kernel_map s)) = Suc (Suc (Suc n))" by (rule that)
  from proc_init_scheduler_inv [OF assms(1,2) n assms(4-7)] obtain s1 where
    s1: "proc_init_scheduler startup idle_fn (lits ''idle'') s = Some s1" "sched_inv s1 [] []" "proc_current s1 = 0"
      "p_entry (procs s1 (proc_idle s1)) = idle_fn" "card (free_blocks (pmman_kernel_map s1)) = Suc (Suc n)"
      "\<not> owns s (proc_idle s1)" "keeps_memory s s1" by blast
  from boot_spawn_inv [OF s1(2,5)] obtain p s2 where
    s2: "boot_spawn startup wserver (lits ''wserver'') s1 = Some s2" "sched_inv s2 [p] []" "p_entry (procs s2 p) = wserver"
      "\<forall>x. x \<noteq> p \<longrightarrow> procs s2 x = procs s1 x" "proc_current s2 = proc_current s1" "proc_idle s2 = proc_idle s1"
      "card (free_blocks (pmman_kernel_map s2)) = Suc n" "\<not> owns s1 p" "keeps_memory s1 s2" by blast
  from boot_spawn_inv [OF s2(2,7)] obtain q s3 where
    s3: "boot_spawn startup wclient (lits ''wclient'') s2 = Some s3" "sched_inv s3 [q, p] []" "p_entry (procs s3 q) = wclient"
      "\<forall>x. x \<noteq> q \<longrightarrow> procs s3 x = procs s2 x" "proc_current s3 = proc_current s2" "proc_idle s3 = proc_idle s2"
      "\<not> owns s2 q" "keeps_memory s2 s3" by blast
  have d: "p \<noteq> q" "proc_idle s3 \<noteq> p" "proc_idle s3 \<noteq> q"
    using s3(2) by (auto simp: sched_inv_as_def sched_core_def queues_def)
  have "proc_current s3 = 0" using s1(3) s2(5) s3(5) by simp
  from proc_schedule_first [OF s3(2) this] obtain s' rs ws where
    s': "proc_schedule s3 = Some s'" "sched_inv s' rs ws" "tasks s' rs ws = set [q, p]" "proc_current s' = q"
      "proc_idle s' = proc_idle s3" "pmman_kernel_map s' = pmman_kernel_map s3" "\<forall>x. p_entry (procs s' x) = p_entry (procs s3 x)" by blast
  have t: "tasks s' rs ws = {p, q}" unfolding s'(3) by auto
  have i: "proc_idle s' \<notin> {p, q}" unfolding s'(5) using d by simp
  have "boot_scheduler lits startup idle_fn wserver wclient s = Some s'"
    by (simp add: boot_scheduler_def s1(1) s2(1) s3(1) s'(1))
  moreover have "p_entry (procs s' p) = wserver" "p_entry (procs s' q) = wclient"
    "p_entry (procs s' (proc_idle s')) = idle_fn"
    using d s1(4) s2(3,4,6) s3(3,4,6) s'(5,7) by simp_all
  moreover have "keeps_memory s s'" using s1(7) s2(9) s3(8) unfolding s'(6) by blast
  moreover have "\<forall>x \<in> {proc_idle s', p, q}. owns s' x \<and> \<not> owns s x"
  proof -
    have "\<not> owns s (proc_idle s')" using s1(6) unfolding s'(5) s3(6) s2(6) .
    moreover have "\<not> owns s p" using s2(8) owns_mono [OF s1(7)] by blast
    moreover have "\<not> owns s q" using s3(7) owns_mono [OF s2(9)] owns_mono [OF s1(7)] by blast
    moreover have "owns s' y" if "y \<in> insert (proc_idle s') (tasks s' rs ws)" for y
      using s'(2) that by (auto simp: sched_inv_as_def sched_core_def)
    ultimately show ?thesis using t by auto
  qed
  ultimately show ?thesis using s'(2,4) t i d(1) by (intro exI conjI)
qed

text \<open>
  The scheduler comes up in a good state: from empty queues, a free lock and a well-formed bitmap with
  three free blocks, \<^verbatim>\<open>kernel_enter\<close> creates the idle process and the two first processes, and the first run
  of the scheduler returns with the second of them running; the invariant that every later operation
  keeps holds, the processes are exactly those two, each with its own entry point, and the idle process is
  apart from both.
\<close>

lemma boot_scheduler_starts:
  assumes "pmman_inv (pmman_kernel_map s)" and "0 \<in> in_use (pmman_kernel_map s)"
    and "3 \<le> card (free_blocks (pmman_kernel_map s))"
    and "ready_q s = 0" and "waiting_q s = 0" and "proc_current s = 0" and "sched_lock s = 0"
  shows "\<exists>s' rs ws p q. boot_scheduler lits startup idle_fn wserver wclient s = Some s' \<and> sched_inv s' rs ws \<and>
    tasks s' rs ws = {p, q} \<and> p \<noteq> q \<and> proc_idle s' \<notin> {p, q} \<and> proc_current s' = q \<and>
    p_entry (procs s' p) = wserver \<and> p_entry (procs s' q) = wclient \<and> p_entry (procs s' (proc_idle s')) = idle_fn"
  using boot_scheduler_result [OF assms, of lits startup idle_fn wserver wclient] by blast

definition boot_state :: sched_t where
  "boot_state = sample_sched\<lparr>proc_current := 0, proc_idle := 0, ready_q := 0\<rparr>"

lemma boot_state_fields:
  "pmman_kernel_map boot_state = pmman_kernel_map sample_sched" "ready_q boot_state = 0" "waiting_q boot_state = 0"
  "proc_current boot_state = 0" "sched_lock boot_state = 0"
  by (simp_all add: boot_state_def sample_fields)

lemma boot_state_free: "3 \<le> card (free_blocks (pmman_kernel_map boot_state))"
proof -
  have z: "pm_bits (pmman_kernel_map sample_sched) ! 1 = 0" by (simp add: sample_sched_def)
  have "k \<in> free_blocks (pmman_kernel_map sample_sched)" if "k \<in> {32, 33, 34}" for k
  proof -
    have "k div 32 = 1" "k < 1024" using that by auto
    then show ?thesis using z by (simp add: free_blocks_def in_use_def used_def)
  qed
  then have "{32, 33, 34} \<subseteq> free_blocks (pmman_kernel_map boot_state)" unfolding boot_state_fields(1) by blast
  moreover have "finite (free_blocks (pmman_kernel_map boot_state))" by (simp add: free_blocks_def)
  ultimately have "card {32, 33, 34 :: nat} \<le> card (free_blocks (pmman_kernel_map boot_state))" by (rule card_mono [rotated])
  then show ?thesis by simp
qed

lemma boot_scheduler_starts_witness:
  "\<exists>s' rs ws p q. boot_scheduler (\<lambda>_. 0x100800) 0x100000 0x100100 0x100200 0x100300 boot_state = Some s' \<and>
     sched_inv s' rs ws \<and> tasks s' rs ws = {p, q} \<and> proc_current s' = q \<and> p_entry (procs s' q) = 0x100300"
proof -
  have "pmman_inv (pmman_kernel_map boot_state)" "0 \<in> in_use (pmman_kernel_map boot_state)"
    using sample_map_inv sample_map_used [of 0] by (simp_all add: boot_state_fields)
  from boot_scheduler_starts [OF this boot_state_free boot_state_fields(2-5),
      of "\<lambda>_. 0x100800" "0x100000" "0x100100" "0x100200" "0x100300"]
  show ?thesis by blast
qed

section \<open>Starting the other processors\<close>

text \<open>What the loop over the processors does for one of them.\<close>

definition start_step ::
    "'w bus \<Rightarrow> (u8 \<Rightarrow> bool) \<Rightarrow> u8 \<Rightarrow> u8 list \<Rightarrow> apic_t \<Rightarrow> usz \<Rightarrow> u8 \<times> 'w \<Rightarrow> (u8 \<times> 'w) option" where
  "start_step b responds bsp ids apic i st =
     do { core \<leftarrow> arr_get ids i;
          if core \<noteq> bsp then boot_start_core b responds apic core st else Some st }"

lemma boot_start_aps_steps:
  "boot_start_aps b responds cpuid acpi apic st =
     do { (l, w) \<leftarrow> for_range 0 (ucast (acpi_cpu_count acpi))
            (start_step b responds (cpu_lapic_id cpuid) (acpi_lapic_ids acpi) apic) st;
          l \<leftarrow> spinlock_lock l;
          Some (l, w) }"
  by (simp add: boot_start_aps_def start_step_def [abs_def])

text \<open>The processors with an index below \<open>n\<close> are the boot processor or come up.\<close>

definition all_respond :: "(u8 \<Rightarrow> bool) \<Rightarrow> u8 \<Rightarrow> u8 list \<Rightarrow> nat \<Rightarrow> bool" where
  "all_respond responds bsp ids n \<longleftrightarrow> (\<forall>i<n. ids ! i = bsp \<or> responds (ids ! i))"

lemma all_respond_Suc: "all_respond responds bsp ids (Suc n) \<longleftrightarrow>
    all_respond responds bsp ids n \<and> (ids ! n = bsp \<or> responds (ids ! n))"
  by (auto simp: all_respond_def less_Suc_eq)

lemma start_step_responds:
  assumes start: "\<And>c w. good w \<Longrightarrow> \<exists>w'. apic_start_core b apic c w = Some w' \<and> good w'"
    and "good w" and "unat i < length ids" and "ids ! unat i = bsp \<or> responds (ids ! unat i)"
  shows "\<exists>w'. start_step b responds bsp ids apic i (0, w) = Some (0, w') \<and> good w'"
  using assms(2-) start [of w "ids ! unat i"]
  by (auto simp: start_step_def arr_get_def boot_start_core_def ap_enter_def spinlock_release_def)

lemma start_step_lock:
  assumes "start_step b responds bsp ids apic i (l, w) = Some (l', w')" and "l = 0 \<or> l = 1"
  shows "l = 1 \<and> l' = 1 \<or> l = 0 \<and> l' = (if ids ! unat i = bsp \<or> responds (ids ! unat i) then 0 else 1)"
  using assms
  by (auto simp: start_step_def arr_get_def boot_start_core_def ap_enter_def spinlock_release_def
      split: if_splits bind_splits)

lemma start_loop_returns:
  assumes start: "\<And>c w. good w \<Longrightarrow> \<exists>w'. apic_start_core b apic c w = Some w' \<and> good w'"
    and "good w" and len: "unat n \<le> length ids" and all: "all_respond responds bsp ids (unat n)"
  shows "\<exists>w'. for_range 0 n (start_step b responds bsp ids apic) (0, w) = Some (0, w')"
proof -
  let ?P = "\<lambda>(i :: usz) s. fst s = (0 :: u8) \<and> good (snd s)"
  have "\<exists>s. for_range 0 n (start_step b responds bsp ids apic) (0, w) = Some s \<and> ?P n s"
  proof (rule for_range_rule)
    fix i s assume i: "i < n" and s: "?P i s"
    have "unat i < unat n" using i by (simp add: word_less_nat_alt)
    then have "unat i < length ids" "ids ! unat i = bsp \<or> responds (ids ! unat i)"
      using len all by (auto simp: all_respond_def)
    from start_step_responds [where good = good and responds = responds, OF start _ this, of "snd s"] s obtain w' where
      "start_step b responds bsp ids apic i (0, snd s) = Some (0, w')" "good w'" by blast
    moreover have "s = (0, snd s)" using s by (simp add: prod_eq_iff)
    ultimately show "\<exists>s'. start_step b responds bsp ids apic i s = Some s' \<and> ?P (i + 1) s'" by auto
  qed (use assms(2) in auto)
  then show ?thesis by auto
qed

lemma start_loop_lock:
  assumes loop: "for_range 0 n (start_step b responds bsp ids apic) (0, w) = Some (l, w')"
  shows "l = 1 \<or> l = 0 \<and> all_respond responds bsp ids (unat n)"
proof -
  let ?P = "\<lambda>(i :: usz) s. fst s = (1 :: u8) \<or> fst s = 0 \<and> all_respond responds bsp ids (unat i)"
  have "?P n (l, w')"
  proof (rule for_range_inv [OF loop, where P = ?P])
    fix i s s' assume i: "i < n" and P: "?P i s" and st: "start_step b responds bsp ids apic i s = Some s'"
    have "unat (i + 1) = Suc (unat i)" using unat_succ_less [OF i] .
    with start_step_lock [of b responds bsp ids apic i "fst s" "snd s" "fst s'" "snd s'"] st P
    show "?P (i + 1) s'" by (auto simp: all_respond_Suc split: if_splits)
  qed (simp_all add: all_respond_def)
  then show ?thesis by simp
qed

text \<open>
  C24  If the local APIC delivers its commands and the clock lets the delays end, the start of the other
  processors returns if and only if every processor that ACPI lists, other than the boot processor, comes
  up and releases \<^verbatim>\<open>ap_init_lock\<close>.  There is no time limit: one silent processor stops the kernel for good.
\<close>

theorem boot_start_aps_returns_iff:
  assumes "\<And>c w. good w \<Longrightarrow> \<exists>w'. apic_start_core b apic c w = Some w' \<and> good w'"
    and "good w" and "unat (acpi_cpu_count acpi) \<le> length (acpi_lapic_ids acpi)"
  shows "(\<exists>r. boot_start_aps b responds cpuid acpi apic (0, w) = Some r) \<longleftrightarrow>
    all_respond responds (cpu_lapic_id cpuid) (acpi_lapic_ids acpi) (unat (acpi_cpu_count acpi))"
    (is "?returns \<longleftrightarrow> ?all")
proof -
  let ?n = "ucast (acpi_cpu_count acpi) :: usz"
  have n: "unat ?n = unat (acpi_cpu_count acpi)"
    by (simp add: unsigned_ucast_eq take_bit_nat_eq_self less_trans [OF unsigned_less])
  have "?returns" if ?all
    using start_loop_returns [where good = good, OF assms(1,2), of ?n "acpi_lapic_ids acpi" responds "cpu_lapic_id cpuid"] assms(3) that
    by (auto simp: boot_start_aps_steps n)
  moreover have ?all if ?returns
  proof -
    from that obtain l w' where loop: "for_range 0 ?n (start_step b responds (cpu_lapic_id cpuid) (acpi_lapic_ids acpi) apic) (0, w) =
      Some (l, w')" and "spinlock_lock l \<noteq> None" by (auto simp: boot_start_aps_steps split: bind_splits)
    then have "l \<noteq> 1" by auto
    with start_loop_lock [OF loop] n show ?thesis by simp
  qed
  ultimately show ?thesis by blast
qed

text \<open>Two processors, number 0 the boot processor, and a clock that has moved on at every second reading.\<close>

definition quick_bus :: "bool bus" where
  "quick_bus = \<lparr>bus_inb = \<lambda>_ w. (0, w), bus_inw = \<lambda>_ w. (0, w), bus_inl = \<lambda>_ w. (0, w),
     bus_outb = \<lambda>_ _ w. w, bus_outw = \<lambda>_ _ w. w, bus_outl = \<lambda>_ _ w. w,
     bus_ldl = \<lambda>_ w. (0, w), bus_stl = \<lambda>_ _ w. w, bus_time = \<lambda>w. (if w then 100 else 0, \<not> w)\<rparr>"

lemma quick_time: "bus_time quick_bus w = (if w then 100 else 0, \<not> w)"
  by (simp add: quick_bus_def)

lemma quick_sleep: "m < 100 \<Longrightarrow> pit_sleep_msec quick_bus m False = Some False"
  unfolding pit_sleep_msec_def quick_time by (simp add: pit_wait.simps [of _ _ True] quick_time linorder_not_le [symmetric])

lemma quick_delivered: "apic_delivered quick_bus a w = Some w"
  by (subst apic_delivered.simps) (simp add: lapic_read_def quick_bus_def)

lemma quick_start: "\<not> w \<Longrightarrow> \<exists>w'. apic_start_core quick_bus a c w = Some w' \<and> \<not> w'"
proof -
  have "lapic_write quick_bus a r v w = w" for r v w by (simp add: lapic_write_def quick_bus_def)
  then show "\<not> w \<Longrightarrow> ?thesis" by (simp add: apic_start_core_def quick_delivered quick_sleep exI [of Not False])
qed

theorem boot_start_aps_returns_iff_witness:
  "(\<exists>r. boot_start_aps quick_bus (\<lambda>c. c = 1) (\<lambda>_. \<lparr>r_eax = 0, r_ebx = 0, r_ecx = 0, r_edx = 0\<rparr>)
      (acpi_start\<lparr>acpi_cpu_count := 2, acpi_lapic_ids := [0, 1]\<rparr>) \<lparr>lapic_base = 0xFEE00000, ioapic_base = 0xFEC00000\<rparr>
      (0, False) = Some r) \<and>
   \<not> (\<exists>r. boot_start_aps quick_bus (\<lambda>c. False) (\<lambda>_. \<lparr>r_eax = 0, r_ebx = 0, r_ecx = 0, r_edx = 0\<rparr>)
      (acpi_start\<lparr>acpi_cpu_count := 2, acpi_lapic_ids := [0, 1]\<rparr>) \<lparr>lapic_base = 0xFEE00000, ioapic_base = 0xFEC00000\<rparr>
      (0, False) = Some r)"
  by (subst (1 2) boot_start_aps_returns_iff [where good = Not, OF quick_start])
    (auto simp: all_respond_def cpu_lapic_id_def less_2_cases_iff intro: exI [of _ 1])

section \<open>The start as a whole\<close>

text \<open>
  The part of \<^verbatim>\<open>kernel_enter\<close> between the set-up of the memory and the start of the scheduler, on the
  memory \<open>m\<close>: what it leaves is the machine but for the scheduler.
\<close>

definition boot_devices :: "'w bus \<Rightarrow> boot_env \<Rightarrow> 'w machine \<Rightarrow> mem \<Rightarrow> ('w fs_t \<times> 'w machine) option" where
  "boot_devices b e mc m =
     do { let info = bootinf (mc_mem mc) (be_boot_info e);
          let m = gdt_make_flat (be_gdt e) m;
          let gdt_desc = \<lparr>gdt_desc_size = 3 * 8, gdt_desc_addr = be_gdt e\<rparr>;
          let tables = lgdt gdt_desc (mc_tables mc);
          let idt = idt_make_default (be_isr e) (be_isr_sys e) (mc_idt mc);
          let idt_desc = \<lparr>idt_desc_size = 256 * 8, idt_desc_addr = be_idt e\<rparr>;
          let tables = lidt idt_desc tables;
          acpi \<leftarrow> acpi_initialize (be_lits e) m (mc_acpi mc);
          let w = pic_initialize b (mc_world mc);
          let (lbase, iobase, msrs) = boot_apic_base (be_cpuid e) acpi (mc_msrs mc);
          (mode, apic, w) \<leftarrow> boot_interrupts b lbase iobase acpi (mc_apic mc) w;
          let (fb, mouse, m) = boot_vga m (bi_mib info) (mc_mouse mc);
          (mouse, ps2, w) \<leftarrow> boot_ps2 b mouse (mc_ps2 mc) w;
          (drive_count, ide, m, w) \<leftarrow> boot_ide b (be_lits e) (be_pci_devices e) (mc_ide mc) (m, w);
          (m, l, w) \<leftarrow> boot_aps b e lbase acpi apic (m, mc_ap_init_lock mc, w);
          drive \<leftarrow> arr_get (ide_drives ide) 0;
          let (_, rootfs) = dfs_init (ide_read_drive b ide drive) (be_buf e);
          Some (rootfs, \<lparr>mc_mem = m, mc_world = w, mc_msrs = msrs, mc_gdt_desc = gdt_desc, mc_idt = idt, mc_idt_desc = idt_desc,
            mc_tables = tables, mc_acpi = acpi, mc_apic = apic,
            mc_interrupt_mode = mode, mc_fb = fb, mc_mouse = mouse, mc_ps2 = ps2, mc_ide = ide, mc_ap_init_lock = l,
            mc_sched = mc_sched mc\<rparr>) }"

lemma kernel_enter_stages:
  "kernel_enter b e mc =
     do { (pmkmap, m) \<leftarrow> boot_memory (bootinf (mc_mem mc) (be_boot_info e)) (mc_mem mc);
          (rootfs, mc') \<leftarrow> boot_devices b e mc m;
          sched \<leftarrow> boot_scheduler (be_lits e) (be_startup e) (be_idle_fn e) (be_wserver e) (be_wclient e)
            ((mc_sched mc)\<lparr>cpu := cli (sti (cpu (mc_sched mc))), pmman_kernel_map := pmkmap\<rparr>);
          Some (rootfs, mc'\<lparr>mc_sched := sched\<rparr>) }"
  unfolding kernel_enter_def boot_devices_def Let_def
  by (simp add: Option.bind_assoc split_def)

text \<open>
  The tables that the processor uses afterwards.  The limits are the sizes of the tables, not the offsets of
  their last bytes, but the eight bytes of a further entry do not fit.
\<close>

lemma kernel_enter_tables:
  assumes "kernel_enter b e mc = Some (rootfs, mc')"
  shows "mc_tables mc' = \<lparr>gdtr = (24, be_gdt e), idtr = (2048, be_idt e)\<rparr>"
    and "in_table (gdtr (mc_tables mc')) n \<longleftrightarrow> n < 3" and "in_table (idtr (mc_tables mc')) n \<longleftrightarrow> n < 256"
proof -
  show t: "mc_tables mc' = \<lparr>gdtr = (24, be_gdt e), idtr = (2048, be_idt e)\<rparr>"
    using assms unfolding kernel_enter_def Let_def
    by (cases "mc_tables mc") (auto simp: lgdt_def lidt_def split: bind_splits prod.splits)
  show "in_table (gdtr (mc_tables mc')) n \<longleftrightarrow> n < 3" "in_table (idtr (mc_tables mc')) n \<longleftrightarrow> n < 256"
    by (auto simp: t in_table_def)
qed

definition entries_ok :: "memmap_t list \<Rightarrow> bool" where
  "entries_ok es \<longleftrightarrow> es \<noteq> [] \<and> (\<forall>e \<in> set es. mm_base e \<noteq> - 1 \<and> unat (mm_base e) + unat (mm_len e) < 2 ^ 64)"

definition boot_entries :: "bootinf_t \<Rightarrow> mem \<Rightarrow> memmap_t list" where
  "boot_entries info m = memmap_entries m (bi_memmap info) (unat (bi_memmap_entry_count info))"

text \<open>The memory of the kernel, the low BIOS memory and the memory map, and the blocks that are set aside for them.\<close>

definition reserved :: "bootinf_t \<Rightarrow> nat set" where
  "reserved info = region (bi_kernel_start info) (kernel_len info) \<union> region 0 0x7C00 \<union>
     region (bi_memmap info) (memmap_len info)"

definition reserved_blocks :: "bootinf_t \<Rightarrow> nat set" where
  "reserved_blocks info = region_blocks (bi_kernel_start info) (kernel_len info) \<union> region_blocks 0 0x7C00 \<union>
     region_blocks (bi_memmap info) (memmap_len info)"

definition covered_info :: "bootinf_t \<Rightarrow> bool" where
  "covered_info info \<longleftrightarrow> covered (bi_kernel_start info) (kernel_len info) \<and> covered (bi_memmap info) (memmap_len info)"

text \<open>The blocks that are free once the memory has been set up.\<close>

definition boot_free_blocks :: "bootinf_t \<Rightarrow> mem \<Rightarrow> nat set" where
  "boot_free_blocks info m = ({..<1024} \<inter> (\<Union>e \<in> set (boot_entries info m). entry_blocks e)) - reserved_blocks info"

definition block_bytes :: "addr \<Rightarrow> nat set" where
  "block_bytes p = {unat p ..< unat p + 16384}"

lemma reserved_block: "covered_info info \<Longrightarrow> x \<in> reserved info \<Longrightarrow> x div 16384 \<in> reserved_blocks info"
  unfolding covered_info_def reserved_def reserved_blocks_def
  using covered_block covered_low by (metis Un_iff)

lemma fresh_block_apart:
  assumes cov: "covered_info info" and sub: "reserved_blocks info \<subseteq> in_use (pmman_kernel_map s)"
    and own: "owns s' p" "\<not> owns s p"
  shows "block_bytes p \<inter> reserved info = {}"
proof -
  from own obtain b where b: "b < 1024" "p = pmman_block_addr b" "b \<notin> in_use (pmman_kernel_map s)"
    by (auto simp: owns_def)
  have "x div 16384 = b" if "x \<in> block_bytes p" for x
    using that b(1) by (auto simp: block_bytes_def b(2) unat_block_addr intro!: div_nat_eqI)
  with reserved_block [OF cov] b(3) sub show ?thesis by blast
qed

lemma boot_memory_free:
  assumes "entries_ok (boot_entries info m)" and "covered_info info"
  shows "\<exists>mp m'. boot_memory info m = Some (mp, m') \<and> pmman_inv mp \<and> 0 \<in> in_use mp \<and>
    reserved_blocks info \<subseteq> in_use mp \<and> free_blocks mp = boot_free_blocks info m"
proof -
  have "bi_memmap_entry_count info \<noteq> 0" using assms(1) by (auto simp: entries_ok_def boot_entries_def memmap_entries_def)
  then have pos: "0 < bi_memmap_entry_count info" by (simp add: word_neq_0_conv)
  have ok: "\<forall>e \<in> set (memmap_entries m (bi_memmap info) (unat (bi_memmap_entry_count info))).
      mm_base e \<noteq> - 1 \<and> unat (mm_base e) + unat (mm_len e) < 2 ^ 64"
    using assms(1) unfolding entries_ok_def boot_entries_def by blast
  have cov: "covered (bi_kernel_start info) (kernel_len info)" "covered (bi_memmap info) (memmap_len info)"
    using assms(2) by (simp_all add: covered_info_def)
  from boot_memory_result [OF pos ok cov] obtain mp m' where mp: "boot_memory info m = Some (mp, m')" "pmman_inv mp"
    and iu: "in_use mp = {..<1024} - (\<Union>e \<in> set (boot_entries info m). entry_blocks e) \<union> reserved_blocks info"
    unfolding boot_entries_def reserved_blocks_def Un_assoc by blast
  have "0 \<in> in_use mp" using zero_low unfolding iu reserved_blocks_def by blast
  moreover have "free_blocks mp = boot_free_blocks info m" unfolding free_blocks_def iu boot_free_blocks_def by blast
  ultimately show ?thesis using mp iu by blast
qed

text \<open>
  With a usable memory map and three blocks of free memory beside the kernel, the start gets to the first
  process exactly when the initialisation of the devices returns.
\<close>

lemma kernel_enter_starts:
  assumes "entries_ok (boot_entries (bootinf (mc_mem mc) (be_boot_info e)) (mc_mem mc))"
    and "covered_info (bootinf (mc_mem mc) (be_boot_info e))"
    and "3 \<le> card (boot_free_blocks (bootinf (mc_mem mc) (be_boot_info e)) (mc_mem mc))"
    and "ready_q (mc_sched mc) = 0" and "waiting_q (mc_sched mc) = 0"
    and "proc_current (mc_sched mc) = 0" and "sched_lock (mc_sched mc) = 0"
  shows "\<exists>mp m. boot_memory (bootinf (mc_mem mc) (be_boot_info e)) (mc_mem mc) = Some (mp, m) \<and>
    (case boot_devices b e mc m of None \<Rightarrow> kernel_enter b e mc = None
     | Some (rootfs, mc') \<Rightarrow> \<exists>s rs ws p q. kernel_enter b e mc = Some (rootfs, mc'\<lparr>mc_sched := s\<rparr>) \<and>
         sched_inv s rs ws \<and> tasks s rs ws = {p, q} \<and> p \<noteq> q \<and> proc_idle s \<notin> {p, q} \<and> proc_current s = q \<and>
         p_entry (procs s p) = be_wserver e \<and> p_entry (procs s q) = be_wclient e \<and>
         (block_bytes (proc_idle s) \<union> block_bytes p \<union> block_bytes q) \<inter> reserved (bootinf (mc_mem mc) (be_boot_info e)) = {} \<and>
         reserved_blocks (bootinf (mc_mem mc) (be_boot_info e)) \<subseteq> in_use (pmman_kernel_map s) \<and>
         (\<forall>x \<in> {proc_idle s, p, q}. \<forall>r \<in> reserved_blocks (bootinf (mc_mem mc) (be_boot_info e)). x \<noteq> pmman_block_addr r))"
proof -
  let ?i = "bootinf (mc_mem mc) (be_boot_info e)"
  from boot_memory_free [OF assms(1,2)] obtain mp m where
    mp: "boot_memory ?i (mc_mem mc) = Some (mp, m)" "pmman_inv mp" "0 \<in> in_use mp" "reserved_blocks ?i \<subseteq> in_use mp"
      "free_blocks mp = boot_free_blocks ?i (mc_mem mc)" by blast
  let ?s = "(mc_sched mc)\<lparr>cpu := cli (sti (cpu (mc_sched mc))), pmman_kernel_map := mp\<rparr>"
  from boot_scheduler_result [of ?s "be_lits e" "be_startup e" "be_idle_fn e" "be_wserver e" "be_wclient e"]
    mp(2,3) assms(3-7) obtain s rs ws p q where
    sc: "boot_scheduler (be_lits e) (be_startup e) (be_idle_fn e) (be_wserver e) (be_wclient e) ?s = Some s"
      "sched_inv s rs ws" "tasks s rs ws = {p, q}" "p \<noteq> q" "proc_idle s \<notin> {p, q}" "proc_current s = q"
      "p_entry (procs s p) = be_wserver e" "p_entry (procs s q) = be_wclient e"
    and own: "keeps_memory ?s s" "\<forall>x \<in> {proc_idle s, p, q}. owns s x \<and> \<not> owns ?s x"
    by (simp add: mp(5)) blast
  have sub: "reserved_blocks ?i \<subseteq> in_use (pmman_kernel_map ?s)" using mp(4) by simp
  have "block_bytes x \<inter> reserved ?i = {}" if "x \<in> {proc_idle s, p, q}" for x
    using fresh_block_apart [OF assms(2) sub] own(2) that by blast
  then have apart: "(block_bytes (proc_idle s) \<union> block_bytes p \<union> block_bytes q) \<inter> reserved ?i = {}"
    unfolding Int_Un_distrib2 by blast
  have used: "reserved_blocks ?i \<subseteq> in_use (pmman_kernel_map s)" using sub own(1) by (rule subset_trans)
  have fresh: "\<forall>x \<in> {proc_idle s, p, q}. \<forall>r \<in> reserved_blocks ?i. x \<noteq> pmman_block_addr r"
    using own(2) sub unfolding owns_def in_use_def by blast
  have enter: "kernel_enter b e mc =
      map_option (\<lambda>(rootfs, mc'). (rootfs, mc'\<lparr>mc_sched := s\<rparr>)) (boot_devices b e mc m)"
    by (cases "boot_devices b e mc m") (simp_all add: kernel_enter_stages mp(1) sc(1) split_def)
  show ?thesis
    by (intro exI [of _ mp] exI [of _ m] conjI mp(1))
      (use sc(2-) apart used fresh in \<open>auto simp: enter split: option.split intro!: exI\<close>)
qed

end
