(* ===== verification/Boot.thy ===== *)
theory Boot
  imports Kernel
begin

text \<open>
  The start of the kernel on a machine with the legacy interrupt controller and no ACPI tables: what the
  devices have to do for \<^verbatim>\<open>kernel_enter\<close> to get to its first process, and that it does.
\<close>

section \<open>The IDE controller\<close>

text \<open>
  What the search for drives relies on: the busy bit clears sooner or later; a drive that shows a status
  after the identify command sooner or later asks for the transfer or reports an error, and one that was
  sent the packet variant asks for the transfer.  \<open>ident\<close> and \<open>atapi\<close> hold while such a command is pending.
\<close>

definition ide_answers :: "'w bus \<Rightarrow> ('w \<Rightarrow> bool) \<Rightarrow> ('w \<Rightarrow> bool) \<Rightarrow> u16 \<times> u16 \<Rightarrow> bool" where
  "ide_answers b ident atapi = (\<lambda>(base, ctrl).
     let status = base + ATA_REG_STATUS
     in (\<forall>w. \<exists>k. fst (inb b status (after_reads b status k w)) AND ATA_SR_BSY = 0) \<and>
        (\<forall>w. let w1 = ide_delay b ctrl (outb b (base + ATA_REG_COMMAND) ATA_CMD_IDENTIFY w)
             in fst (inb b status w1) \<noteq> 0 \<longrightarrow> ident w1) \<and>
        (\<forall>w port. ident w \<longrightarrow> port \<in> {status, base + ATA_REG_LBA1, base + ATA_REG_LBA2} \<longrightarrow> ident (snd (inb b port w))) \<and>
        (\<forall>w. ident w \<longrightarrow> (\<exists>k. fst (inb b status (after_reads b status k w)) AND (ATA_SR_DRQ OR ATA_SR_ERR) \<noteq> 0)) \<and>
        (\<forall>w. atapi (ide_delay b ctrl (outb b (base + ATA_REG_COMMAND) ATA_CMD_IDENTIFY_PACKET w))) \<and>
        (\<forall>w. atapi w \<longrightarrow> (\<exists>k. fst (inb b status (after_reads b status k w)) AND ATA_SR_DRQ \<noteq> 0)))"

lemma ide_answersD:
  assumes "ide_answers b ident atapi (base, ctrl)"
  shows "\<exists>k. fst (inb b (base + ATA_REG_STATUS) (after_reads b (base + ATA_REG_STATUS) k w)) AND ATA_SR_BSY = 0"
    and "fst (inb b (base + ATA_REG_STATUS) (ide_delay b ctrl (outb b (base + ATA_REG_COMMAND) ATA_CMD_IDENTIFY w))) \<noteq> 0 \<Longrightarrow>
      ident (ide_delay b ctrl (outb b (base + ATA_REG_COMMAND) ATA_CMD_IDENTIFY w))"
    and "ident w \<Longrightarrow> port \<in> {base + ATA_REG_STATUS, base + ATA_REG_LBA1, base + ATA_REG_LBA2} \<Longrightarrow>
      ident (snd (inb b port w))"
    and "ident w \<Longrightarrow> \<exists>k. fst (inb b (base + ATA_REG_STATUS) (after_reads b (base + ATA_REG_STATUS) k w)) AND
      (ATA_SR_DRQ OR ATA_SR_ERR) \<noteq> 0"
    and "atapi (ide_delay b ctrl (outb b (base + ATA_REG_COMMAND) ATA_CMD_IDENTIFY_PACKET w))"
    and "atapi w \<Longrightarrow> \<exists>k. fst (inb b (base + ATA_REG_STATUS) (after_reads b (base + ATA_REG_STATUS) k w)) AND ATA_SR_DRQ \<noteq> 0"
  using assms unfolding ide_answers_def case_prod_conv Let_def by (elim conjE, blast)+

lemma poll_until_result:
  assumes "\<exists>k. ok (fst (inb b port (after_reads b port k w)))"
  shows "\<exists>v k. poll_until b port ok w = Some (v, after_reads b port k w)"
proof -
  from assms poll_until_terminates [of ok b port _ w] obtain k where
    "poll_until b port ok w = Some (inb b port (after_reads b port k w))" by blast
  moreover have "snd (inb b port (after_reads b port k w)) = after_reads b port (Suc k) w"
    by (induction k arbitrary: w) simp_all
  ultimately show ?thesis by (metis prod.collapse)
qed

lemma after_reads_pred: "(\<And>w. P w \<Longrightarrow> P (snd (inb b port w))) \<Longrightarrow> P w \<Longrightarrow> P (after_reads b port k w)"
  by (induction k arbitrary: w) simp_all

lemma ide_poll_ident_returns:
  assumes "fst (inb b port (after_reads b port k w)) AND (ATA_SR_DRQ OR ATA_SR_ERR) \<noteq> 0"
  shows "returns (ide_poll_ident b port w)"
  using assms
proof (induction k arbitrary: w)
  case 0
  then have "fst (inb b port w) AND ATA_SR_DRQ \<noteq> 0 \<or> fst (inb b port w) AND ATA_SR_ERR \<noteq> 0"
    unfolding after_reads.simps bit.conj_disj_distrib by (metis or.right_neutral)
  then show ?case by (subst ide_poll_ident.simps) (auto simp: returns_def case_prod_beta Let_def)
next
  case (Suc k)
  then have "returns (ide_poll_ident b port (snd (inb b port w)))" by simp
  then show ?case by (subst ide_poll_ident.simps) (auto simp: returns_def case_prod_beta Let_def)
qed

text \<open>A drive is found or not; it takes at most one entry of the table.\<close>

definition ide_step :: "ide_t \<Rightarrow> ide_t \<Rightarrow> bool" where
  "ide_step s s' \<longleftrightarrow> ide_channels s' = ide_channels s \<and> length (ide_drives s') = length (ide_drives s) \<and>
     unat (ide_drive_count s') \<le> unat (ide_drive_count s) + 1"

lemma ide_step_refl: "ide_step s s"
  by (simp add: ide_step_def)

lemma ide_found_returns:
  assumes "unat (ide_drive_count s) < length (ide_drives s)"
  shows "\<exists>s' w'. ide_found b base channel bus type s w = Some (s', w') \<and> ide_step s s'"
proof -
  have "unat (ide_drive_count s + 1) \<le> unat (ide_drive_count s) + 1"
    by (simp add: unat_plus_if') arith
  then show ?thesis using assms
    by (simp add: ide_found_def ide_add_drive_def Let_def case_prod_beta ide_step_def
        del: ide_trim_name.simps ide_copy_name.simps ide_read_words.simps)
qed

text \<open>The search for one drive returns, whatever the drive answers.\<close>

lemma ide_check_returns:
  assumes ans: "ide_answers b ident atapi (base_port ch, ctrl_port ch)"
    and ch: "arr_get (ide_channels s) (ucast channel) = Some ch"
    and room: "unat (ide_drive_count s) < length (ide_drives s)"
  shows "\<exists>s' w'. ide_check_and_add_drive b channel bus s w = Some (s', w') \<and> ide_step s s'"
proof -
  let ?st = "base_port ch + ATA_REG_STATUS"
  note a = ide_answersD [OF ans]
  have bsy: "\<exists>k. ide_wait_bsy b ?st w = Some (after_reads b ?st k w)" for w
  proof -
    have "\<exists>k. fst (inb b ?st (after_reads b ?st k w)) AND ATA_SR_BSY = 0" by (rule a(1))
    from poll_until_result [of "\<lambda>v. v AND ATA_SR_BSY = 0", OF this] show ?thesis by (auto simp: ide_wait_bsy_def)
  qed
  have drq: "\<exists>w'. ide_await_drq b ?st w = Some w'" if "atapi w" for w
  proof -
    have "\<exists>k. fst (inb b ?st (after_reads b ?st k w)) AND ATA_SR_DRQ \<noteq> 0" using that by (rule a(6))
    from poll_until_result [of "\<lambda>v. v AND ATA_SR_DRQ \<noteq> 0", OF this] show ?thesis by (auto simp: ide_await_drq_def)
  qed
  have keep: "ident (snd (inb b port w))"
    if "ident w" "port \<in> {?st, base_port ch + ATA_REG_LBA1, base_port ch + ATA_REG_LBA2}" for port w
    using that by (rule a(3))
  have poll: "\<exists>found w'. ide_poll_ident b ?st w = Some (found, w')" if "ident w" for w
  proof -
    from a(4) [OF that] obtain k where
      "fst (inb b ?st (after_reads b ?st k w)) AND (ATA_SR_DRQ OR ATA_SR_ERR) \<noteq> 0" ..
    from ide_poll_ident_returns [OF this] show ?thesis by (simp add: returns_def)
  qed
  define w1 where "w1 = ide_delay b (ctrl_port ch) (outbs b [(base_port ch + ATA_REG_LBA0, 0), (base_port ch + ATA_REG_LBA1, 0),
    (base_port ch + ATA_REG_LBA2, 0), (base_port ch + ATA_REG_COMMAND, ATA_CMD_IDENTIFY)]
      (ide_delay b (ctrl_port ch) (outb b (base_port ch + ATA_REG_DEVSEL) (0xA0 OR push_bit 4 bus) w)))"
  obtain st w2 where r2: "inb b ?st w1 = (st, w2)" by (cases "inb b ?st w1") auto
  from bsy [of w2] obtain k where r3: "ide_wait_bsy b ?st w2 = Some (after_reads b ?st k w2)" ..
  let ?w3 = "after_reads b ?st k w2"
  obtain l1 w4 where r4: "inb b (base_port ch + ATA_REG_LBA1) ?w3 = (l1, w4)" by (cases "inb b (base_port ch + ATA_REG_LBA1) ?w3") auto
  obtain l2 w5 where r5: "inb b (base_port ch + ATA_REG_LBA2) w4 = (l2, w5)" by (cases "inb b (base_port ch + ATA_REG_LBA2) w4") auto
  have id: "ident w5" if "st \<noteq> 0"
  proof -
    have "fst (inb b ?st w1) \<noteq> 0" using r2 that by simp
    then have "ident w1" unfolding w1_def outbs_simps by (rule a(2))
    then have "ident w2" using keep [of w1 ?st] r2 by simp
    then have "ident ?w3" by (rule after_reads_pred [where P = ident, rotated]) (rule keep, simp_all)
    then show ?thesis using keep [of ?w3 "base_port ch + ATA_REG_LBA1"] keep [of w4 "base_port ch + ATA_REG_LBA2"] r4 r5 by simp
  qed
  have packet: "\<exists>w'. ide_await_drq b ?st (ide_delay b (ctrl_port ch) (outb b (base_port ch + ATA_REG_COMMAND)
      ATA_CMD_IDENTIFY_PACKET w5)) = Some w'"
    by (rule drq) (rule a(5))
  note step = ide_found_returns [OF room, of b "base_port ch" channel bus]
  have run: "ide_check_and_add_drive b channel bus s w =
      (if st = 0 then Some (s, w2)
       else if l1 = 0x14 \<and> l2 = 0xEB \<or> l1 = 0x69 \<and> l2 = 0x96 then
         do { w \<leftarrow> ide_await_drq b ?st (ide_delay b (ctrl_port ch) (outb b (base_port ch + ATA_REG_COMMAND)
                ATA_CMD_IDENTIFY_PACKET w5));
              ide_found b (base_port ch) channel bus IDE_ATAPI s w }
       else if l1 \<noteq> 0 \<or> l2 \<noteq> 0 then Some (s, w5)
       else do { (found, w) \<leftarrow> ide_poll_ident b ?st w5;
                 if found then ide_found b (base_port ch) channel bus IDE_ATA s w else Some (s, w) })"
    unfolding ide_check_and_add_drive_def Let_def ch bind.bind_lunit w1_def [symmetric] r2 case_prod_conv r3 r4 r5 ..
  show ?thesis
  proof (cases "st = 0")
    case True
    then show ?thesis unfolding run using ide_step_refl by simp
  next
    case False
    from poll [OF id [OF this]] obtain found w6 where p: "ide_poll_ident b ?st w5 = Some (found, w6)" by blast
    from packet obtain w7 where q: "ide_await_drq b ?st (ide_delay b (ctrl_port ch) (outb b (base_port ch + ATA_REG_COMMAND)
      ATA_CMD_IDENTIFY_PACKET w5)) = Some w7" by blast
    show ?thesis
      using False step [of IDE_ATAPI w7] step [of IDE_ATA w6] ide_step_refl [of s]
      unfolding run p q bind.bind_lunit case_prod_conv if_not_P [OF False] by (simp split: if_split)
  qed
qed

definition ide_ports :: "u32 \<Rightarrow> u32 \<Rightarrow> u32 \<Rightarrow> u32 \<Rightarrow> (u16 \<times> u16) list" where
  "ide_ports bar0 bar1 bar2 bar3 = [(ucast (ide_bar bar0 0x1F0), ucast (ide_bar bar1 0x3F6)),
     (ucast (ide_bar bar2 0x170), ucast (ide_bar bar3 0x376))]"

definition ide_ready :: "(u16 \<times> u16) list \<Rightarrow> nat \<Rightarrow> nat \<Rightarrow> ide_t \<Rightarrow> bool" where
  "ide_ready ports k n s \<longleftrightarrow> map (\<lambda>ch. (base_port ch, ctrl_port ch)) (ide_channels s) = ports \<and>
     unat (ide_drive_count s) \<le> k \<and> length (ide_drives s) = n"

lemma ide_check_ready:
  assumes "\<forall>p \<in> set ports. ide_answers b ident atapi p" and "ide_ready ports k n s"
    and "unat channel < length ports" and "k < n"
  shows "\<exists>s' w'. ide_check_and_add_drive b channel bus s w = Some (s', w') \<and> ide_ready ports (k + 1) n s'"
proof -
  let ?ch = "ide_channels s ! unat channel"
  have u: "unat (ucast channel :: u32) = unat channel" by (rule unat_ucast_8_32)
  have ports: "map (\<lambda>ch. (base_port ch, ctrl_port ch)) (ide_channels s) = ports"
    using assms(2) by (simp add: ide_ready_def)
  then have len: "length (ide_channels s) = length ports" by (metis length_map)
  have p: "ports ! unat channel = (base_port ?ch, ctrl_port ?ch)"
    unfolding ports [symmetric] using assms(3) len by (subst nth_map) simp_all
  have "ide_answers b ident atapi (base_port ?ch, ctrl_port ?ch)"
    using assms(1) nth_mem [OF assms(3)] unfolding p by blast
  moreover have "arr_get (ide_channels s) (ucast channel) = Some ?ch" using assms(3) u len by simp
  moreover have "unat (ide_drive_count s) < length (ide_drives s)" using assms(2,4) by (simp add: ide_ready_def)
  ultimately have "\<exists>s' w'. ide_check_and_add_drive b channel bus s w = Some (s', w') \<and> ide_step s s'"
    by (rule ide_check_returns)
  then obtain s' w' where run: "ide_check_and_add_drive b channel bus s w = Some (s', w')" and st: "ide_step s s'" by blast
  have "ide_ready ports (k + 1) n s'" using assms(2) st unfolding ide_ready_def ide_step_def by auto
  with run show ?thesis by blast
qed

lemma ide_initialize_returns:
  assumes "\<forall>p \<in> set (ide_ports bar0 bar1 bar2 bar3). ide_answers b ident atapi p"
    and "ide_drive_count s = 0" and "4 \<le> length (ide_drives s)"
  shows "\<exists>n s' w'. ide_initialize b bar0 bar1 bar2 bar3 bar4 s w = Some (n, s', w') \<and>
    length (ide_drives s') = length (ide_drives s)"
proof -
  let ?ports = "ide_ports bar0 bar1 bar2 bar3" and ?n = "length (ide_drives s)"
  let ?s = "s\<lparr>ide_channels :=
    [\<lparr>base_port = ucast (ide_bar bar0 0x1F0), ctrl_port = ucast (ide_bar bar1 0x3F6), bmide_port = ucast bar4\<rparr>,
     \<lparr>base_port = ucast (ide_bar bar2 0x170), ctrl_port = ucast (ide_bar bar3 0x376), bmide_port = ucast (bar4 + 8)\<rparr>]\<rparr>"
  let ?w = "outbs b [(ucast (ide_bar bar1 0x3F6) + ATA_REG_DEVCTRL, 2), (ucast (ide_bar bar3 0x376) + ATA_REG_DEVCTRL, 2)] w"
  have 0: "ide_ready ?ports 0 ?n ?s" using assms(2) by (simp add: ide_ready_def ide_ports_def)
  note step = ide_check_ready [OF assms(1), where n = ?n]
  have k: "0 < ?n" "0 + 1 < ?n" "0 + 1 + 1 < ?n" "0 + 1 + 1 + 1 < ?n" using assms(3) by linarith+
  have ch: "unat ATA_PRIMARY < length ?ports" "unat ATA_SECONDARY < length ?ports"
    by (simp_all add: ide_ports_def ATA_PRIMARY_def ATA_SECONDARY_def)
  from step [OF 0 ch(1) k(1), of ATA_MASTER ?w] obtain s1 w1 where
    1: "ide_check_and_add_drive b ATA_PRIMARY ATA_MASTER ?s ?w = Some (s1, w1)" "ide_ready ?ports (0 + 1) ?n s1" by blast
  from step [OF 1(2) ch(1) k(2), of ATA_SLAVE w1] obtain s2 w2 where
    2: "ide_check_and_add_drive b ATA_PRIMARY ATA_SLAVE s1 w1 = Some (s2, w2)" "ide_ready ?ports (0 + 1 + 1) ?n s2" by blast
  from step [OF 2(2) ch(2) k(3), of ATA_MASTER w2] obtain s3 w3 where
    3: "ide_check_and_add_drive b ATA_SECONDARY ATA_MASTER s2 w2 = Some (s3, w3)" "ide_ready ?ports (0 + 1 + 1 + 1) ?n s3" by blast
  from step [OF 3(2) ch(2) k(4), of ATA_SLAVE w3] obtain s4 w4 where
    4: "ide_check_and_add_drive b ATA_SECONDARY ATA_SLAVE s3 w3 = Some (s4, w4)" "ide_ready ?ports (0 + 1 + 1 + 1 + 1) ?n s4" by blast
  have "ide_initialize b bar0 bar1 bar2 bar3 bar4 s w = Some (ide_drive_count s4, s4, w4)"
    unfolding ide_initialize_def Let_def 1(1) 2(1) 3(1) 4(1) bind.bind_lunit case_prod_conv ..
  with 4(2) show ?thesis by (simp add: ide_ready_def)
qed

section \<open>The search for the controller\<close>

definition is_ide_function :: "(u32 \<Rightarrow> u32) \<Rightarrow> pci_func \<Rightarrow> bool" where
  "is_ide_function cfg f \<longleftrightarrow> (ucast (drop_bit 16 (pci_cfg cfg f 3)) :: u8) = 0 \<and>
     (ucast (drop_bit 24 (pci_cfg cfg f 2)) :: u8) = 1 \<and> (ucast (drop_bit 16 (pci_cfg cfg f 2)) :: u8) = 1"

definition ide_bars :: "(u32 \<Rightarrow> u32) \<Rightarrow> pci_func \<Rightarrow> (u16 \<times> u16) list" where
  "ide_bars cfg f = ide_ports (pci_cfg cfg f 4) (pci_cfg cfg f 5) (pci_cfg cfg f 6) (pci_cfg cfg f 7)"

lemma load32_byte:
  "m (a + 2) = ucast (drop_bit 16 (load32 m a))" "m (a + 3) = ucast (drop_bit 24 (load32 m a))"
  by (rule bit_word_eqI; simp add: load32_def load16_def bit_simps add.assoc; auto dest: bit_imp_le_length)+

lemma record_ide:
  assumes "pci_record cfg m device f"
  shows "is_ide_controller m device \<longleftrightarrow> is_ide_function cfg f"
proof -
  have r: "load32 m (device + pci_reg_data + 4 * of_nat k) = pci_cfg cfg f k" if "k < 17" for k
    using assms that by (simp add: pci_record_def pci_reg32_def)
  show ?thesis
    using r [of 2] r [of 3] load32_byte [of m "device + pci_reg_data + 8"] load32_byte [of m "device + pci_reg_data + 12"]
    by (simp add: is_ide_controller_def is_ide_function_def pci_consts PCI_HEADER_TYPE_0_def add.assoc conj_ac)
qed

lemma record_bars:
  assumes "pci_record cfg m device f"
  shows "ide_ports (pci_reg32 m device PCI_H0_BAR0) (pci_reg32 m device PCI_H0_BAR1) (pci_reg32 m device PCI_H0_BAR2)
    (pci_reg32 m device PCI_H0_BAR3) = ide_bars cfg f"
proof -
  have r: "pci_reg32 m device (4 * of_nat k) = pci_cfg cfg f k" if "k < 17" for k
    using assms that by (simp add: pci_record_def)
  show ?thesis using r [of 4] r [of 5] r [of 6] r [of 7] by (simp add: ide_bars_def pci_consts)
qed

lemma at_most_one:
  assumes "length (filter P xs) \<le> 1" and "i < length xs" "P (xs ! i)" and "j < length xs" "P (xs ! j)"
  shows "i = j"
proof -
  have "card {i. i < length xs \<and> P (xs ! i)} \<le> 1" using assms(1) by (simp add: length_filter_conv_card)
  moreover have "finite {i. i < length xs \<and> P (xs ! i)}" by simp
  ultimately show ?thesis using assms(2-) by (auto simp: card_le_Suc0_iff_eq)
qed

definition one_ide_controller :: "'w bus \<Rightarrow> (u32 \<Rightarrow> u32) \<Rightarrow> bool" where
  "one_ide_controller b cfg \<longleftrightarrow> length (filter (is_ide_function cfg) (pci_functions cfg)) \<le> 1 \<and>
     (\<forall>f \<in> set (pci_functions cfg). is_ide_function cfg f \<longrightarrow>
        (\<exists>ident atapi. \<forall>p \<in> set (ide_bars cfg f). ide_answers b ident atapi p))"

lemma boot_ide_result:
  fixes b :: "'w bus"
  assumes cfg: "config_space b cfg" "length (pci_functions cfg) \<le> 128"
    and ide: "one_ide_controller b cfg" and s: "ide_drive_count s = 0" "4 \<le> length (ide_drives s)"
  shows "if \<exists>f \<in> set (pci_functions cfg). is_ide_function cfg f
    then \<exists>n s' m' w'. boot_ide b str_addr devices s (m, w) = Some (n, s', m', w') \<and> ide_drives s' \<noteq> []
    else boot_ide b str_addr devices s (m, w) = None"
proof -
  let ?fs = "pci_functions cfg"
  from pci_enumerate_scans [OF cfg(1), of str_addr devices m w] obtain m' w1 where
    enum: "pci_enumerate b str_addr devices (m, w) = Some (of_nat (length ?fs), m', w1)" and recs: "pci_records cfg m' devices ?fs"
    by (metis pci_scanned_all [OF _ cfg(2)])
  let ?body = "\<lambda>i (ide_found, drive_count, ide, w).
    let dev = devices + sizeof_pci_dev * i
    in if is_ide_controller m' dev then
         do { (drive_count, ide, w) \<leftarrow> ide_initialize b (pci_reg32 m' dev PCI_H0_BAR0)
                (pci_reg32 m' dev PCI_H0_BAR1) (pci_reg32 m' dev PCI_H0_BAR2)
                (pci_reg32 m' dev PCI_H0_BAR3) (pci_reg32 m' dev PCI_H0_BAR4) ide w;
              Some (True, drive_count, ide, w) }
       else Some (ide_found, drive_count, ide, w)"
  define P where "P = (\<lambda>(i :: u32) (found, n :: u32, s' :: ide_t, w' :: 'w). found = (\<exists>j < unat i. is_ide_function cfg (?fs ! j)) \<and>
    (\<not> found \<longrightarrow> ide_drive_count s' = 0) \<and> length (ide_drives s') = length (ide_drives s))"
  have len: "unat (of_nat (length ?fs) :: u32) = length ?fs" using cfg(2) by (intro unat_of_nat_small) simp
  have "\<exists>st. for_range 0 (of_nat (length ?fs)) ?body (False, 0, s, w1) = Some st \<and> P (of_nat (length ?fs)) st"
  proof (rule for_range_rule [where P = P])
    show "P 0 (False, 0, s, w1)" using s(1) by (simp add: P_def)
    fix i :: u32 and st assume i: "i < of_nat (length ?fs)" and inv: "P i st"
    obtain found n s' w' where st: "st = (found, n, s', w')" by (cases st)
    have P: "found = (\<exists>j < unat i. is_ide_function cfg (?fs ! j))" "\<not> found \<longrightarrow> ide_drive_count s' = 0"
        "length (ide_drives s') = length (ide_drives s)" using inv unfolding st P_def case_prod_conv by blast+
    have il: "unat i < length ?fs" using i len by (simp add: word_less_nat_alt)
    let ?dev = "devices + sizeof_pci_dev * i"
    have dev: "?dev = pci_record_at devices (unat i)" by (simp add: pci_record_at_def pci_fields)
    have rec: "pci_record cfg m' ?dev (?fs ! unat i)" using recs il unfolding dev pci_records_def by blast
    have less: "(\<exists>j < unat (i + 1). Q j) \<longleftrightarrow> (\<exists>j < unat i. Q j) \<or> Q (unat i)" for Q
      unfolding unat_succ_less [OF i] by (auto simp: less_Suc_eq)
    show "\<exists>st'. ?body i st = Some st' \<and> P (i + 1) st'"
    proof (cases "is_ide_function cfg (?fs ! unat i)")
      case False
      then show ?thesis using P by (simp add: st P_def less record_ide [OF rec])
    next
      case True
      have "\<not> found"
      proof
        assume found
        then obtain j where "j < unat i" "is_ide_function cfg (?fs ! j)" using P(1) by blast
        then show False using at_most_one [of "is_ide_function cfg" ?fs "unat i" j] True il ide
          by (simp add: one_ide_controller_def)
      qed
      then have "ide_drive_count s' = 0" "4 \<le> length (ide_drives s')" using P(2,3) s(2) by simp_all
      note start = ide_initialize_returns [OF _ this, of "pci_reg32 m' ?dev PCI_H0_BAR0" "pci_reg32 m' ?dev PCI_H0_BAR1"
          "pci_reg32 m' ?dev PCI_H0_BAR2" "pci_reg32 m' ?dev PCI_H0_BAR3" b _ _ "pci_reg32 m' ?dev PCI_H0_BAR4" w']
      obtain ident atapi where "\<forall>p \<in> set (ide_bars cfg (?fs ! unat i)). ide_answers b ident atapi p"
        using ide True nth_mem [OF il] by (auto simp: one_ide_controller_def)
      then have "\<forall>p \<in> set (ide_ports (pci_reg32 m' ?dev PCI_H0_BAR0) (pci_reg32 m' ?dev PCI_H0_BAR1)
          (pci_reg32 m' ?dev PCI_H0_BAR2) (pci_reg32 m' ?dev PCI_H0_BAR3)). ide_answers b ident atapi p"
        unfolding record_bars [OF rec] .
      from start [OF this] obtain n' s'' w'' where "ide_initialize b (pci_reg32 m' ?dev PCI_H0_BAR0) (pci_reg32 m' ?dev PCI_H0_BAR1)
          (pci_reg32 m' ?dev PCI_H0_BAR2) (pci_reg32 m' ?dev PCI_H0_BAR3) (pci_reg32 m' ?dev PCI_H0_BAR4) s' w' =
          Some (n', s'', w'')" "length (ide_drives s'') = length (ide_drives s')" by blast
      then show ?thesis using True P(3) by (simp add: st P_def less record_ide [OF rec])
    qed
  qed simp
  then obtain found n s' w' where
    loop: "for_range 0 (of_nat (length ?fs)) ?body (False, 0, s, w1) = Some (found, n, s', w')"
    and P: "P (of_nat (length ?fs)) (found, n, s', w')" by auto
  have found: "found = (\<exists>f \<in> set ?fs. is_ide_function cfg f)"
    using P unfolding P_def case_prod_conv len by (metis in_set_conv_nth)
  have "ide_drives s' \<noteq> []" using P s(2) by (auto simp: P_def)
  moreover have "boot_ide b str_addr devices s (m, w) = (if found then Some (n, s', m', w') else None)"
    unfolding boot_ide_def enum bind.bind_lunit case_prod_conv loop ..
  ultimately show ?thesis unfolding found by simp
qed

section \<open>The devices of a legacy machine\<close>

lemma boot_ps2_returns: "ticks b \<Longrightarrow> returns (boot_ps2 b mouse ps2 w)"
  unfolding boot_ps2_def by (intro returns_rules mouse_initialize_returns)

text \<open>No ACPI tables are found in the memory \<open>m\<close>, and the processor shows no local APIC.\<close>

definition legacy :: "boot_env \<Rightarrow> 'w machine \<Rightarrow> mem \<Rightarrow> bool" where
  "legacy e mc m \<longleftrightarrow> acpi_find_rsdp (be_lits e) (gdt_make_flat (be_gdt e) m) = Some 0 \<and> acpi_lapic (mc_acpi mc) = 0 \<and>
     \<not> (cpu_field cpu_info_t (cpu_info (be_cpuid e)) ''msr'' \<and> cpu_field cpu_info_t (cpu_info (be_cpuid e)) ''apic'')"

lemma boot_devices_legacy:
  fixes b :: "'w bus"
  assumes leg: "legacy e mc m" and ticks: "ticks b" and cfg: "config_space b cfg" "length (pci_functions cfg) \<le> 128"
    and ide: "one_ide_controller b cfg" "ide_drive_count (mc_ide mc) = 0" "4 \<le> length (ide_drives (mc_ide mc))"
  shows "if \<exists>f \<in> set (pci_functions cfg). is_ide_function cfg f
    then \<exists>rootfs mc'. boot_devices b e mc m = Some (rootfs, mc') else boot_devices b e mc m = None"
proof -
  let ?m = "gdt_make_flat (be_gdt e) m"
  define acpi where "acpi = (mc_acpi mc)\<lparr>acpi_intr_mappings := map of_nat [0..<24]\<rparr>"
  have a: "acpi_initialize (be_lits e) ?m (mc_acpi mc) = Some acpi" "acpi_lapic acpi = 0"
    using leg unfolding legacy_def acpi_initialize_def acpi_def by simp_all
  have base: "boot_apic_base (be_cpuid e) acpi (mc_msrs mc) = (0, APIC_IO_BASE_DEFAULT, mc_msrs mc)"
    using leg a(2) unfolding legacy_def boot_apic_base_def by auto
  let ?w0 = "pic_unmask_all b (pic_initialize b (mc_world mc))"
  have intr: "boot_interrupts b 0 APIC_IO_BASE_DEFAULT acpi (mc_apic mc) (pic_initialize b (mc_world mc)) =
      Some (INTM_PIC, mc_apic mc, ?w0)" by (simp add: boot_interrupts_def)
  obtain fb mouse m1 where vga: "boot_vga ?m (bi_mib (bootinf (mc_mem mc) (be_boot_info e))) (mc_mouse mc) = (fb, mouse, m1)"
    by (cases "boot_vga ?m (bi_mib (bootinf (mc_mem mc) (be_boot_info e))) (mc_mouse mc)")
  from boot_ps2_returns [OF ticks, of mouse "mc_ps2 mc" ?w0] obtain mouse' ps2 w1 where
    ps2: "boot_ps2 b mouse (mc_ps2 mc) ?w0 = Some (mouse', ps2, w1)" by (auto simp: returns_def)
  have aps: "boot_aps b e 0 acpi (mc_apic mc) (m2, l, w) = Some (m2, l, w)" for m2 l w by (simp add: boot_aps_def)
  note found = boot_ide_result [OF cfg ide, of "be_lits e" "be_pci_devices e" m1 w1]
  have run: "boot_devices b e mc m =
      do { (drive_count, ide, m, w) \<leftarrow> boot_ide b (be_lits e) (be_pci_devices e) (mc_ide mc) (m1, w1);
           drive \<leftarrow> arr_get (ide_drives ide) 0;
           let (_, rootfs) = dfs_init (ide_read_drive b ide drive) (be_buf e);
           Some (rootfs, \<lparr>mc_mem = m, mc_world = w, mc_msrs = mc_msrs mc,
             mc_gdt_desc = \<lparr>gdt_desc_size = 3 * 8, gdt_desc_addr = be_gdt e\<rparr>,
             mc_idt = idt_make_default (be_isr e) (be_isr_sys e) (mc_idt mc),
             mc_idt_desc = \<lparr>idt_desc_size = 256 * 8, idt_desc_addr = be_idt e\<rparr>,
             mc_tables = lidt \<lparr>idt_desc_size = 256 * 8, idt_desc_addr = be_idt e\<rparr>
               (lgdt \<lparr>gdt_desc_size = 3 * 8, gdt_desc_addr = be_gdt e\<rparr> (mc_tables mc)), mc_acpi = acpi, mc_apic = mc_apic mc,
             mc_interrupt_mode = INTM_PIC, mc_fb = fb, mc_mouse = mouse', mc_ps2 = ps2, mc_ide = ide,
             mc_ap_init_lock = mc_ap_init_lock mc, mc_sched = mc_sched mc\<rparr>) }"
    unfolding boot_devices_def Let_def a(1) bind.bind_lunit base case_prod_conv intr vga ps2 aps ..
  show ?thesis
  proof (cases "\<exists>f \<in> set (pci_functions cfg). is_ide_function cfg f")
    case True
    with found obtain n s' m' w' where "boot_ide b (be_lits e) (be_pci_devices e) (mc_ide mc) (m1, w1) = Some (n, s', m', w')"
      "ide_drives s' \<noteq> []" by auto
    then have "\<exists>rootfs mc'. boot_devices b e mc m = Some (rootfs, mc')" by (simp add: run case_prod_beta)
    with True show ?thesis by simp
  next
    case False
    then have "boot_devices b e mc m = None" using found by (simp add: run)
    with False show ?thesis by simp
  qed
qed

section \<open>The whole start\<close>

text \<open>What the scheduler and the drives are before the start.\<close>

definition cold :: "'w machine \<Rightarrow> bool" where
  "cold mc \<longleftrightarrow> ready_q (mc_sched mc) = 0 \<and> waiting_q (mc_sched mc) = 0 \<and> proc_current (mc_sched mc) = 0 \<and>
     sched_lock (mc_sched mc) = 0 \<and> ide_drive_count (mc_ide mc) = 0 \<and> 4 \<le> length (ide_drives (mc_ide mc))"

text \<open>A memory map that leaves three blocks free beside the kernel, the low BIOS memory and the map.\<close>

definition enough_memory :: "bootinf_t \<Rightarrow> mem \<Rightarrow> bool" where
  "enough_memory info m \<longleftrightarrow> entries_ok (boot_entries info m) \<and> covered_info info \<and> 3 \<le> card (boot_free_blocks info m)"

lemma kernel_enter_returns:
  assumes "enough_memory (bootinf (mc_mem mc) (be_boot_info e)) (mc_mem mc)" and "cold mc"
    and "\<forall>mp m. boot_memory (bootinf (mc_mem mc) (be_boot_info e)) (mc_mem mc) = Some (mp, m) \<longrightarrow> legacy e mc m"
    and "ticks b" and "config_space b cfg" and "length (pci_functions cfg) \<le> 128" and "one_ide_controller b cfg"
  shows "returns (kernel_enter b e mc) \<longleftrightarrow> (\<exists>f \<in> set (pci_functions cfg). is_ide_function cfg f)"
proof -
  let ?i = "bootinf (mc_mem mc) (be_boot_info e)"
  have mem: "entries_ok (boot_entries ?i (mc_mem mc))" "covered_info ?i" "3 \<le> card (boot_free_blocks ?i (mc_mem mc))"
    using assms(1) by (simp_all add: enough_memory_def)
  have q: "ready_q (mc_sched mc) = 0" "waiting_q (mc_sched mc) = 0" "proc_current (mc_sched mc) = 0" "sched_lock (mc_sched mc) = 0"
    and ide: "ide_drive_count (mc_ide mc) = 0" "4 \<le> length (ide_drives (mc_ide mc))"
    using assms(2) by (simp_all add: cold_def)
  from kernel_enter_starts [OF mem q, of b] obtain mp m where
    mp: "boot_memory ?i (mc_mem mc) = Some (mp, m)" and
    start: "returns (kernel_enter b e mc) \<longleftrightarrow> returns (boot_devices b e mc m)"
    by (auto simp: returns_def split: option.splits)
  have "legacy e mc m" using assms(3) mp by blast
  from boot_devices_legacy [OF this assms(4-7) ide] show ?thesis
    unfolding start by (auto simp: returns_def split: if_splits)
qed

text \<open>
  C3 The kernel comes up.  On a machine with three free blocks of memory, the legacy interrupt controller,
  no ACPI tables, a clock that ticks, a PCI bus with at most 128 functions and at most one IDE controller
  among them, whose drives answer, \<^verbatim>\<open>kernel_enter\<close> gets to its first process if there is an IDE controller
  and panics if there is none.  The scheduler then satisfies its invariant with the window server and its
  client as the processes, the client running; neither of them nor the idle process lies in the kernel, the
  low BIOS memory or the memory map, and the blocks that hold these three are still in use.
\<close>

theorem kernel_enter_boots:
  assumes "enough_memory (bootinf (mc_mem mc) (be_boot_info e)) (mc_mem mc)" and "cold mc"
    and "\<forall>mp m. boot_memory (bootinf (mc_mem mc) (be_boot_info e)) (mc_mem mc) = Some (mp, m) \<longrightarrow> legacy e mc m"
    and "ticks b" and "config_space b cfg" and "length (pci_functions cfg) \<le> 128" and "one_ide_controller b cfg"
  shows "if \<exists>f \<in> set (pci_functions cfg). is_ide_function cfg f
    then \<exists>rootfs mc' rs ws p q. kernel_enter b e mc = Some (rootfs, mc') \<and> sched_inv (mc_sched mc') rs ws \<and>
      tasks (mc_sched mc') rs ws = {p, q} \<and> p \<noteq> q \<and> proc_idle (mc_sched mc') \<notin> {p, q} \<and> proc_current (mc_sched mc') = q \<and>
      p_entry (procs (mc_sched mc') p) = be_wserver e \<and> p_entry (procs (mc_sched mc') q) = be_wclient e \<and>
      (block_bytes (proc_idle (mc_sched mc')) \<union> block_bytes p \<union> block_bytes q) \<inter>
        reserved (bootinf (mc_mem mc) (be_boot_info e)) = {} \<and>
      reserved_blocks (bootinf (mc_mem mc) (be_boot_info e)) \<subseteq> in_use (pmman_kernel_map (mc_sched mc'))
    else kernel_enter b e mc = None"
proof -
  let ?i = "bootinf (mc_mem mc) (be_boot_info e)"
  have mem: "entries_ok (boot_entries ?i (mc_mem mc))" "covered_info ?i" "3 \<le> card (boot_free_blocks ?i (mc_mem mc))"
    using assms(1) by (simp_all add: enough_memory_def)
  have q: "ready_q (mc_sched mc) = 0" "waiting_q (mc_sched mc) = 0" "proc_current (mc_sched mc) = 0" "sched_lock (mc_sched mc) = 0"
    and ide: "ide_drive_count (mc_ide mc) = 0" "4 \<le> length (ide_drives (mc_ide mc))"
    using assms(2) by (simp_all add: cold_def)
  from kernel_enter_starts [OF mem q, of b] obtain mp m where
    mp: "boot_memory ?i (mc_mem mc) = Some (mp, m)" and start: "case boot_devices b e mc m of None \<Rightarrow> kernel_enter b e mc = None
     | Some (rootfs, mc') \<Rightarrow> \<exists>s rs ws p q. kernel_enter b e mc = Some (rootfs, mc'\<lparr>mc_sched := s\<rparr>) \<and>
         sched_inv s rs ws \<and> tasks s rs ws = {p, q} \<and> p \<noteq> q \<and> proc_idle s \<notin> {p, q} \<and> proc_current s = q \<and>
         p_entry (procs s p) = be_wserver e \<and> p_entry (procs s q) = be_wclient e \<and>
         (block_bytes (proc_idle s) \<union> block_bytes p \<union> block_bytes q) \<inter> reserved ?i = {} \<and>
         reserved_blocks ?i \<subseteq> in_use (pmman_kernel_map s) \<and>
         (\<forall>x \<in> {proc_idle s, p, q}. \<forall>r \<in> reserved_blocks ?i. x \<noteq> pmman_block_addr r)" by blast
  have "legacy e mc m" using assms(3) mp by blast
  note dev = boot_devices_legacy [OF this assms(4-7) ide]
  show ?thesis
  proof (cases "\<exists>f \<in> set (pci_functions cfg). is_ide_function cfg f")
    case True
    with dev obtain rootfs mc' where "boot_devices b e mc m = Some (rootfs, mc')" by auto
    with start obtain s rs ws p q where run: "kernel_enter b e mc = Some (rootfs, mc'\<lparr>mc_sched := s\<rparr>)"
      and inv: "sched_inv s rs ws" "tasks s rs ws = {p, q}" "p \<noteq> q" "proc_idle s \<notin> {p, q}" "proc_current s = q"
        "p_entry (procs s p) = be_wserver e" "p_entry (procs s q) = be_wclient e"
        "(block_bytes (proc_idle s) \<union> block_bytes p \<union> block_bytes q) \<inter> reserved ?i = {}"
        "reserved_blocks ?i \<subseteq> in_use (pmman_kernel_map s)"
      by auto
    have s: "mc_sched (mc'\<lparr>mc_sched := s\<rparr>) = s" by simp
    show ?thesis unfolding if_P [OF True]
      by (intro exI [of _ rootfs] exI [of _ "mc'\<lparr>mc_sched := s\<rparr>"] exI [of _ rs] exI [of _ ws] exI [of _ p] exI [of _ q])
        (unfold s, intro conjI run inv)
  next
    case False
    then have "boot_devices b e mc m = None" using dev by simp
    with start have "kernel_enter b e mc = None" by simp
    then show ?thesis unfolding if_not_P [OF False] .
  qed
qed

section \<open>A machine that boots\<close>

text \<open>
  Two megabytes of memory, a clock that moves on at every second reading, one IDE controller at 0:1.1 and no
  drives: a status register shows nothing until the packet command is sent.
\<close>

definition boot_bus :: "(bool \<times> u32 \<times> nat) bus" where
  "boot_bus = \<lparr>bus_inb = \<lambda>_ w. (if fst w then ATA_SR_DRQ else 0, w), bus_inw = \<lambda>_ w. (0, w),
     bus_inl = \<lambda>_ (f, a, n). (ide_cfg a, f, a, n),
     bus_outb = \<lambda>_ v (f, a, n). (f \<or> v = ATA_CMD_IDENTIFY_PACKET, a, n), bus_outw = \<lambda>_ _ w. w,
     bus_outl = \<lambda>_ v (f, a, n). (f, v, n), bus_ldl = \<lambda>_ w. (0, w), bus_stl = \<lambda>_ _ w. w,
     bus_time = \<lambda>(f, a, n). (of_nat (n div 2), f, a, n + 1)\<rparr>"

lemma boot_bus_simps:
  "inb boot_bus port w = (if fst w then ATA_SR_DRQ else 0, w)"
  "outb boot_bus port v (f, a, n) = (f \<or> v = ATA_CMD_IDENTIFY_PACKET, a, n)"
  "inl boot_bus port (f, a, n) = (ide_cfg a, f, a, n)" "outl boot_bus port v' (f, a, n) = (f, v', n)"
  "bus_time boot_bus (f, a, n) = (of_nat (n div 2), f, a, n + 1)"
  by (simp_all add: boot_bus_def inb_def outb_def inl_def outl_def)

lemma boot_bus_reads: "after_reads boot_bus port k w = w"
  by (induction k) (simp_all add: boot_bus_simps)

lemma boot_bus_ticks: "ticks boot_bus"
proof -
  have at: "clock_at boot_bus (f, a, n) = of_nat (n div 2)" for f a n by (simp add: clock_at_def boot_bus_simps)
  have np: "(next_poll boot_bus ^^ k) (f, a, n) = (f, a, n + k)" for f a n k
    by (induction k) (simp_all add: next_poll_def boot_bus_simps)
  show ?thesis unfolding ticks_def
  proof
    fix w :: "bool \<times> u32 \<times> nat"
    obtain f a n where w: "w = (f, a, n)" by (cases w)
    show "\<exists>k. (\<forall>j < k. clock_at boot_bus ((next_poll boot_bus ^^ j) w) = clock_at boot_bus w) \<and>
        clock_at boot_bus ((next_poll boot_bus ^^ k) w) = clock_at boot_bus w + 1"
      by (rule exI [of _ "2 - n mod 2"])
        (cases "even n"; auto simp: w at np elim!: evenE oddE simp: less_2_cases_iff)
  qed
qed

lemma boot_bus_config: "config_space boot_bus ide_cfg"
  unfolding config_space_def by (auto simp: boot_bus_simps)

lemma boot_bus_answers: "ide_answers boot_bus fst fst (base, ctrl)"
proof -
  have "ATA_SR_DRQ AND ATA_SR_BSY = 0" "ATA_SR_DRQ AND (ATA_SR_DRQ OR ATA_SR_ERR) \<noteq> 0" "ATA_SR_DRQ AND ATA_SR_DRQ \<noteq> 0"
    by (simp_all add: ata_bits)
  then show ?thesis
    by (auto simp: ide_answers_def Let_def boot_bus_simps boot_bus_reads ide_delay_def split: if_splits)
qed

lemma boot_bus_ide: "one_ide_controller boot_bus ide_cfg"
proof -
  have "\<forall>p \<in> set (ide_bars ide_cfg f). ide_answers boot_bus fst fst p" for f
    using boot_bus_answers by auto
  then have "\<exists>ident atapi. \<forall>p \<in> set (ide_bars ide_cfg f). ide_answers boot_bus ident atapi p" for f by blast
  then show ?thesis unfolding one_ide_controller_def ide_cfg_functions by simp
qed

lemma ide_cfg_controller: "is_ide_function ide_cfg (0, 1, 1)"
proof -
  have "pci_cfg ide_cfg (0, 1, 1) 2 = 0x01018000" "pci_cfg ide_cfg (0, 1, 1) 3 = 0"
    by (simp_all add: pci_cfg_def make_addr_def ide_cfg_def)
  then show ?thesis by (simp add: is_ide_function_def)
qed

text \<open>The search for the root pointer finds nothing where no byte is an R.\<close>

definition quiet :: "mem \<Rightarrow> bool" where
  "quiet m \<longleftrightarrow> (\<forall>x. unat x < 0x9000 \<or> 0x20000 \<le> unat x \<longrightarrow> m x = 0)"

lemma quiet_store:
  assumes "quiet m" and "0x9000 \<le> unat a" and "unat a + length bs \<le> 0x20000"
  shows "quiet (store_bytes m a bs)"
  unfolding quiet_def
proof (intro allI impI)
  fix x :: addr assume x: "unat x < 0x9000 \<or> 0x20000 \<le> unat x"
  have "\<not> unat (x - a) < length bs" using x assms(2,3) unsigned_less [of x, where 'a = nat]
    by (auto simp: unat_sub_if')
  then have "store_bytes m a bs x = m x" using assms(2,3) by (simp add: store_bytes_apply)
  then show "store_bytes m a bs x = 0" using x assms(1) by (auto simp: quiet_def)
qed

lemma acpi_scan_none:
  assumes "\<forall>x. unat i \<le> unat x \<and> unat x < unat e \<longrightarrow> m x = 0" and "unat e + 16 < 2 ^ 32"
  shows "acpi_scan lits m 0 i e = Some 0"
  using assms(1)
proof (induction "unat e - unat i" arbitrary: i rule: less_induct)
  case less
  show ?case
  proof (cases "i < e")
    case True
    have m: "m (0 + i) = 0" using less.prems True by (simp add: word_less_nat_alt)
    have u: "unat (i + 16) = unat i + 16" using True assms(2) by (subst unat_add_bounded) (simp_all add: word_less_nat_alt)
    have "acpi_scan lits m 0 (i + 16) e = Some 0"
      using less.prems True u by (intro less.hyps) (auto simp: word_less_nat_alt)
    then show ?thesis using True m by (subst acpi_scan.simps) simp
  qed (subst acpi_scan.simps, simp)
qed

lemma quiet_no_rsdp: "quiet m \<Longrightarrow> acpi_find_rsdp lits m = Some 0"
proof -
  assume q: "quiet m"
  have "load16 m 0x40E = 0" using q by (simp add: load16_def quiet_def)
  moreover have "acpi_scan lits m 0 0 (KB 1) = Some 0" "acpi_scan lits m 0 0xE0000 0xFFFFF = Some 0"
    using q by (auto intro!: acpi_scan_none simp: quiet_def KB_def)
  ultimately show ?thesis by (simp add: acpi_find_rsdp_def)
qed

text \<open>The boot information lies behind the memory map, the global descriptor table at 64 KiB.\<close>

definition boot_mem :: mem where
  "boot_mem = sample_low_mem(0x9202 := 0x10, 0x9206 := 0x11, 0x9209 := 0x90, 0x920D := 0x93, 0x9210 := 1, 0x9212 := 0x80)"

definition boot_sample_env :: boot_env where
  "boot_sample_env = \<lparr>be_lits = \<lambda>_. 0x100800, be_cpuid = \<lambda>_. \<lparr>r_eax = 0, r_ebx = 0, r_ecx = 0, r_edx = 0\<rparr>,
     be_responds = \<lambda>_. False, be_boot_info = 0x9200, be_gdt = 0x10000, be_idt = 0x10100, be_isr = \<lambda>_. 0, be_isr_sys = 0,
     be_pci_devices = 0x104000, be_trampoline_start = 0, be_trampoline_size = 0, be_ap_enter = 0, be_buf = 0x105000,
     be_startup = 0x100000, be_idle_fn = 0x100100, be_wserver = 0x100200, be_wclient = 0x100300\<rparr>"

definition boot_machine :: "(bool \<times> u32 \<times> nat) machine" where
  "boot_machine = \<lparr>mc_mem = boot_mem, mc_world = (False, 0, 0), mc_msrs = \<lambda>_. 0,
     mc_gdt_desc = \<lparr>gdt_desc_size = 0, gdt_desc_addr = 0\<rparr>, mc_idt = [],
     mc_idt_desc = \<lparr>idt_desc_size = 0, idt_desc_addr = 0\<rparr>, mc_tables = \<lparr>gdtr = (0, 0), idtr = (0, 0)\<rparr>, mc_acpi = acpi_start,
     mc_apic = \<lparr>lapic_base = 0, ioapic_base = 0\<rparr>, mc_interrupt_mode = 0,
     mc_fb = \<lparr>fb_width = 0, fb_height = 0, fb_px_data = 0, fb_px_count = 0\<rparr>,
     mc_mouse = mouse_start,
     mc_ps2 = \<lparr>ps2_p1 = 0, ps2_p2 = 0\<rparr>,
     mc_ide = \<lparr>ide_drives = replicate 4 sim_drive, ide_drive_count = 0, ide_channels = []\<rparr>, mc_ap_init_lock = 0,
     mc_sched = boot_state\<rparr>"

lemma boot_sample_fields:
  "mc_mem boot_machine = boot_mem" "mc_sched boot_machine = boot_state" "mc_acpi boot_machine = acpi_start"
  "be_boot_info boot_sample_env = 0x9200" "be_gdt boot_sample_env = 0x10000" "be_wclient boot_sample_env = 0x100300"
  "ide_drive_count (mc_ide boot_machine) = 0" "length (ide_drives (mc_ide boot_machine)) = 4"
  by (simp_all add: boot_machine_def boot_sample_env_def)

lemma boot_sample_info: "bootinf boot_mem 0x9200 = sample_bootinf"
  by code_simp

abbreviation sample_entry :: memmap_t where
  "sample_entry \<equiv> \<lparr>mm_base = 0, mm_len = 0x200000, mm_type = 1, mm_attribs = 0\<rparr>"

lemma boot_sample_entries: "boot_entries sample_bootinf boot_mem = [sample_entry]"
  by code_simp

lemma boot_sample_memory: "enough_memory sample_bootinf boot_mem"
proof -
  have "covered_info sample_bootinf"
    using sample_covered by (simp add: covered_info_def sample_bootinf_def sizeof_memmap_def)
  moreover have "k \<in> boot_free_blocks sample_bootinf boot_mem" if "k \<in> {10, 11, 12}" for k
    using that unfolding boot_free_blocks_def boot_sample_entries
    by (auto simp: entry_blocks_def Let_def reserved_blocks_def region_blocks_def sample_bootinf_def nblocks_def
        sizeof_memmap_def)
  then have "{10, 11, 12} \<subseteq> boot_free_blocks sample_bootinf boot_mem" by blast
  moreover have "finite (boot_free_blocks sample_bootinf boot_mem)" by (simp add: boot_free_blocks_def)
  ultimately have "card {10, 11, 12 :: nat} \<le> card (boot_free_blocks sample_bootinf boot_mem)" by (intro card_mono)
  with \<open>covered_info sample_bootinf\<close> show ?thesis
    by (simp add: enough_memory_def entries_ok_def boot_sample_entries)
qed

lemma boot_mem_quiet: "quiet boot_mem"
  unfolding quiet_def boot_mem_def sample_low_mem_def by auto

lemma quiet_entry:
  assumes "quiet m"
  shows "quiet (put_memmap_entry 0x9000 x m)"
  unfolding put_memmap_entry_def Let_def store32_bytes by (intro quiet_store assms) simp_all

lemma boot_sample_quiet:
  assumes "boot_memory sample_bootinf boot_mem = Some (mp, m)"
  shows "quiet (gdt_make_flat 0x10000 m)"
proof -
  have e: "memmap_entries boot_mem 0x9000 (Suc 0) = [sample_entry]" "bi_memmap sample_bootinf = 0x9000"
    "bi_memmap_entry_count sample_bootinf = 1"
    using boot_sample_entries by (simp_all add: boot_entries_def sample_bootinf_def)
  have "\<exists>mp mm'. pmman_initialize [sample_entry] 1 = Some (mp, mm') \<and> pmman_inv mp \<and>
      in_use mp = {..<1024} - (\<Union>e \<in> set [sample_entry]. entry_blocks e) \<and> mset mm' = mset [sample_entry] \<and>
      sorted (map mm_base mm')"
    by (rule pmman_initialize_result) simp_all
  then obtain mp' mm' where i: "pmman_initialize [sample_entry] 1 = Some (mp', mm')" "mset mm' = mset [sample_entry]" by blast
  then have "mm' = [sample_entry]" by (metis mset_single_iff_right mset.simps mset_single_iff)
  with assms i(1) have "m = put_memmap_entry 0x9000 sample_entry boot_mem"
    unfolding boot_memory_def e by (auto simp: e split: bind_splits)
  then have "quiet m" using quiet_entry [OF boot_mem_quiet] by simp
  then show ?thesis unfolding gdt_make_flat_overruns by (rule quiet_store) (simp_all add: flat_entry_def)
qed

lemma boot_sample_start:
  "enough_memory (bootinf (mc_mem boot_machine) (be_boot_info boot_sample_env)) (mc_mem boot_machine)" "cold boot_machine"
  "\<forall>mp m. boot_memory (bootinf (mc_mem boot_machine) (be_boot_info boot_sample_env)) (mc_mem boot_machine) = Some (mp, m) \<longrightarrow>
     legacy boot_sample_env boot_machine m"
  "length (pci_functions ide_cfg) \<le> 128"
proof -
  show "enough_memory (bootinf (mc_mem boot_machine) (be_boot_info boot_sample_env)) (mc_mem boot_machine)"
    unfolding boot_sample_fields boot_sample_info by (rule boot_sample_memory)
  show "cold boot_machine" by (simp add: cold_def boot_sample_fields boot_state_fields)
  have "legacy boot_sample_env boot_machine m"
    if "boot_memory (bootinf (mc_mem boot_machine) (be_boot_info boot_sample_env)) (mc_mem boot_machine) = Some (mp, m)" for mp m
  proof -
    have "quiet (gdt_make_flat 0x10000 m)" using that boot_sample_quiet unfolding boot_sample_fields boot_sample_info by blast
    from quiet_no_rsdp [OF this] show ?thesis
      by (simp add: legacy_def boot_sample_fields cpu_info_msr_apic_bits acpi_start_def boot_sample_env_def)
  qed
  then show "\<forall>mp m. boot_memory (bootinf (mc_mem boot_machine) (be_boot_info boot_sample_env)) (mc_mem boot_machine) = Some (mp, m) \<longrightarrow>
     legacy boot_sample_env boot_machine m" by blast
qed (simp add: ide_cfg_functions)

lemma boot_sample_returns: "\<exists>rootfs mc'. kernel_enter boot_bus boot_sample_env boot_machine = Some (rootfs, mc')"
  using kernel_enter_returns [OF boot_sample_start(1-3) boot_bus_ticks boot_bus_config boot_sample_start(4) boot_bus_ide]
    ide_cfg_controller by (auto simp: returns_def ide_cfg_functions)

theorem kernel_enter_boots_witness:
  "\<exists>rootfs mc' rs ws q. kernel_enter boot_bus boot_sample_env boot_machine = Some (rootfs, mc') \<and>
     sched_inv (mc_sched mc') rs ws \<and> proc_current (mc_sched mc') = q \<and> p_entry (procs (mc_sched mc') q) = 0x100300"
  using kernel_enter_boots [OF boot_sample_start(1-3) boot_bus_ticks boot_bus_config boot_sample_start(4) boot_bus_ide]
    ide_cfg_controller by (auto simp: ide_cfg_functions boot_sample_fields)

end
