(* ===== verification/System.thy ===== *)
theory System
  imports Boot
begin

text \<open>
  The running system: from the state that \<^verbatim>\<open>kernel_enter\<close> leaves, interrupts, system calls, the operations
  of the running process and allocations follow each other in any order.

  The process records, the stacks and the variables of the kernel are parts of the state of their own, beside the
  memory that \<^verbatim>\<open>SYS_FREAD\<close> stores to.  The system call does not check the addresses it is given, so a program
  can make it overwrite the kernel; a run is therefore made of calls that store elsewhere.

  The lemmas show that no step loses a process, but for a sleep that is over at once, or gives away memory that
  the start has reserved, and which interrupt handlers return.
\<close>

section \<open>The steps of the system\<close>

definition kernel_of :: "kb_t \<Rightarrow> 'w machine \<Rightarrow> 'w kernel" where
  "kernel_of kb mc = \<lparr>k_sched = mc_sched mc, k_kb = kb, k_mouse = mc_mouse mc, k_apic = mc_apic mc, k_world = mc_world mc\<rparr>"

datatype sys_event = Irq u8 | Call regs_t | Op sched_event | Alloc usz

text \<open>
  What a store has to leave alone: the memory of the kernel, the record of every process, and the stacks of the
  processes that are not running.
\<close>

definition sizeof_proc :: nat where "sizeof_proc = 24"

definition kernel_bytes :: "nat set \<Rightarrow> sched_t \<Rightarrow> nat set" where
  "kernel_bytes K s = K \<union> {x. \<exists>rs ws. queues s rs ws \<and> (\<exists>p \<in> insert (proc_idle s) (tasks s rs ws).
     if p = proc_current s then unat p \<le> x \<and> x < unat p + sizeof_proc else unat p \<le> x \<and> x < unat p + 16384)}"

definition stores_outside :: "nat set \<Rightarrow> mem \<Rightarrow> mem \<Rightarrow> bool" where
  "stores_outside X m m' \<longleftrightarrow> (\<forall>a. unat a \<in> X \<longrightarrow> m' a = m a)"

text \<open>
  An interrupt with any vector at any time, a system call of the running process that stores outside of the
  kernel, whose memory is \<open>K\<close>, an operation of the scheduler other than its timer interrupt, and an allocation
  of kernel memory.
\<close>

inductive sys_step :: "'w bus \<Rightarrow> 'w fs_t \<Rightarrow> addr \<Rightarrow> nat set \<Rightarrow> 'w kernel \<times> mem \<Rightarrow> sys_event \<Rightarrow> 'w kernel \<times> mem \<Rightarrow> bool"
  for b rootfs st K where
  irq: "interrupt_handler b u intr k = Some k' \<Longrightarrow> sys_step b rootfs st K (k, m) (Irq intr) (k', m)"
| call: "sys_handler b rootfs regs k m = Some (e, k', m') \<Longrightarrow> stores_outside (kernel_bytes K (k_sched k)) m m' \<Longrightarrow>
    sys_step b rootfs st K (k, m) (Call regs) (k', m')"
| sched: "ev \<noteq> Tick \<Longrightarrow> sched_step st (k_sched k) ev s' \<Longrightarrow>
    sys_step b rootfs st K (k, m) (Op ev) (k\<lparr>k_sched := s'\<rparr>, m)"
| alloc: "pmman_alloc (pmman_kernel_map (k_sched k)) sz = Some (p, mp) \<Longrightarrow>
    sys_step b rootfs st K (k, m) (Alloc sz) (k\<lparr>k_sched := (k_sched k)\<lparr>pmman_kernel_map := mp\<rparr>\<rparr>, m)"

inductive_cases sys_stepE: "sys_step b rootfs st K (k, m) ev (k', m')"

inductive sys_run :: "'w bus \<Rightarrow> 'w fs_t \<Rightarrow> addr \<Rightarrow> nat set \<Rightarrow> 'w kernel \<times> mem \<Rightarrow> sys_event list \<Rightarrow> 'w kernel \<times> mem \<Rightarrow> bool"
  for b rootfs st K x0 where
  start: "sys_run b rootfs st K x0 [] x0"
| more: "sys_run b rootfs st K x0 evs x \<Longrightarrow> sys_step b rootfs st K x ev x' \<Longrightarrow> sys_run b rootfs st K x0 (evs @ [ev]) x'"

fun sys_alive :: "sys_event \<Rightarrow> addr set \<Rightarrow> addr set" where
  "sys_alive (Op ev) A = alive ev A"
| "sys_alive _ A = A"

text \<open>The processes that called for a sleep that is over at once.\<close>

fun op_events :: "sys_event list \<Rightarrow> sched_event list" where
  "op_events [] = []"
| "op_events (Op ev # evs) = ev # op_events evs"
| "op_events (_ # evs) = op_events evs"

lemma op_events_append [simp]: "op_events (evs @ evs') = op_events evs @ op_events evs'"
  by (induction evs rule: op_events.induct) auto

definition sys_short :: "sys_event list \<Rightarrow> addr set" where
  "sys_short evs = short_sleepers (op_events evs)"

section \<open>Safety of the memory\<close>

text \<open>The blocks \<open>R\<close> are in use and hold no process.\<close>

definition safe :: "nat set \<Rightarrow> sched_t \<Rightarrow> addr list \<Rightarrow> addr list \<Rightarrow> bool" where
  "safe R s rs ws \<longleftrightarrow> sched_ok s rs ws \<and> R \<subseteq> in_use (pmman_kernel_map s) \<and>
     (\<forall>p \<in> insert (proc_idle s) (tasks s rs ws). \<forall>r \<in> R. p \<noteq> pmman_block_addr r)"

lemma safe_core: "safe R s rs ws \<Longrightarrow> sched_core s rs ws"
  by (simp add: safe_def sched_ok_core)

lemma sched_ok_active: "sched_inv s rs ws \<Longrightarrow> sched_ok s rs ws"
  by (simp add: sched_ok_def)

lemma safe_same:
  assumes "safe R s rs ws" and "sched_ok s' rs' ws'" and "tasks s' rs' ws' \<subseteq> tasks s rs ws" and "same_memory s s'"
  shows "safe R s' rs' ws'"
proof -
  have "insert (proc_idle s') (tasks s' rs' ws') \<subseteq> insert (proc_idle s) (tasks s rs ws)" using assms(3,4) by auto
  moreover have "R \<subseteq> in_use (pmman_kernel_map s')" using assms(1,4) by (simp add: safe_def)
  ultimately show ?thesis using assms(1,2) unfolding safe_def by blast
qed

lemma block_addr_inj: "a < 1024 \<Longrightarrow> b < 1024 \<Longrightarrow> pmman_block_addr a = pmman_block_addr b \<longleftrightarrow> a = b"
  using unat_block_addr [of a] unat_block_addr [of b] by (metis mult_right_cancel zero_neq_numeral)

lemma in_use_less: "b \<in> in_use m \<Longrightarrow> b < 1024"
  by (simp add: in_use_def)

lemma safe_exit:
  assumes safe: "safe R s rs ws" and run: "running s" and op: "proc_exit s = Some s'"
  shows "\<exists>rs' ws'. safe R s' rs' ws' \<and> tasks s' rs' ws' = tasks s rs ws - {proc_current s} \<and>
    stray s' rs' ws' = {}"
proof -
  have inv: "sched_ok s rs ws" using safe by (simp add: safe_def)
  from proc_exit_ok [OF inv run] obtain s1 rs' ws' b where s1: "proc_exit s = Some s1"
    and s': "sched_inv s1 rs' ws'" "tasks s1 rs' ws' = tasks s rs ws - {proc_current s}" "proc_idle s1 = proc_idle s"
    and b: "b < 1024" "proc_current s = pmman_block_addr b"
      "in_use (pmman_kernel_map s1) = in_use (pmman_kernel_map s) - {b}"
    by (elim exE conjE) (rule that; assumption)
  have eq: "s1 = s'" using s1 op by simp
  have "proc_current s \<in> tasks s rs ws" using run by (simp add: tasks_def running_def)
  then have "b \<notin> R" using safe b(2) unfolding safe_def by blast
  then have "R \<subseteq> in_use (pmman_kernel_map s1)" using safe b(3) unfolding safe_def by blast
  moreover have "insert (proc_idle s1) (tasks s1 rs' ws') \<subseteq> insert (proc_idle s) (tasks s rs ws)"
    unfolding s'(2,3) by blast
  ultimately have "safe R s1 rs' ws'" using safe sched_ok_active [OF s'(1)] unfolding safe_def by (meson subsetD)
  with s'(2) stray_active [OF s'(1)] show ?thesis unfolding eq by blast
qed

lemma proc_create_memory:
  assumes "proc_create st entry name s = Some (p, s')" and "p \<noteq> 0"
    and "pmman_inv (pmman_kernel_map s)" and "0 \<in> in_use (pmman_kernel_map s)"
  shows "proc_idle s' = proc_idle s \<and> keeps_memory s s' \<and>
    (\<exists>t<1024. p = pmman_block_addr t \<and> t \<notin> in_use (pmman_kernel_map s))"
proof -
  from assms(1) obtain mp where al: "pmman_alloc (pmman_kernel_map s) PROC_SIZE = Some (p, mp)"
    and s': "proc_idle s' = proc_idle s" "pmman_kernel_map s' = mp"
    by (auto simp: proc_create_def split: bind_splits)
  from pm.alloc_claims [OF assms(3,4) al assms(2)] obtain t where t: "p = pmman_block_addr t"
    "t + nblocks PROC_SIZE \<le> 1024" "{t..<t + nblocks PROC_SIZE} \<inter> in_use (pmman_kernel_map s) = {}"
    "in_use mp = in_use (pmman_kernel_map s) \<union> {t..<t + nblocks PROC_SIZE}" by blast
  then have "t < 1024" "t \<notin> in_use (pmman_kernel_map s)" by simp_all
  with t s' show ?thesis by blast
qed

lemma proc_register_memory: "proc_register p s = Some s' \<Longrightarrow> same_memory s s'"
  by (auto simp: proc_register_def enter_def proc_lock_def Let_def split: bind_splits)

lemma safe_spawn:
  assumes safe: "safe R s rs ws" and op: "proc_create st entry name s = Some (p, s1)" "p \<noteq> 0" "proc_register p s1 = Some s'"
  shows "\<exists>rs' ws'. safe R s' rs' ws' \<and> tasks s' rs' ws' = insert p (tasks s rs ws) \<and> stray s' rs' ws' \<subseteq> stray s rs ws"
proof -
  have ok: "sched_ok s rs ws" and R: "R \<subseteq> in_use (pmman_kernel_map s)" using safe by (simp_all add: safe_def)
  then have m: "pmman_inv (pmman_kernel_map s)" "0 \<in> in_use (pmman_kernel_map s)"
    using sched_ok_core by (auto simp: sched_core_def)
  from proc_create_memory [OF op(1,2) m] obtain t where
    mem: "proc_idle s1 = proc_idle s" "keeps_memory s s1" and t: "t < 1024" "p = pmman_block_addr t" "t \<notin> in_use (pmman_kernel_map s)"
    by blast
  from proc_create_register_ok [OF ok, of st entry name] op have
    s': "sched_ok s' (p # rs) ws" "tasks s' (p # rs) ws = insert p (tasks s rs ws)" "stray s' (p # rs) ws \<subseteq> stray s rs ws" by auto
  have same: "same_memory s1 s'" using op(3) by (rule proc_register_memory)
  have "p \<noteq> pmman_block_addr r" if "r \<in> R" for r
  proof -
    have "r \<in> in_use (pmman_kernel_map s)" using R that by blast
    then have "r < 1024" "r \<noteq> t" using in_use_less t(3) by auto
    then show ?thesis unfolding t(2) using t(1) block_addr_inj by blast
  qed
  moreover have "R \<subseteq> in_use (pmman_kernel_map s')" using R mem(2) same by auto
  ultimately have "safe R s' (p # rs) ws" using safe s'(1,2) same mem(1) by (auto simp: safe_def)
  with s'(2,3) show ?thesis by blast
qed

lemma safe_irq_pit:
  assumes "safe R s rs ws" and "irq_pit s = Some s'"
  shows "\<exists>rs' ws'. safe R s' rs' ws' \<and> tasks s' rs' ws' = tasks s rs ws - stray s rs ws \<and> stray s' rs' ws' = {}"
proof -
  from irq_pit_ok [of s rs ws] assms obtain rs' ws' where s': "sched_inv s' rs' ws'"
    "tasks s' rs' ws' = tasks s rs ws - stray s rs ws" "same_memory s s'" by (auto simp: safe_def)
  then have "safe R s' rs' ws'" by (intro safe_same [OF assms(1)]) (auto simp: sched_ok_active)
  with s'(2) stray_active [OF s'(1)] show ?thesis by blast
qed

lemma safe_yield:
  assumes "safe R s rs ws" and "proc_yield s = Some s'"
  shows "\<exists>rs' ws'. safe R s' rs' ws' \<and> tasks s' rs' ws' = tasks s rs ws \<and> stray s' rs' ws' \<subseteq> stray s rs ws"
proof -
  from proc_yield_ok [of s rs ws] assms have
    "sched_ok s' rs ws" "tasks s' rs ws = tasks s rs ws" "same_memory s s'" "stray s' rs ws \<subseteq> stray s rs ws"
    by (auto simp: safe_def)
  then show ?thesis using safe_same [OF assms(1), of s' rs ws] by blast
qed

lemma safe_sleep:
  assumes "safe R s rs ws" and "running s" and "proc_sleep_msec msec s = Some s'"
  shows "\<exists>rs' ws'. safe R s' rs' ws' \<and> tasks s' rs' ws' = tasks s rs ws \<and>
    stray s' rs' ws' \<subseteq> short_sleep (Sleep (proc_current s) (pit_systime_msec s) msec)"
proof -
  have "sched_ok s rs ws" using assms(1) by (simp add: safe_def)
  from proc_sleep_msec_ok [OF this assms(2), of msec] assms(3) obtain rs' ws' where s': "sched_ok s' rs' ws'"
    "tasks s' rs' ws' = tasks s rs ws" "same_memory s s'"
    "stray s' rs' ws' \<subseteq> short_sleep (Sleep (proc_current s) (pit_systime_msec s) msec)" by auto
  then show ?thesis using safe_same [OF assms(1), of s' rs' ws'] by blast
qed

lemma sched_step_safe:
  assumes "sched_step st s ev s'" and safe: "safe R s rs ws"
  shows "\<exists>rs' ws'. safe R s' rs' ws' \<and> tasks s' rs' ws' \<subseteq> alive ev (tasks s rs ws) \<and>
    alive ev (tasks s rs ws) - stray s rs ws \<subseteq> tasks s' rs' ws' \<and> stray s' rs' ws' \<subseteq> stray s rs ws \<union> short_sleep ev"
  using assms(1)
proof cases
  case tick
  with safe_irq_pit [OF safe] show ?thesis by fastforce
next
  case (sleep msec)
  with safe_sleep [OF safe, of msec s'] show ?thesis by fastforce
next
  case yield
  with safe_yield [OF safe] show ?thesis by fastforce
next
  case exit
  with safe_exit [OF safe] show ?thesis by fastforce
next
  case (spawn entry name p s1)
  with safe_spawn [OF safe] show ?thesis by fastforce
qed

lemma safe_alloc:
  assumes safe: "safe R s rs ws" and al: "pmman_alloc (pmman_kernel_map s) sz = Some (p, mp)"
  shows "safe R (s\<lparr>pmman_kernel_map := mp\<rparr>) rs ws \<and> tasks (s\<lparr>pmman_kernel_map := mp\<rparr>) rs ws = tasks s rs ws \<and>
    stray (s\<lparr>pmman_kernel_map := mp\<rparr>) rs ws \<subseteq> stray s rs ws"
proof -
  have core: "sched_core s rs ws" using safe by (rule safe_core)
  then have "pmman_inv (pmman_kernel_map s)" by (simp add: sched_core_def)
  with pm.alloc_returns [of "pmman_kernel_map s" sz] pm.alloc_keeps_busy [of "pmman_kernel_map s" sz p mp] al
  have m: "pmman_inv mp" "in_use (pmman_kernel_map s) \<subseteq> in_use mp" by auto
  let ?s = "s\<lparr>pmman_kernel_map := mp\<rparr>"
  have T: "tasks ?s rs ws = tasks s rs ws" by (simp add: tasks_def)
  have o: "owns s q \<Longrightarrow> owns ?s q" for q using m(2) unfolding owns_def by auto
  have inv: "sched_inv_as q ?s rs ws" if "sched_inv_as q s rs ws" for q
    using that m o unfolding sched_inv_as_def sched_core_def T
    by (auto simp: queues_def at_rest_as_def)
  then have "sched_ok ?s rs ws" using safe by (auto simp: safe_def sched_ok_def running_def)
  moreover have "stray ?s rs ws \<subseteq> stray s rs ws" using inv by (auto simp: stray_def)
  ultimately show ?thesis using safe m(2) unfolding safe_def T by auto
qed

text \<open>What the handlers do to the scheduler.\<close>

lemma interrupt_handler_sched:
  assumes "interrupt_handler b u intr k = Some k'"
  shows "k_sched k' = k_sched k \<or> irq_pit (k_sched k) = Some (k_sched k')"
proof -
  have ack: "k_sched (irq_ack b pic apic irq k) = k_sched k" for pic apic irq k by (simp add: irq_ack_def)
  show ?thesis using assms
    by (auto simp: interrupt_handler_def Let_def ack case_prod_beta dest: irq_device_frame split: if_splits bind_splits)
qed

lemma sys_handler_sched:
  "sys_handler b rootfs regs k m = Some (e, k', m') \<Longrightarrow> k_sched k' = k_sched k \<or> proc_yield (k_sched k) = Some (k_sched k')"
  by (auto simp: sys_handler_def split: if_splits bind_splits)

lemma sys_step_safe:
  assumes "sys_step b rootfs st K (k, m) ev (k', m')" and safe: "safe R (k_sched k) rs ws"
  shows "\<exists>rs' ws'. safe R (k_sched k') rs' ws' \<and> tasks (k_sched k') rs' ws' \<subseteq> sys_alive ev (tasks (k_sched k) rs ws) \<and>
    sys_alive ev (tasks (k_sched k) rs ws) - stray (k_sched k) rs ws \<subseteq> tasks (k_sched k') rs' ws' \<and>
    stray (k_sched k') rs' ws' \<subseteq> stray (k_sched k) rs ws \<union> sys_short [ev]"
  using assms(1)
proof cases
  case (irq u intr)
  from interrupt_handler_sched [OF irq(3)] show ?thesis
  proof
    assume "k_sched k' = k_sched k"
    then show ?thesis using safe irq by auto
  next
    assume "irq_pit (k_sched k) = Some (k_sched k')"
    with safe_irq_pit [OF safe] irq show ?thesis by fastforce
  qed
next
  case (call regs e)
  from sys_handler_sched [OF call(2)] show ?thesis
  proof
    assume "k_sched k' = k_sched k"
    then show ?thesis using safe call by auto
  next
    assume "proc_yield (k_sched k) = Some (k_sched k')"
    with safe_yield [OF safe] call show ?thesis by fastforce
  qed
next
  case (sched ev' s')
  with sched_step_safe [of st "k_sched k" ev' s' R rs ws] safe show ?thesis
    by (simp add: sys_short_def short_sleepers_def)
next
  case (alloc sz p mp)
  with safe_alloc [OF safe] show ?thesis by (fastforce intro: exI [of _ rs])
qed

lemma kept_shrink: "kept A L T \<Longrightarrow> T' \<subseteq> T \<Longrightarrow> T - S \<subseteq> T' \<Longrightarrow> S \<subseteq> L \<Longrightarrow> L \<subseteq> L' \<Longrightarrow> kept A L' T'"
  unfolding kept_def by blast

lemma sys_kept_step:
  assumes "kept A L T" and "T' \<subseteq> sys_alive ev T" and "sys_alive ev T - S \<subseteq> T'" and "S \<subseteq> L" and "L \<subseteq> L'"
  shows "kept (sys_alive ev A) L' T'"
proof (cases ev)
  case (Op ev')
  with assms kept_step [of A L T T' ev' S L'] show ?thesis by simp
qed (use assms kept_shrink [OF assms(1) _ _ assms(4,5), of T'] in simp_all)

lemma sys_run_safe:
  assumes "sys_run b rootfs st K x0 evs x" and "safe R (k_sched (fst x0)) rs0 ws0" and "sched_inv (k_sched (fst x0)) rs0 ws0"
  shows "\<exists>rs ws. safe R (k_sched (fst x)) rs ws \<and> stray (k_sched (fst x)) rs ws \<subseteq> sys_short evs \<and>
    kept (fold sys_alive evs (tasks (k_sched (fst x0)) rs0 ws0)) (sys_short evs) (tasks (k_sched (fst x)) rs ws)"
  using assms(1)
proof induction
  case start
  have "kept T L T" for T L by (auto simp: kept_def)
  then show ?case using assms(2,3) by (intro exI [of _ rs0] exI [of _ ws0]) simp
next
  case (more evs x ev x')
  then obtain rs ws where s: "safe R (k_sched (fst x)) rs ws" "stray (k_sched (fst x)) rs ws \<subseteq> sys_short evs"
    "kept (fold sys_alive evs (tasks (k_sched (fst x0)) rs0 ws0)) (sys_short evs) (tasks (k_sched (fst x)) rs ws)" by blast
  from sys_step_safe [of b rootfs st K "fst x" "snd x" ev "fst x'" "snd x'" R rs ws] more.hyps(2) s(1) obtain rs' ws' where
    s': "safe R (k_sched (fst x')) rs' ws'" "tasks (k_sched (fst x')) rs' ws' \<subseteq> sys_alive ev (tasks (k_sched (fst x)) rs ws)"
      "sys_alive ev (tasks (k_sched (fst x)) rs ws) - stray (k_sched (fst x)) rs ws \<subseteq> tasks (k_sched (fst x')) rs' ws'"
      "stray (k_sched (fst x')) rs' ws' \<subseteq> stray (k_sched (fst x)) rs ws \<union> sys_short [ev]" by auto
  have L: "sys_short (evs @ [ev]) = sys_short evs \<union> sys_short [ev]" by (auto simp: sys_short_def short_sleepers_def)
  from sys_kept_step [OF s(3) s'(2,3) s(2), of "sys_short (evs @ [ev])"] s'(1,4) s(2) show ?case
    unfolding L by (intro exI [of _ rs'] exI [of _ ws'] conjI) auto
qed

section \<open>The state of the input devices\<close>

text \<open>No step breaks them.\<close>

definition devices_wf :: "'w kernel \<Rightarrow> bool" where
  "devices_wf k \<longleftrightarrow> kb_wf (k_kb k) \<and> mouse_wf (k_mouse k)"

lemma irq_device_wf:
  assumes "irq_device b irq k = Some k'" and "devices_wf k"
  shows "devices_wf k'"
proof -
  have kb: "kb_wf s" if "kb_handle_interrupt b (k_kb k) w = Some (s, w')" for s w w'
  proof -
    have wf: "kb_wf (k_kb k)" using assms(2) by (simp add: devices_wf_def)
    from that obtain c where c: "kb_byte c (k_kb k) = Some s"
      by (auto simp: kb_handle_interrupt_def case_prod_beta split: bind_splits)
    then have "kb_scan_len (k_kb k) \<noteq> 16" using kb_byte_full [OF wf] by auto
    then have "kb_scan_len (k_kb k) < 16" using wf by (simp add: kb_wf_def order_less_le)
    from kb_byte_wf [OF wf this] c show ?thesis by (metis option.sel)
  qed
  have mouse: "mouse_wf s" if "mouse_handle_interrupt b (k_mouse k) w = Some (s, w')" for s w w'
    using mouse_handle_interrupt_wf [OF that] assms(2) by (simp add: devices_wf_def)
  show ?thesis using assms kb mouse
    by (auto simp: irq_device_def devices_wf_def split: if_splits bind_splits)
qed

lemma irq_ack_devices [simp]: "devices_wf (irq_ack b pic apic irq k) = devices_wf k"
  by (simp add: devices_wf_def irq_ack_def)

lemma devices_wf_update [simp]:
  "devices_wf (k\<lparr>k_sched := s\<rparr>) = devices_wf k" "devices_wf (k\<lparr>k_world := w\<rparr>) = devices_wf k"
  by (simp_all add: devices_wf_def)

lemma sys_step_devices:
  assumes "sys_step b rootfs st K (k, m) ev (k', m')" and "devices_wf k"
  shows "devices_wf k'"
  using assms(1)
proof cases
  case (irq u intr)
  then show ?thesis using assms(2)
    by (auto simp: interrupt_handler_def Let_def case_prod_beta dest: irq_device_wf split: if_splits bind_splits)
next
  case (call regs e)
  then show ?thesis using assms(2) by (auto simp: sys_handler_def split: if_splits bind_splits)
qed (use assms(2) in auto)

lemma sys_run_devices:
  assumes "sys_run b rootfs st K x0 evs x" and "devices_wf (fst x0)"
  shows "devices_wf (fst x)"
  using assms
proof induction
  case (more evs x ev x')
  then show ?case using sys_step_devices [of b rootfs st K "fst x" "snd x" ev "fst x'" "snd x'"] by simp
qed

text \<open>The start sets the pointer, and the size of a packet to four bytes if the mouse has a wheel.\<close>

lemma boot_ps2_wf:
  assumes "boot_ps2 b mouse ps2 w = Some (mouse', ps2', w')" and "mouse_wf mouse"
  shows "mouse_wf mouse'"
proof -
  have "mouse_wf s'" if "(if c then mouse_initialize b port mouse v else Some (mouse, v)) = Some (s', v')" for c port v s' v'
    using that assms(2) by (auto dest: mouse_initialize_wf split: if_splits)
  then show ?thesis using assms(1)
    by (cases "ps2_initialize b ps2 (pit_initialize b w)") (auto simp: boot_ps2_def Let_def bind_eq_Some_conv)
qed

lemma boot_devices_mouse:
  assumes "boot_devices b e mc m = Some (rootfs, mc')" and "mouse_wf (mc_mouse mc)"
  shows "mouse_wf (mc_mouse mc')"
proof -
  let ?info = "bootinf (mc_mem mc) (be_boot_info e)"
  obtain fb mouse m1 where vga: "boot_vga (gdt_make_flat (be_gdt e) m) (bi_mib ?info) (mc_mouse mc) = (fb, mouse, m1)"
    by (metis prod_cases3)
  have "mouse_wf mouse" using vga assms(2) by (auto simp: boot_vga_def Let_def mouse_wf_def)
  moreover have "\<exists>w ps2 w'. boot_ps2 b mouse (mc_ps2 mc) w = Some (mc_mouse mc', ps2, w')"
    using assms(1) by (auto simp: boot_devices_def Let_def vga split: prod.splits bind_splits; blast)
  ultimately show ?thesis by (metis boot_ps2_wf)
qed


section \<open>The system after the start\<close>

text \<open>Memory that two processes own does not overlap, nor does a process own a reserved byte.\<close>

lemma owns_block: "owns s p \<Longrightarrow> x \<in> block_bytes p \<Longrightarrow> p = pmman_block_addr (x div 16384)"
proof -
  assume "owns s p" and x: "x \<in> block_bytes p"
  then obtain t where t: "t < 1024" "p = pmman_block_addr t" by (auto simp: owns_def)
  then have "x div 16384 = t" using x by (auto simp: block_bytes_def unat_block_addr intro!: div_nat_eqI)
  with t show ?thesis by simp
qed

lemma safe_apart:
  assumes "safe (reserved_blocks info) s rs ws" and "covered_info info"
    and "p \<in> insert (proc_idle s) (tasks s rs ws)"
  shows "block_bytes p \<inter> reserved info = {}"
    and "q \<in> insert (proc_idle s) (tasks s rs ws) \<Longrightarrow> p \<noteq> q \<Longrightarrow> block_bytes p \<inter> block_bytes q = {}"
proof -
  have own: "owns s x" if "x \<in> insert (proc_idle s) (tasks s rs ws)" for x
    using safe_core [OF assms(1)] that by (auto simp: sched_core_def)
  have "\<forall>r \<in> reserved_blocks info. p \<noteq> pmman_block_addr r" using assms(1,3) unfolding safe_def by blast
  then show "block_bytes p \<inter> reserved info = {}"
    using owns_block [OF own [OF assms(3)]] reserved_block [OF assms(2)] by blast
  show "block_bytes p \<inter> block_bytes q = {}" if "q \<in> insert (proc_idle s) (tasks s rs ws)" "p \<noteq> q"
    using owns_block [OF own [OF assms(3)]] owns_block [OF own [OF that(1)]] that(2) by blast
qed

text \<open>What the start leaves.\<close>

lemma kernel_enter_result:
  assumes "enough_memory (bootinf (mc_mem mc) (be_boot_info e)) (mc_mem mc)" and "cold mc"
    and "kernel_enter b e mc = Some (rootfs, mc')"
  shows "\<exists>rs ws p q. safe (reserved_blocks (bootinf (mc_mem mc) (be_boot_info e))) (mc_sched mc') rs ws \<and>
    sched_inv (mc_sched mc') rs ws \<and> tasks (mc_sched mc') rs ws = {p, q} \<and> p_entry (procs (mc_sched mc') p) = be_wserver e \<and>
    p_entry (procs (mc_sched mc') q) = be_wclient e"
    and "mouse_wf (mc_mouse mc) \<Longrightarrow> mouse_wf (mc_mouse mc')"
proof -
  let ?i = "bootinf (mc_mem mc) (be_boot_info e)"
  have mem: "entries_ok (boot_entries ?i (mc_mem mc))" "covered_info ?i" "3 \<le> card (boot_free_blocks ?i (mc_mem mc))"
    using assms(1) by (simp_all add: enough_memory_def)
  have q: "ready_q (mc_sched mc) = 0" "waiting_q (mc_sched mc) = 0" "proc_current (mc_sched mc) = 0" "sched_lock (mc_sched mc) = 0"
    using assms(2) by (simp_all add: cold_def)
  from kernel_enter_starts [OF mem q, of b] assms(3) obtain m mc1 s rs ws p q where
    dev: "boot_devices b e mc m = Some (rootfs, mc1)" "mc' = mc1\<lparr>mc_sched := s\<rparr>"
    and s: "sched_inv s rs ws" "tasks s rs ws = {p, q}" "p_entry (procs s p) = be_wserver e" "p_entry (procs s q) = be_wclient e"
      "reserved_blocks ?i \<subseteq> in_use (pmman_kernel_map s)"
      "\<forall>x \<in> {proc_idle s, p, q}. \<forall>r \<in> reserved_blocks ?i. x \<noteq> pmman_block_addr r"
    by (auto split: option.splits)
  show "mouse_wf (mc_mouse mc) \<Longrightarrow> mouse_wf (mc_mouse mc')"
    using boot_devices_mouse [OF dev(1)] by (simp add: dev(2))
  have "safe (reserved_blocks ?i) s rs ws" unfolding safe_def s(2) by (intro conjI sched_ok_active s(1,5)) (rule s(6))
  then show "\<exists>rs ws p q. safe (reserved_blocks ?i) (mc_sched mc') rs ws \<and>
    sched_inv (mc_sched mc') rs ws \<and> tasks (mc_sched mc') rs ws = {p, q} \<and> p_entry (procs (mc_sched mc') p) = be_wserver e \<and>
    p_entry (procs (mc_sched mc') q) = be_wclient e"
    using s(1-4) by (auto simp: dev(2))
qed

lemma kernel_of_fields [simp]:
  "k_sched (kernel_of kb mc) = mc_sched mc" "k_kb (kernel_of kb mc) = kb" "k_mouse (kernel_of kb mc) = mc_mouse mc"
  by (simp_all add: kernel_of_def)

abbreviation boot_reserved :: "boot_env \<Rightarrow> 'w machine \<Rightarrow> nat set" where
  "boot_reserved e mc \<equiv> reserved (bootinf (mc_mem mc) (be_boot_info e))"

lemma running_system:
  assumes "enough_memory (bootinf (mc_mem mc) (be_boot_info e)) (mc_mem mc)" and "cold mc"
    and "kernel_enter b e mc = Some (rootfs, mc')"
    and "sys_run b rootfs st K (kernel_of kb mc', mem) evs (k, m)"
  shows "\<exists>rs ws p q. safe (reserved_blocks (bootinf (mc_mem mc) (be_boot_info e))) (k_sched k) rs ws \<and>
    kept (fold sys_alive evs {p, q}) (sys_short evs) (tasks (k_sched k) rs ws) \<and>
    p_entry (procs (mc_sched mc') p) = be_wserver e \<and> p_entry (procs (mc_sched mc') q) = be_wclient e"
proof -
  from kernel_enter_result(1) [OF assms(1-3)] obtain rs0 ws0 p q where
    s0: "safe (reserved_blocks (bootinf (mc_mem mc) (be_boot_info e))) (mc_sched mc') rs0 ws0"
      "sched_inv (mc_sched mc') rs0 ws0" "tasks (mc_sched mc') rs0 ws0 = {p, q}"
    and pq: "p_entry (procs (mc_sched mc') p) = be_wserver e" "p_entry (procs (mc_sched mc') q) = be_wclient e" by blast
  from sys_run_safe [OF assms(4), of "reserved_blocks (bootinf (mc_mem mc) (be_boot_info e))" rs0 ws0] s0 obtain rs ws where
    "safe (reserved_blocks (bootinf (mc_mem mc) (be_boot_info e))) (k_sched k) rs ws"
    "kept (fold sys_alive evs {p, q}) (sys_short evs) (tasks (k_sched k) rs ws)" by auto
  with pq show ?thesis by blast
qed

text \<open>The sample machine starts, and the timer interrupts it.\<close>

lemma sample_sys_run:
  "\<exists>rootfs mc' k. kernel_enter boot_bus boot_sample_env boot_machine = Some (rootfs, mc') \<and>
     sys_run boot_bus rootfs st K (kernel_of kb_init mc', m) [Irq 0x20] (k, m) \<and> k_kb k = kb_init"
proof -
  from boot_sample_returns obtain rootfs mc' where
    boot: "kernel_enter boot_bus boot_sample_env boot_machine = Some (rootfs, mc')" by blast
  let ?k = "kernel_of kb_init mc'"
  from kernel_enter_result(1) [OF boot_sample_start(1,2) boot] obtain rs ws where "sched_inv (mc_sched mc') rs ws"
    by (auto simp: safe_def)
  from irq_pit_inv [OF this] obtain s where s: "irq_pit (mc_sched mc') = Some s" by blast
  have line: "is_pic_irq 0x20 \<or> is_apic_irq 0x20" "irq_line 0x20 = 0"
    by (simp_all add: is_pic_irq_def is_apic_irq_def irq_line_def pic_consts apic_consts)
  have "\<exists>k. interrupt_handler boot_bus (False, False, 0) 0x20 ?k = Some k \<and> k_kb k = kb_init"
    unfolding interrupt_handler_irq [OF line(1)] line(2) by (simp add: s)
  then obtain k where k: "interrupt_handler boot_bus (False, False, 0) 0x20 ?k = Some k" "k_kb k = kb_init" by blast
  have "sys_run boot_bus rootfs st K (?k, m) ([] @ [Irq 0x20]) (k, m)"
    by (rule sys_run.more) (rule sys_run.start, rule sys_step.irq, rule k(1))
  with boot k(2) show ?thesis by auto
qed

lemma boot_bus_mouse: "mouse_sends boot_bus (\<lambda>_. [])"
  by (auto simp: mouse_sends_def boot_bus_simps ps2_consts ata_bits)





end
