(* ===== verification/Wserver.thy ===== *)
theory Wserver
  imports Interrupts Render Psf Ppm
begin

text \<open>
  The window server and its client, the two processes of \<^verbatim>\<open>kernel/kernel.c\<close>.  The windows are the array
  \<^verbatim>\<open>w\<close> of sixteen structures of 28 bytes in memory, front window first.  The coordinates are 32-bit
  numbers in memory and integers in the computations: an overflow is undefined in C.  \<^verbatim>\<open>panic\<close> does not
  return.  Both processes initialise and then loop for ever, so the initialisation and the body of the loop
  are definitions of their own; between two runs of the body the process sleeps (\<^verbatim>\<open>Proc\<close>).

  The lemmas show what raising a window does to the array, and which window gets the focus.
\<close>

section \<open>Windows\<close>

record rect_t =
  rect_x :: int
  rect_y :: int
  rect_w :: int
  rect_h :: int

definition RECT :: "int \<Rightarrow> int \<Rightarrow> int \<Rightarrow> int \<Rightarrow> rect_t" where
  "RECT x y rw rh = \<lparr>rect_x = x, rect_y = y, rect_w = rw, rect_h = rh\<rparr>"

record win_t =
  win_r :: rect_t
  win_px_data :: addr
  win_title :: addr
  win_dragged :: u8

definition sizeof_win :: u32 where "sizeof_win = 28"

definition rect_at :: "mem \<Rightarrow> addr \<Rightarrow> rect_t" where
  "rect_at m a = RECT (sint (load32 m a)) (sint (load32 m (a + 4))) (sint (load32 m (a + 8))) (sint (load32 m (a + 12)))"

definition win_at :: "mem \<Rightarrow> addr \<Rightarrow> win_t" where
  "win_at m a = \<lparr>win_r = rect_at m a, win_px_data = load32 m (a + 16), win_title = load32 m (a + 20), win_dragged = m (a + 24)\<rparr>"

definition put_rect :: "addr \<Rightarrow> rect_t \<Rightarrow> mem \<Rightarrow> mem" where
  "put_rect a r m = store32 (store32 (store32 (store32 m a (of_int (rect_x r))) (a + 4) (of_int (rect_y r)))
     (a + 8) (of_int (rect_w r))) (a + 12) (of_int (rect_h r))"

abbreviation win_addr :: "addr \<Rightarrow> usz \<Rightarrow> addr" where
  "win_addr wb i \<equiv> wb + sizeof_win * i"

definition rect_contains :: "rect_t \<Rightarrow> int \<Rightarrow> int \<Rightarrow> bool" where
  "rect_contains r x y \<longleftrightarrow> x \<ge> rect_x r \<and> x < rect_x r + rect_w r \<and> y \<ge> rect_y r \<and> y < rect_y r + rect_h r"

section \<open>Files\<close>

text \<open>
  The font and the image are read in two steps, first the size and then the data; \<open>sz\<close> is the address of
  the local variable \<^verbatim>\<open>file_size\<close>.
\<close>

definition ws_read_file ::
    "'w fs_t \<Rightarrow> addr \<Rightarrow> addr \<Rightarrow> pmman_map_t \<times> mem \<times> 'w \<Rightarrow> (addr \<times> pmman_map_t \<times> mem \<times> 'w) option" where
  "ws_read_file rootfs sz path = (\<lambda>(mp, m, w).
     do { (e, m, w) \<leftarrow> fread rootfs path 0 sz (store32 m sz 0, w);
          if e \<noteq> OK then None else do {
          (file_data, mp) \<leftarrow> pmman_alloc mp (load32 m sz);
          (e, m, w) \<leftarrow> fread rootfs path file_data sz (m, w);
          if e \<noteq> OK then None else Some (file_data, mp, m, w) } })"

definition ws_load_font ::
    "'w fs_t \<Rightarrow> addr \<Rightarrow> addr \<Rightarrow> pmman_map_t \<times> mem \<times> 'w \<Rightarrow> (font_t \<times> pmman_map_t \<times> mem \<times> 'w) option" where
  "ws_load_font rootfs sz path st =
     do { (file_data, mp, m, w) \<leftarrow> ws_read_file rootfs sz path st;
          (_, font, m) \<leftarrow> psf_load m file_data (load32 m sz) 0;
          font \<leftarrow> font;
          (font_data, mp) \<leftarrow> pmman_alloc mp (glyph_count font * px_per_glyph font * 4);
          (_, font, m) \<leftarrow> psf_load m file_data (load32 m sz) font_data;
          font \<leftarrow> font;
          Some (font, mp, m, w) }"

definition ws_load_img ::
    "'w fs_t \<Rightarrow> addr \<Rightarrow> addr \<Rightarrow> pmman_map_t \<times> mem \<times> 'w \<Rightarrow> (img_t \<times> pmman_map_t \<times> mem \<times> 'w) option" where
  "ws_load_img rootfs sz path st =
     do { (file_data, mp, m, w) \<leftarrow> ws_read_file rootfs sz path st;
          (_, img, m) \<leftarrow> ppm_load m file_data (load32 m sz) 0;
          img \<leftarrow> img;
          (pxmap, mp) \<leftarrow> pmman_alloc mp (img_width img * img_height img * 4);
          (_, img, m) \<leftarrow> ppm_load m file_data (load32 m sz) pxmap;
          img \<leftarrow> img;
          Some (img, mp, m, w) }"

section \<open>Drawing\<close>

definition ws_draw_border :: "framebuf_t \<Rightarrow> rect_t \<Rightarrow> u32 \<Rightarrow> mem \<Rightarrow> mem option" where
  "ws_draw_border fb r clr m =
     do { m \<leftarrow> render_rect fb (rect_x r) (rect_y r) 1 (rect_h r) clr m;
          m \<leftarrow> render_rect fb (rect_x r + rect_w r - 1) (rect_y r) 1 (rect_h r) clr m;
          m \<leftarrow> render_rect fb (rect_x r) (rect_y r) (rect_w r) 1 clr m;
          render_rect fb (rect_x r) (rect_y r + rect_h r - 1) (rect_w r) 1 clr m }"

partial_function (option) ws_draw_text :: "framebuf_t \<Rightarrow> font_t \<Rightarrow> int \<Rightarrow> int \<Rightarrow> addr \<Rightarrow> mem \<Rightarrow> mem option" where
  "ws_draw_text fb font x y it m =
     (if m it \<noteq> 0 then
        do { m' \<leftarrow> render_blend_image fb (glyph_data font + 4 * (px_per_glyph font * ucast (m it))) x y
               (uint (glyph_width font)) (uint (glyph_height font)) m;
             ws_draw_text fb font (x + uint (glyph_width font)) y (it + 1) m' }
      else Some m)"

definition ws_draw_rect :: "framebuf_t \<Rightarrow> rect_t \<Rightarrow> u32 \<Rightarrow> mem \<Rightarrow> mem option" where
  "ws_draw_rect fb r clr m = render_rect fb (rect_x r) (rect_y r) (rect_w r) (rect_h r) clr m"

section \<open>The window server\<close>

record ws_t =
  ws_drag_x :: int
  ws_drag_y :: int
  ws_drag_wx :: int
  ws_drag_wy :: int
  ws_focus :: usz

abbreviation ms_x :: "mouse_t \<Rightarrow> int" where "ms_x ms \<equiv> sint (mouse_x ms)"
abbreviation ms_y :: "mouse_t \<Rightarrow> int" where "ms_y ms \<equiv> sint (mouse_y ms)"

definition MS_BTN_LEFT :: nat where "MS_BTN_LEFT = MS_BTN_1"

definition left_down :: "mouse_t \<Rightarrow> bool" where
  "left_down ms \<longleftrightarrow> mouse_button_states ms ! MS_BTN_LEFT \<noteq> 0"

text \<open>Buffer, font and state at the start; \<open>lits\<close> gives the addresses of the string literals.\<close>

definition proc_wserver_init ::
    "'w fs_t \<Rightarrow> (string \<Rightarrow> addr) \<Rightarrow> addr \<Rightarrow> framebuf_t \<Rightarrow> pmman_map_t \<times> mem \<times> 'w \<Rightarrow>
     (framebuf_t \<times> font_t \<times> ws_t \<times> pmman_map_t \<times> mem \<times> 'w) option" where
  "proc_wserver_init rootfs lits sz vga_framebuf = (\<lambda>(mp, m, w).
     do { (double_buf, mp) \<leftarrow> pmman_alloc mp (fb_px_count vga_framebuf * 4);
          if double_buf = 0 then None else do {
          let fb = vga_framebuf\<lparr>fb_px_data := double_buf\<rparr>;
          (font, mp, m, w) \<leftarrow> ws_load_font rootfs sz (lits ''lat1-16.psf'') (mp, m, w);
          Some (fb, font, \<lparr>ws_drag_x = 0, ws_drag_y = 0, ws_drag_wx = 0, ws_drag_wy = 0, ws_focus = 0\<rparr>, mp, m, w) } })"

text \<open>The move of a dragged window, the area that reacts to the pointer, and the move to the front.\<close>

definition ws_drag :: "ws_t \<Rightarrow> mouse_t \<Rightarrow> addr \<Rightarrow> mem \<Rightarrow> mem" where
  "ws_drag ws ms a m =
     (if win_dragged (win_at m a) \<noteq> 0 then
        store32 (store32 m a (of_int (ws_drag_wx ws + (ms_x ms - ws_drag_x ws)))) (a + 4)
          (of_int (ws_drag_wy ws + (ms_y ms - ws_drag_y ws)))
      else m)"

definition ws_bounds :: "mem \<Rightarrow> addr \<Rightarrow> rect_t" where
  "ws_bounds m a = (let r = rect_at m a in RECT (rect_x r - 1) (rect_y r - 20) (rect_w r + 2) (20 + rect_h r + 2))"

definition ws_raise :: "addr \<Rightarrow> usz \<Rightarrow> mem \<Rightarrow> mem" where
  "ws_raise wb i m =
     (let win = load_bytes m (win_addr wb i) (unat sizeof_win);
          m = mmove8 m (win_addr wb 1) (win_addr wb 0) (i * sizeof_win)
      in store_bytes m (win_addr wb 0) win)"

function ws_pick :: "addr \<Rightarrow> usz \<Rightarrow> ws_t \<Rightarrow> mouse_t \<Rightarrow> usz \<Rightarrow> mem \<Rightarrow> usz \<times> mem" where
  "ws_pick wb win_count ws ms i m =
     (if i < win_count then
        let m = ws_drag ws ms (win_addr wb i) m
        in if rect_contains (ws_bounds m (win_addr wb i)) (ms_x ms) (ms_y ms) then
             if left_down ms then (0, ws_raise wb i m) else (i, m)
           else ws_pick wb win_count ws ms (i + 1) m
      else (ws_focus ws, m))"
  by pat_completeness auto
termination
  by (relation "measure (\<lambda>(wb, n, ws, ms, i, m). unat n - unat i)")
    (auto simp: unat_succ_less word_less_nat_alt)

declare ws_pick.simps [simp del]

text \<open>One window of the second loop: start or stop dragging it if it has the focus, then draw it.\<close>

definition ws_grab :: "addr \<Rightarrow> ws_t \<Rightarrow> mouse_t \<Rightarrow> usz \<Rightarrow> mem \<Rightarrow> ws_t \<times> mem" where
  "ws_grab wb ws ms i m =
     (let a = win_addr wb i; r = rect_at m a; hr = RECT (rect_x r - 1) (rect_y r - 20) (rect_w r + 2) 20
      in if rect_contains hr (ms_x ms) (ms_y ms) \<and> left_down ms \<and> win_dragged (win_at m (win_addr wb 0)) = 0 then
           (ws\<lparr>ws_drag_x := ms_x ms, ws_drag_y := ms_y ms, ws_drag_wx := rect_x r, ws_drag_wy := rect_y r\<rparr>, m(a + 24 := 1))
         else if \<not> left_down ms then (ws, m(a + 24 := 0))
         else (ws, m))"

definition ws_draw_window :: "framebuf_t \<Rightarrow> font_t \<Rightarrow> addr \<Rightarrow> mouse_t \<Rightarrow> usz \<Rightarrow> ws_t \<times> mem \<Rightarrow> (ws_t \<times> mem) option" where
  "ws_draw_window fb font wb ms i = (\<lambda>(ws, m).
     let a = win_addr wb i; r = rect_at m a;
         hr = RECT (rect_x r - 1) (rect_y r - 20) (rect_w r + 2) 20;
         br = RECT (rect_x r - 1) (rect_y r - 1) (rect_w r + 2) (rect_h r + 2);
         bclr = (if i = ws_focus ws then 0xAE3030 else 0x404040);
         (ws, m) = (if i = ws_focus ws then ws_grab wb ws ms i m else (ws, m))
     in do { m \<leftarrow> ws_draw_rect fb hr bclr m;
             m \<leftarrow> ws_draw_text fb font (rect_x (rect_at m a) + 4) (rect_y (rect_at m a) - 18) (win_title (win_at m a)) m;
             m \<leftarrow> ws_draw_border fb br bclr m;
             let r = rect_at m a;
             m \<leftarrow> render_put_image fb (win_px_data (win_at m a)) (rect_x r) (rect_y r) (rect_w r) (rect_h r) m;
             Some (ws, m) })"

primrec ws_draw_windows :: "framebuf_t \<Rightarrow> font_t \<Rightarrow> addr \<Rightarrow> mouse_t \<Rightarrow> nat \<Rightarrow> ws_t \<times> mem \<Rightarrow> (ws_t \<times> mem) option" where
  "ws_draw_windows fb font wb ms 0 st = Some st"
| "ws_draw_windows fb font wb ms (Suc i) st =
     do { st \<leftarrow> ws_draw_window fb font wb ms (of_nat i) st; ws_draw_windows fb font wb ms i st }"

text \<open>The body of the loop of \<^verbatim>\<open>proc_wserver\<close>, up to the sleep.\<close>

definition ws_frame ::
    "framebuf_t \<Rightarrow> framebuf_t \<Rightarrow> font_t \<Rightarrow> addr \<Rightarrow> addr \<Rightarrow> usz \<Rightarrow> mouse_t \<Rightarrow> ws_t \<times> mem \<Rightarrow> (ws_t \<times> mem) option" where
  "ws_frame vga_framebuf fb font cursor wb win_count ms = (\<lambda>(ws, m).
     do { let m = render_clear fb 0 m;
          let (focus, m) = ws_pick wb win_count ws ms 0 m;
          (ws, m) \<leftarrow> ws_draw_windows fb font wb ms (unat win_count) (ws\<lparr>ws_focus := focus\<rparr>, m);
          m \<leftarrow> render_blend_image fb cursor (ms_x ms) (ms_y ms) 13 24 m;
          Some (ws, mcpy32 m (fb_px_data vga_framebuf) (fb_px_data fb) (fb_px_count vga_framebuf)) })"

section \<open>The client\<close>

definition wclient_window ::
    "addr \<Rightarrow> addr \<Rightarrow> rect_t \<Rightarrow> pmman_map_t \<times> mem \<Rightarrow> (framebuf_t \<times> pmman_map_t \<times> mem) option" where
  "wclient_window a title r = (\<lambda>(mp, m).
     do { let m = put_rect a r m;
          (px, mp) \<leftarrow> pmman_alloc mp (of_int (rect_w r * rect_h r) * 4);
          let m = (store32 (store32 m (a + 16) px) (a + 20) title)(a + 24 := 0);
          Some (\<lparr>fb_width = rect_w r, fb_height = rect_h r, fb_px_data = px, fb_px_count = of_int (rect_w r * rect_h r)\<rparr>, mp, m) })"

definition proc_wclient_init ::
    "'w fs_t \<Rightarrow> (string \<Rightarrow> addr) \<Rightarrow> addr \<Rightarrow> addr \<Rightarrow> pmman_map_t \<times> mem \<times> 'w \<Rightarrow>
     (framebuf_t list \<times> usz \<times> img_t \<times> pmman_map_t \<times> mem \<times> 'w) option" where
  "proc_wclient_init rootfs lits sz wb = (\<lambda>(mp, m, w).
     do { (fb0, mp, m) \<leftarrow> wclient_window (win_addr wb 0) (lits ''A window title'') (RECT 100 100 800 600) (mp, m);
          (fb1, mp, m) \<leftarrow> wclient_window (win_addr wb 1) (lits ''Another window title'') (RECT 100 100 400 300) (mp, m);
          let win_count = 2;
          (img, mp, m, w) \<leftarrow> ws_load_img rootfs sz (lits ''dord.ppm'') (mp, m, w);
          Some ([fb0, fb1], win_count, img, mp, m, w) })"

definition wclient_frame :: "framebuf_t list \<Rightarrow> font_t \<Rightarrow> (string \<Rightarrow> addr) \<Rightarrow> usz \<Rightarrow> img_t \<Rightarrow> mem \<Rightarrow> mem option" where
  "wclient_frame fbs font lits win_count img m =
     for_range 0 win_count (\<lambda>i m.
       do { fb \<leftarrow> arr_get fbs i;
            let m = render_clear fb 0x202020 m;
            m \<leftarrow> render_put_image fb (img_px_data img) 0 0 (sint (img_width img)) (sint (img_height img)) m;
            ws_draw_text fb font (sint (img_width img)) (sint (img_height img)) (lits ''Skjut mig'') m }) m"

section \<open>Raising a window\<close>

text \<open>
  The copy runs upwards, so copying a region \<open>p\<close> bytes upwards within itself repeats its first \<open>p\<close> bytes.
\<close>

lemma succ_mod: "0 < p \<Longrightarrow> 0 < k \<Longrightarrow> k mod p = (if Suc ((k - 1) mod p) = p then 0 else Suc ((k - 1) mod p))" for k p :: nat
  by (cases k) (auto simp: mod_Suc)

lemma unat_minus_Suc:
  fixes a s :: u32
  assumes "a \<noteq> s"
  shows "unat (a - (s + 1)) = unat (a - s) - 1" "0 < unat (a - s)"
proof -
  have nz: "a - s \<noteq> 0" using assms by simp
  then show pos: "0 < unat (a - s)" by (simp add: unat_gt_0)
  have "a - (s + 1) = (a - s) - 1" by simp
  then show "unat (a - (s + 1)) = unat (a - s) - 1" using pos
    by (simp only:) (subst unat_sub, simp_all add: word_le_nat_alt)
qed

lemma mmove8_loop_period:
  assumes "0 < p" and "p + n < 2 ^ 32"
  shows "mmove8_loop m (s + of_nat p) s (of_nat n) a =
    (if unat (a - s) < p + n then m (if unat (a - s) < p then a else s + of_nat (unat (a - s) mod p)) else m a)"
  using assms
proof (induction n arbitrary: m s)
  case 0
  then show ?case by simp
next
  case (Suc n)
  let ?d = "s + of_nat p" and ?k = "unat (a - s)"
  let ?m = "m(?d := m s)"
  have step: "mmove8_loop m ?d s (of_nat (Suc n)) a = mmove8_loop ?m (s + 1 + of_nat p) (s + 1) (of_nat n) a"
    using Suc.prems by (subst mmove8_loop_Suc) (simp_all add: add.commute add.left_commute)
  have IH: "mmove8_loop ?m (s + 1 + of_nat p) (s + 1) (of_nat n) a =
      (if unat (a - (s + 1)) < p + n
       then ?m (if unat (a - (s + 1)) < p then a else s + 1 + of_nat (unat (a - (s + 1)) mod p)) else ?m a)"
    by (rule Suc.IH) (use Suc.prems in simp_all)
  have up: "unat (of_nat p :: u32) = p" using Suc.prems by (intro unat_of_nat_small) simp
  show ?case
  proof (cases "a = s")
    case True
    have "s \<noteq> ?d" using up Suc.prems(1) by (metis add_cancel_right_right not_less_zero unat_0)
    moreover have "s - (s + 1) = (- 1 :: u32)" by simp
    ultimately show ?thesis using Suc.prems True unfolding step IH by simp
  next
    case False
    note k = unat_minus_Suc [OF False]
    have ad: "a = ?d \<longleftrightarrow> ?k = p"
    proof
      assume "?k = p"
      then have "a - s = of_nat p" using up by (simp add: word_unat_eq_iff)
      then show "a = ?d" by (simp add: diff_eq_eq add.commute)
    qed (use up in simp)
    have wrap: "s + 1 + of_nat j = ?d \<longleftrightarrow> Suc j = p" if "j < p" for j
    proof -
      have "s + 1 + of_nat j = s + of_nat (Suc j)" by simp
      moreover have "unat (of_nat (Suc j) :: u32) = Suc j" using that Suc.prems by (intro unat_of_nat_small) simp
      ultimately show ?thesis using up by (metis add_left_cancel)
    qed
    have j: "(?k - 1) mod p < p" using Suc.prems by simp
    have e: "?m (s + 1 + of_nat ((?k - 1) mod p)) = m (s + of_nat (?k mod p))"
      using wrap [OF j] unfolding succ_mod [OF Suc.prems(1) k(2)] by (auto simp: add.assoc)
    show ?thesis
    proof (cases "?k - 1 < p")
      case True
      then show ?thesis using k(2) ad unfolding step IH k(1) by (auto simp: less_Suc_eq)
    next
      case False
      then show ?thesis using e ad unfolding step IH k(1) by auto
    qed
  qed
qed

text \<open>
  Which window is found at place \<open>j\<close> after window \<open>i\<close> has been raised: every window before it in the
  array is overwritten with the front one.
\<close>

definition raised_from :: "usz \<Rightarrow> usz \<Rightarrow> usz" where
  "raised_from i j = (if j = 0 then i else if j \<le> i then 0 else j)"

abbreviation win_bytes :: "mem \<Rightarrow> addr \<Rightarrow> usz \<Rightarrow> u8 list" where
  "win_bytes m wb j \<equiv> load_bytes m (win_addr wb j) 28"

lemma unat_win_byte:
  assumes "j < 16" and "k < 28"
  shows "unat (win_addr wb j + of_nat k - wb) = 28 * unat j + k"
proof -
  have j: "unat j < 16" using assms(1) by (simp add: word_less_nat_alt)
  have "win_addr wb j + of_nat k - wb = of_nat (28 * unat j + k)" by (simp add: sizeof_win_def)
  then show ?thesis using j assms(2) by (simp only:) (rule unat_of_nat_small, simp)
qed

lemma ws_raise_windows:
  assumes i: "i < 16" and j: "j < 16"
  shows "win_bytes (ws_raise wb i m) wb j = win_bytes m wb (raised_from i j)"
proof -
  let ?win = "win_bytes m wb i"
  have ui: "unat i < 16" "unat (i * 28) = 28 * unat i"
    using i by (simp_all add: word_less_nat_alt unat_word_ariths)
  have cnt: "i * 28 = (of_nat (28 * unat i) :: u32)" by simp
  have cp: "mmove8 m (wb + 28) wb (i * 28) a =
      (if unat (a - wb) < 28 + 28 * unat i then m (if unat (a - wb) < 28 then a else wb + of_nat (unat (a - wb) mod 28)) else m a)" for a
    unfolding mmove8_def cnt using mmove8_loop_period [of 28 "28 * unat i" m wb a] ui(1) by simp
  have st: "ws_raise wb i m a = (if unat (a - wb) < 28 then ?win ! unat (a - wb) else mmove8 m (wb + 28) wb (i * 28) a)" for a
    using store_bytes_apply [of ?win _ wb a] by (simp add: ws_raise_def sizeof_win_def)
  have "ws_raise wb i m (win_addr wb j + of_nat k) = m (win_addr wb (raised_from i j) + of_nat k)" if k: "k < 28" for k
  proof -
    let ?a = "win_addr wb j + of_nat k"
    have u: "unat (?a - wb) = 28 * unat j + k" by (rule unat_win_byte [OF j k])
    note at = st [of ?a, unfolded u cp]
    consider "j = 0" | "0 < unat j" "j \<le> i" | "i < j" using linorder_not_less by (metis unat_gt_0)
    then show ?thesis
    proof cases
      case 1
      then show ?thesis using k st [of ?a] u by (simp add: raised_from_def load_bytes_nth)
    next
      case 2
      then have "28 * unat j + k < 28 + 28 * unat i" "\<not> 28 * unat j + k < 28" "(28 * unat j + k) mod 28 = k"
        using k by (simp_all add: word_le_nat_alt)
      then show ?thesis using 2 unfolding at by (auto simp: raised_from_def)
    next
      case 3
      then have "unat i < unat j" by (simp add: word_less_nat_alt)
      then have "\<not> 28 * unat j + k < 28 + 28 * unat i" "\<not> 28 * unat j + k < 28" by simp_all
      moreover have "j \<noteq> 0" "\<not> j \<le> i" using 3 by auto
      ultimately show ?thesis unfolding at by (simp add: raised_from_def)
    qed
  qed
  then show ?thesis by (simp add: load_bytes_eq_map)
qed

section \<open>The window under the pointer\<close>

definition hit :: "mem \<Rightarrow> addr \<Rightarrow> mouse_t \<Rightarrow> nat \<Rightarrow> bool" where
  "hit m wb ms k \<longleftrightarrow> rect_contains (ws_bounds m (win_addr wb (of_nat k))) (ms_x ms) (ms_y ms)"

definition none_dragged :: "mem \<Rightarrow> addr \<Rightarrow> nat \<Rightarrow> bool" where
  "none_dragged m wb n \<longleftrightarrow> (\<forall>k<n. win_dragged (win_at m (win_addr wb (of_nat k))) = 0)"

text \<open>The first loop is a search for the frontmost window that holds the pointer.\<close>

definition pick_spec :: "addr \<Rightarrow> ws_t \<Rightarrow> mouse_t \<Rightarrow> mem \<Rightarrow> nat list \<Rightarrow> usz \<times> mem" where
  "pick_spec wb ws ms m ks =
     (case find (hit m wb ms) ks of
        None \<Rightarrow> (ws_focus ws, m)
      | Some k \<Rightarrow> if left_down ms then (0, ws_raise wb (of_nat k) m) else (of_nat k, m))"

lemma ws_pick_finds:
  assumes "none_dragged m wb (unat n)"
  shows "ws_pick wb n ws ms i m = pick_spec wb ws ms m [unat i..<unat n]"
  using assms
proof (induction wb n ws ms i m rule: ws_pick.induct)
  case (1 wb n ws ms i m)
  show ?case
  proof (cases "i < n")
    case False
    then show ?thesis by (subst ws_pick.simps) (simp add: pick_spec_def word_less_nat_alt)
  next
    case True
    then have "unat i < unat n" by (simp add: word_less_nat_alt)
    then have dr: "ws_drag ws ms (win_addr wb i) m = m" and up: "[unat i..<unat n] = unat i # [unat (i + 1)..<unat n]"
      using "1.prems" unat_succ_less [OF True] by (auto simp: none_dragged_def ws_drag_def upt_conv_Cons)
    have "ws_pick wb n ws ms (i + 1) m = pick_spec wb ws ms m [unat (i + 1)..<unat n]"
      if "\<not> rect_contains (ws_bounds m (win_addr wb i)) (ms_x ms) (ms_y ms)"
      using "1.IH" [OF True, of m] that "1.prems" dr by simp
    then show ?thesis unfolding up
      by (subst ws_pick.simps) (auto simp: True dr pick_spec_def hit_def)
  qed
qed

text \<open>
  C23  While no window is dragged, the window server searches the windows from front to back for the first
  one that holds the pointer.  If there is none the focus stays and no window changes; with the button
  up that window gets the focus; with the left button down it comes to the front with the focus.  But the
  other windows are not shifted back as they should be: every place up to its old one is filled with the
  front window, because the copy runs upwards through overlapping memory.  With two windows, as the client
  makes, this is a swap; from the third window on, windows are lost.
\<close>

theorem ws_pick_raises_topmost:
  assumes "none_dragged m wb (unat n)" and "n \<le> 16" and "ws_pick wb n ws ms 0 m = (focus, m')"
  shows "case find (hit m wb ms) [0..<unat n] of
      None \<Rightarrow> focus = ws_focus ws \<and> m' = m
    | Some i \<Rightarrow> i < unat n \<and>
        (if left_down ms then focus = 0 \<and>
           (\<forall>j<16. load_bytes m' (win_addr wb j) 28 =
              load_bytes m (win_addr wb (if j = 0 then of_nat i else if j \<le> of_nat i then 0 else j)) 28)
         else focus = of_nat i \<and> m' = m)"
proof -
  have p: "pick_spec wb ws ms m [0..<unat n] = (focus, m')"
    using ws_pick_finds [OF assms(1), of ws ms 0] assms(3) by simp
  show ?thesis
  proof (cases "find (hit m wb ms) [0..<unat n]")
    case None
    then show ?thesis using p by (simp add: pick_spec_def)
  next
    case (Some i)
    then have i: "i < unat n" by (auto simp: find_Some_iff)
    then have "i < 16" using assms(2) by (simp add: word_le_nat_alt)
    then have "(of_nat i :: usz) < 16" by (simp add: word_less_nat_alt unat_of_nat_small)
    then have all: "\<forall>j<16. win_bytes (ws_raise wb (of_nat i) m) wb j =
        win_bytes m wb (if j = 0 then of_nat i else if j \<le> of_nat i then 0 else j)"
      using ws_raise_windows [of "of_nat i" _ wb m] by (simp only: raised_from_def) blast
    have "if left_down ms then focus = 0 \<and> m' = ws_raise wb (of_nat i) m else focus = of_nat i \<and> m' = m"
      using p Some by (auto simp: pick_spec_def split: if_splits)
    then show ?thesis unfolding Some option.case using i all by presburger
  qed
qed

text \<open>Three windows in a row of memory; the pointer is over the third alone, with the button down.\<close>

definition sample_windows :: mem where
  "sample_windows = (\<lambda>_. 0)(0x1000 + 20 := 1, 0x101C + 20 := 2, 0x1038 + 20 := 3,
     0x1038 := 100, 0x103C := 100, 0x1040 := 10, 0x1044 := 10)"

definition sample_mouse :: mouse_t where
  "sample_mouse = mouse_start\<lparr>mouse_x := 105, mouse_y := 105, mouse_button_states := [1, 0, 0, 0, 0]\<rparr>"

lemma sample_rects:
  "rect_at sample_windows 0x1000 = RECT 0 0 0 0" "rect_at sample_windows 0x101C = RECT 0 0 0 0"
  "rect_at sample_windows 0x1038 = RECT 100 100 10 10"
  by code_simp+

lemma sample_hits: "find (hit sample_windows 0x1000 sample_mouse) [0..<3] = Some 2" "left_down sample_mouse"
    "none_dragged sample_windows 0x1000 3"
proof -
  have "[0..<3::nat] = [0, 1, 2]" by (simp add: upt_rec)
  then show "find (hit sample_windows 0x1000 sample_mouse) [0..<3] = Some 2"
    by (simp add: hit_def ws_bounds_def rect_contains_def sizeof_win_def sample_rects RECT_def sample_mouse_def)
  show "left_down sample_mouse"
    by (simp add: left_down_def sample_mouse_def MS_BTN_LEFT_def MS_BTN_1_def)
  show "none_dragged sample_windows 0x1000 3"
  proof -
    have "win_dragged (win_at sample_windows a) = 0" if "a = 0x1000 \<or> a = 0x101C \<or> a = 0x1038" for a
      using that by (auto simp: win_at_def sample_windows_def)
    moreover have "k = 0 \<or> k = 1 \<or> k = 2" if "k < 3" for k :: nat using that by linarith
    ultimately show ?thesis unfolding none_dragged_def by (fastforce simp: sizeof_win_def)
  qed
qed

theorem ws_pick_raises_topmost_witness:
  "\<exists>m'. ws_pick 0x1000 3 \<lparr>ws_drag_x = 0, ws_drag_y = 0, ws_drag_wx = 0, ws_drag_wy = 0, ws_focus = 0\<rparr>
      sample_mouse 0 sample_windows = (0, m') \<and>
    load_bytes m' (win_addr 0x1000 0) 28 = load_bytes sample_windows (win_addr 0x1000 2) 28 \<and>
    load_bytes m' (win_addr 0x1000 1) 28 = load_bytes sample_windows (win_addr 0x1000 0) 28 \<and>
    load_bytes m' (win_addr 0x1000 2) 28 = load_bytes sample_windows (win_addr 0x1000 0) 28"
proof -
  let ?ws = "\<lparr>ws_drag_x = 0, ws_drag_y = 0, ws_drag_wx = 0, ws_drag_wy = 0, ws_focus = 0\<rparr> :: ws_t"
  obtain focus m' where p: "ws_pick 0x1000 3 ?ws sample_mouse 0 sample_windows = (focus, m')" by (metis surj_pair)
  have n: "unat (3 :: usz) = 3" by simp
  have "none_dragged sample_windows 0x1000 (unat (3 :: usz))" "(3 :: usz) \<le> 16"
    using sample_hits(3) by (simp_all add: n)
  from ws_pick_raises_topmost [OF this p] have "focus = 0 \<and> (\<forall>j<16. win_bytes m' 0x1000 j =
      win_bytes sample_windows 0x1000 (if j = 0 then of_nat 2 else if j \<le> of_nat 2 then 0 else j))"
    using sample_hits(1,2) unfolding n by (simp only: option.case if_True simp_thms) blast
  then have f: "focus = 0" and w: "\<And>j. j < 16 \<Longrightarrow> win_bytes m' 0x1000 j =
      win_bytes sample_windows 0x1000 (if j = 0 then of_nat 2 else if j \<le> of_nat 2 then 0 else j)" by blast+
  from w [of 0] w [of 1] w [of 2] have "win_bytes m' 0x1000 0 = win_bytes sample_windows 0x1000 2"
    "win_bytes m' 0x1000 1 = win_bytes sample_windows 0x1000 0" "win_bytes m' 0x1000 2 = win_bytes sample_windows 0x1000 0"
    by simp_all
  with p f show ?thesis by blast
qed

section \<open>The cursor\<close>

text \<open>
  The image of the pointer that \<^verbatim>\<open>ws_frame\<close> blends into the frame: the outline \<open>B\<close>, the inside \<open>W\<close> and nothing;
  the elements that the initialiser leaves out are zero.
\<close>

definition cursor_px :: "u32 list list" where
  "cursor_px = (let B = 0xFFFFFFFF; W = 0xFF000000; N = 0x00000000 in
      [[B, N, N, N, N, N, N, N, N, N, N, N, N],
       [B, B, N, N, N, N, N, N, N, N, N, N, N],
       [B, W, B, N, N, N, N, N, N, N, N, N, N],
       [B, W, W, B, N, N, N, N, N, N, N, N, N],
       [B, W, W, W, B, N, N, N, N, N, N, N, N],
       [B, W, W, W, W, B, N, N, N, N, N, N, N],
       [B, W, W, W, W, W, B, N, N, N, N, N, N],
       [B, W, W, W, W, W, W, B, N, N, N, N, N],
       [B, W, W, W, W, W, W, W, B, N, N, N, N],
       [B, W, W, W, W, W, W, W, W, B, N, N, N],
       [B, W, W, W, W, W, W, W, W, W, B, N, N],
       [B, W, W, W, W, W, W, W, W, W, W, B, N],
       [B, W, W, W, W, W, W, B, B, B, B, B, B],
       [B, W, W, W, W, W, W, B, N, N, N, N, N],
       [B, W, W, B, B, W, W, W, B, N, N, N, N],
       [B, W, B, N, B, W, W, W, B, N, N, N, N],
       [B, B, N, N, N, B, W, W, W, B, N, N, N],
       [B, N, N, N, N, B, W, W, W, B, N, N, N],
       [N, N, N, N, N, N, B, B, B, N, N, N, N],
       [N, N, N, N, N, N, N, N, N, N, N, N, N],
       [N, N, N, N, N, N, N, N, N, N, N, N, N],
       [N, N, N, N, N, N, N, N, N, N, N, N, N],
       [N, N, N, N, N, N, N, N, N, N, N, N, N],
       [N, N, N, N, N, N, N, N, N, N, N, N, N]])"

lemma cursor_shape: "length cursor_px = 24" "\<forall>row \<in> set cursor_px. length row = 13"
  by (simp_all add: cursor_px_def Let_def)

lemma cursor_opaque: "\<forall>row \<in> set cursor_px. set row \<subseteq> {0xFFFFFFFF, 0xFF000000, 0}"
  by (simp add: cursor_px_def Let_def)

text \<open>The blending is exact for the cursor: every pixel of it keeps or replaces the colour below.\<close>

lemma cursor_blends:
  assumes "row \<in> set cursor_px" and "clr \<in> set row"
  shows "blend_pixel clr vram = vram \<or> take_bit 24 (blend_pixel clr vram) = take_bit 24 clr"
proof -
  have "drop_bit 24 (0xFFFFFFFF :: u32) = 255" "drop_bit 24 (0xFF000000 :: u32) = 255" by simp_all
  moreover from cursor_opaque assms have "clr \<in> {0xFFFFFFFF, 0xFF000000, 0}" by blast
  ultimately show ?thesis using blend_opaque [of clr vram] by auto
qed

end
