(* ===== verification/Layout.thy ===== *)
theory Layout
  imports Stage2_Ide Acpi Kernel Psf Wserver
begin

text \<open>
  The structures that the code lays over memory, as its headers declare them: \<^verbatim>\<open>acpi.h\<close>, \<^verbatim>\<open>elf.h\<close>,
  \<^verbatim>\<open>memmap.h\<close>, \<^verbatim>\<open>vbe.h\<close>, \<^verbatim>\<open>psf.h\<close>, \<^verbatim>\<open>pci.h\<close>, \<^verbatim>\<open>dfs.h\<close>, \<^verbatim>\<open>gdt.h\<close>, the drive table of \<^verbatim>\<open>stage2/ide.h\<close> and the
  structures of \<^verbatim>\<open>kernel.c\<close>, with the rules by which the compiler places their members on i386.

  The other theories read these structures with loads at fixed offsets.  The lemmas show that the members
  of a structure lie inside it, one behind the other, and check that every offset and size in use is the one
  that the declaration gives.
\<close>

section \<open>Types and their layout\<close>

datatype ctype = U8 | U16 | U32 | U64 | Ptr | Arr ctype nat | Struct bool "(string \<times> ctype) list"

text \<open>
  On i386 a 64-bit integer is aligned to four bytes.  A packed structure has no alignment and no padding; in
  any other a member starts at a multiple of its alignment and the size is a multiple of the largest one.
\<close>

fun align_of :: "ctype \<Rightarrow> nat" and align_members :: "(string \<times> ctype) list \<Rightarrow> nat" where
  "align_of U8 = 1"
| "align_of U16 = 2"
| "align_of U32 = 4"
| "align_of U64 = 4"
| "align_of Ptr = 4"
| "align_of (Arr t n) = align_of t"
| "align_of (Struct packed ms) = (if packed then 1 else align_members ms)"
| "align_members [] = 1"
| "align_members ((f, t) # ms) = max (align_of t) (align_members ms)"

definition round_up :: "nat \<Rightarrow> nat \<Rightarrow> nat" where
  "round_up a n = (n + a - 1) div a * a"

definition place_at :: "bool \<Rightarrow> ctype \<Rightarrow> nat \<Rightarrow> nat" where
  "place_at packed t n = (if packed then n else round_up (align_of t) n)"

fun size_of :: "ctype \<Rightarrow> nat" and end_of :: "bool \<Rightarrow> nat \<Rightarrow> (string \<times> ctype) list \<Rightarrow> nat" where
  "size_of U8 = 1"
| "size_of U16 = 2"
| "size_of U32 = 4"
| "size_of U64 = 8"
| "size_of Ptr = 4"
| "size_of (Arr t n) = n * size_of t"
| "size_of (Struct packed ms) =
     (if packed then end_of packed 0 ms else round_up (align_members ms) (end_of packed 0 ms))"
| "end_of packed n [] = n"
| "end_of packed n ((f, t) # ms) = end_of packed (place_at packed t n + size_of t) ms"

text \<open>The offset and the type of a member, and of a member of a member.\<close>

fun locate :: "bool \<Rightarrow> nat \<Rightarrow> (string \<times> ctype) list \<Rightarrow> string \<Rightarrow> (nat \<times> ctype) option" where
  "locate packed n [] g = None"
| "locate packed n ((f, t) # ms) g =
     (let k = place_at packed t n in if f = g then Some (k, t) else locate packed (k + size_of t) ms g)"

fun locate_path :: "ctype \<Rightarrow> string list \<Rightarrow> (nat \<times> ctype) option" where
  "locate_path t [] = Some (0, t)"
| "locate_path (Struct packed ms) (f # fs) =
     do { (k, t) \<leftarrow> locate packed 0 ms f; (k', t') \<leftarrow> locate_path t fs; Some (k + k', t') }"
| "locate_path t (f # fs) = None"

definition offset_of :: "ctype \<Rightarrow> string list \<Rightarrow> nat" where
  "offset_of t path = (case locate_path t path of Some (k, _) \<Rightarrow> k | None \<Rightarrow> 0)"

text \<open>The values of the scalar members, in the order of the declaration; arrays are left out.\<close>

fun scalars :: "ctype \<Rightarrow> mem \<Rightarrow> addr \<Rightarrow> nat list"
  and member_scalars :: "bool \<Rightarrow> nat \<Rightarrow> (string \<times> ctype) list \<Rightarrow> mem \<Rightarrow> addr \<Rightarrow> nat list" where
  "scalars U8 m a = [unat (m a)]"
| "scalars U16 m a = [unat (load16 m a)]"
| "scalars U32 m a = [unat (load32 m a)]"
| "scalars U64 m a = [unat (load64 m a)]"
| "scalars Ptr m a = [unat (load32 m a)]"
| "scalars (Arr t n) m a = []"
| "scalars (Struct packed ms) m a = member_scalars packed 0 ms m a"
| "member_scalars packed n [] m a = []"
| "member_scalars packed n ((f, t) # ms) m a =
     (let k = place_at packed t n in scalars t m (a + of_nat k) @ member_scalars packed (k + size_of t) ms m a)"

section \<open>The structures\<close>

definition acpi_sdt_header_layout :: ctype where
  "acpi_sdt_header_layout = Struct False [
    (''signature'', Arr U8 4), (''len'', U32), (''rev'', U8), (''checksum'', U8), (''oem'', Arr U8 6),
    (''oem_table_id'', Arr U8 8), (''oem_rev'', U32), (''creator_id'', U32), (''creator_rev'', U32)]"

definition acpi_rsdp_layout :: ctype where
  "acpi_rsdp_layout = Struct False [
    (''signature'', Arr U8 8), (''checksum'', U8), (''oem'', Arr U8 6), (''rev'', U8), (''rsdt_addr'', U32)]"

definition acpi_rsdp2_layout :: ctype where
  "acpi_rsdp2_layout = Struct False [
    (''r1'', acpi_rsdp_layout), (''len'', U32), (''xsdt_addr'', U64), (''ext_checksum'', U8),
    (''reserved'', Arr U8 3)]"

definition acpi_rsdt_layout :: ctype where
  "acpi_rsdt_layout = Struct False [
    (''header'', acpi_sdt_header_layout), (''sdt_addr_table'', Arr U32 0)]"

definition acpi_madt_layout :: ctype where
  "acpi_madt_layout = Struct False [
    (''header'', acpi_sdt_header_layout), (''lapic_addr'', U32), (''flags'', U32), (''intr_devs'', Arr U8 0)]"

definition acpi_gas_layout :: ctype where
  "acpi_gas_layout = Struct True [
    (''addr_space'', U8), (''bit_width'', U8), (''bit_offs'', U8), (''access_size'', U8), (''access'', U64)]"

definition acpi_fadt_layout :: ctype where
  "acpi_fadt_layout = Struct True [
    (''header'', acpi_sdt_header_layout), (''firmware_ctrl'', U32), (''dsdt'', U32), (''reserved'', U8),
    (''pref_power_management_prof'', U8), (''sci_intr'', U16), (''smi_cmd_port'', U32), (''acpi_enable'', U8),
    (''acpi_disable'', U8), (''s4bios_req'', U8), (''pstate_ctrl'', U8), (''pm1a_evnt_block'', U32),
    (''pm1b_evnt_block'', U32), (''pm1a_ctrl_block'', U32), (''pm1b_ctrl_block'', U32), (''pm2_ctrl_block'', U32),
    (''pm_timer_block'', U32), (''gpe0_block'', U32), (''gpe1_block'', U32), (''pm1_evnt_len'', U8),
    (''pm1_ctrl_len'', U8), (''pm2_ctrl_len'', U8), (''pm_timer_len'', U8), (''gpe0_len'', U8), (''gpe1_len'', U8),
    (''gpe1_base'', U8), (''cstate_ctrl'', U8), (''worst_c2_latency'', U16), (''worst_c3_latency'', U16),
    (''flush_size'', U16), (''flush_stride'', U16), (''duty_offs'', U8), (''duty_width'', U8), (''day_alarm'', U8),
    (''month_alarm'', U8), (''century'', U8), (''boot_arch_flags'', U16), (''reserved2'', U8), (''flags'', U32),
    (''reset_reg'', acpi_gas_layout), (''reset_val'', U8), (''reserved3'', Arr U8 3), (''x_firmware_ctrl'', U64),
    (''x_dsdt'', U64), (''x_pm1a_evnt_block'', acpi_gas_layout), (''x_pm1b_evnt_block'', acpi_gas_layout),
    (''x_pm1a_ctrl_block'', acpi_gas_layout), (''x_pm1b_ctrl_block'', acpi_gas_layout),
    (''x_pm2_ctrl_block'', acpi_gas_layout), (''x_pm_timer_block'', acpi_gas_layout),
    (''x_gpe0_block'', acpi_gas_layout), (''x_gpe1_block'', acpi_gas_layout)]"

definition elf32_fh_layout :: ctype where
  "elf32_fh_layout = Struct True [
    (''magic'', Arr U8 4), (''class'', U8), (''encoding'', U8), (''header_version'', U8), (''osabi'', U8),
    (''pad'', Arr U8 8), (''obj_type'', U16), (''arch'', U16), (''version'', U32), (''entry'', U32),
    (''ph_offset'', U32), (''sh_offset'', U32), (''cpu_flags'', U32), (''fh_size'', U16), (''ph_size'', U16),
    (''ph_count'', U16), (''sh_size'', U16), (''sh_count'', U16), (''sh_strtab_index'', U16)]"

definition elf32_ph_layout :: ctype where
  "elf32_ph_layout = Struct True [
    (''type'', U32), (''offset'', U32), (''vaddr'', U32), (''paddr'', U32), (''file_size'', U32),
    (''mem_size'', U32), (''flags'', U32), (''alignment'', U32)]"

definition elf32_sh_layout :: ctype where
  "elf32_sh_layout = Struct True [
    (''name_stab_offs'', U32), (''type'', U32), (''flags'', U32), (''addr'', U32), (''offset'', U32),
    (''size'', U32), (''link'', U32), (''info'', U32), (''addr_align'', U32), (''ent_size'', U32)]"

definition elf32_sym_layout :: ctype where
  "elf32_sym_layout = Struct False [
    (''name_stab_offs'', U32), (''value'', U32), (''size'', U32), (''info'', U8), (''other'', U8),
    (''section'', U16)]"

definition elf64_fh_layout :: ctype where
  "elf64_fh_layout = Struct True [
    (''magic'', Arr U8 4), (''class'', U8), (''encoding'', U8), (''header_version'', U8), (''osabi'', U8),
    (''pad'', Arr U8 8), (''obj_type'', U16), (''arch'', U16), (''version'', U32), (''entry'', U64),
    (''ph_offset'', U64), (''sh_offset'', U64), (''cpu_flags'', U32), (''fh_size'', U16), (''ph_size'', U16),
    (''ph_count'', U16), (''sh_size'', U16), (''sh_count'', U16), (''sh_strtab_index'', U16)]"

definition elf64_ph_layout :: ctype where
  "elf64_ph_layout = Struct True [
    (''type'', U32), (''flags'', U32), (''offset'', U64), (''vaddr'', U64), (''paddr'', U64), (''file_size'', U64),
    (''mem_size'', U64), (''alignment'', U64)]"

definition elf64_sh_layout :: ctype where
  "elf64_sh_layout = Struct True [
    (''name_stab_offs'', U32), (''type'', U32), (''flags'', U64), (''addr'', U64), (''offset'', U64),
    (''size'', U64), (''link'', U32), (''info'', U32), (''addr_align'', U64), (''ent_size'', U64)]"

definition elf64_sym_layout :: ctype where
  "elf64_sym_layout = Struct True [
    (''name_stab_offs'', U32), (''info'', U8), (''other'', U8), (''section'', U16), (''value'', U64),
    (''size'', U64)]"

definition memmap_layout :: ctype where
  "memmap_layout = Struct True [
    (''base'', U64), (''len'', U64), (''type'', U32), (''attribs'', U32)]"

definition vbe_mib_layout :: ctype where
  "vbe_mib_layout = Struct False [
    (''mode_attribs'', U16), (''win_a_attribs'', U8), (''win_b_attribs'', U8), (''win_granularity'', U16),
    (''win_size'', U16), (''win_a_seg'', U16), (''win_b_seg'', U16), (''win_func_ptr'', U32),
    (''scan_line_bytes'', U16), (''x_resolution'', U16), (''y_resolution'', U16), (''x_char_size'', U8),
    (''y_char_size'', U8), (''plane_count'', U8), (''bits_per_px'', U8), (''bank_count'', U8), (''mem_model'', U8),
    (''bank_size'', U8), (''img_page_count'', U8), (''reserved0'', U8), (''r_mask_size'', U8),
    (''r_field_pos'', U8), (''g_mask_size'', U8), (''g_field_pos'', U8), (''b_mask_size'', U8),
    (''b_field_pos'', U8), (''resrv_mask_size'', U8), (''resrv_field_pos'', U8), (''dc_mode_info'', U8),
    (''phys_base_addr'', U32), (''reserved1'', U32), (''reserved2'', U16)]"

definition vbe_infb_layout :: ctype where
  "vbe_infb_layout = Struct False [
    (''signature'', Arr U8 4), (''version'', U16), (''oem'', U32), (''capabilities'', Arr U8 4),
    (''mode_ptr'', U32), (''total_vmem'', U16)]"

definition psf1_header_layout :: ctype where
  "psf1_header_layout = Struct False [
    (''magic'', U16), (''mode'', U8), (''height'', U8)]"

definition psf2_header_layout :: ctype where
  "psf2_header_layout = Struct False [
    (''magic'', U32), (''version'', U32), (''header_size'', U32), (''flags'', U32), (''glyph_count'', U32),
    (''glyph_bytes'', U32), (''height'', U32), (''width'', U32)]"

definition pci_dev_layout :: ctype where
  "pci_dev_layout = Struct False [
    (''bus'', U8), (''dev'', U8), (''func'', U8), (''class_str'', Ptr), (''reg_data'', Arr U8 68)]"

definition dfs_file_header_layout :: ctype where
  "dfs_file_header_layout = Struct True [
    (''sectors'', U64), (''next_lba'', U64), (''name'', Arr U8 32)]"

definition ide_drive_layout :: ctype where
  "ide_drive_layout = Struct False [
    (''channel'', U8), (''bus'', U8), (''type'', U8), (''name'', Arr U8 41), (''signature'', U16),
    (''capabilities'', U16), (''cmd_sets'', U32), (''size'', U32)]"

definition gdt_layout :: ctype where
  "gdt_layout = Struct True [
    (''limit_low'', U16), (''base_low'', U16), (''base_mid'', U8), (''access'', U8), (''flags'', U8),
    (''base_high'', U8)]"

definition bootinf_layout :: ctype where
  "bootinf_layout = Struct True [
    (''kernel_start'', Ptr), (''kernel_end'', Ptr), (''memmap'', Ptr), (''mib'', Ptr),
    (''memmap_entry_count'', U16), (''boot_drive'', U8)]"

definition rect_layout :: ctype where
  "rect_layout = Struct False [
    (''x'', U32), (''y'', U32), (''w'', U32), (''h'', U32)]"

definition win_layout :: ctype where
  "win_layout = Struct False [
    (''r'', rect_layout), (''px_data'', Ptr), (''title'', Ptr), (''dragged'', U8)]"


section \<open>The rules of layout\<close>

lemma align_of_pos: "0 < align_of t" "0 < align_members ms"
  by (induction t and ms rule: align_of_align_members.induct) auto

lemma round_up_ge: "0 < a \<Longrightarrow> n \<le> round_up a n"
  unfolding round_up_def using div_mult_mod_eq [of "n + a - 1" a] mod_less_divisor [of a "n + a - 1"] by linarith

lemma place_at_ge: "n \<le> place_at packed t n"
  by (simp add: place_at_def round_up_ge align_of_pos)

lemma end_of_ge: "n \<le> end_of packed n ms"
proof (induction ms arbitrary: n)
  case (Cons m ms)
  obtain f t where "m = (f, t)" by (cases m)
  with Cons [of "place_at packed t n + size_of t"] place_at_ge [of n packed t] show ?case by simp
qed simp

lemma locate_within:
  "locate packed n ms f = Some (k, t) \<Longrightarrow> n \<le> k \<and> k + size_of t \<le> end_of packed n ms \<and> (packed \<or> align_of t dvd k)"
proof (induction packed n ms f rule: locate.induct)
  case (2 packed n g u ms f)
  note ge = place_at_ge [of n packed u]
  show ?case
  proof (cases "g = f")
    case True
    with 2(2) have k: "k = place_at packed u n" "t = u" by (auto simp: Let_def)
    then have "packed \<or> align_of t dvd k" by (simp add: place_at_def round_up_def)
    with k ge end_of_ge show ?thesis by simp
  next
    case False
    with 2 ge show ?thesis by (fastforce simp: Let_def)
  qed
qed simp

text \<open>The members lie inside the structure, aligned, and do not overlap.\<close>

lemma locate_apart:
  "locate packed n ms f = Some (k, t) \<Longrightarrow> locate packed n ms g = Some (k', t') \<Longrightarrow> f \<noteq> g \<Longrightarrow>
    k + size_of t \<le> k' \<or> k' + size_of t' \<le> k"
proof (induction packed n ms f rule: locate.induct)
  case (2 packed n h u ms f)
  then show ?case
    using locate_within [of packed "place_at packed u n + size_of u" ms f k t]
      locate_within [of packed "place_at packed u n + size_of u" ms g k' t']
    by (auto simp: Let_def split: if_splits)
qed simp

section \<open>The accesses of the model\<close>

lemmas layout_rules = place_at_def round_up_def Let_def

lemma elf32_fh_follows:
  "(let r = elf32_fh m a in scalars elf32_fh_layout m a =
      [unat (fh_class r), unat (fh_encoding r), unat (fh_header_version r), unat (fh_osabi r),
       unat (fh_obj_type r), unat (fh_arch r), unat (fh_version r), unat (fh_entry r), unat (fh_ph_offset r),
       unat (fh_sh_offset r), unat (fh_cpu_flags r), unat (fh_fh_size r), unat (fh_ph_size r),
       unat (fh_ph_count r), unat (fh_sh_size r), unat (fh_sh_count r), unat (fh_sh_strtab_index r)])"
  by (simp add: elf32_fh_def elf32_fh_layout_def layout_rules add.assoc)

lemma elf32_sh_follows:
  "(let r = elf32_sh m a in scalars elf32_sh_layout m a =
      [unat (sh_name_stab_offs r), unat (sh_type r), unat (sh_flags r), unat (sh_addr r), unat (sh_offs r),
       unat (sh_sz r), unat (sh_link r), unat (sh_info r), unat (sh_addr_align r), unat (sh_ent_size r)])"
  by (simp add: elf32_sh_def elf32_sh_layout_def layout_rules add.assoc)

lemma bootinf_follows:
  "(let r = bootinf m a in scalars bootinf_layout m a =
      [unat (bi_kernel_start r), unat (bi_kernel_end r), unat (bi_memmap r), unat (bi_mib r),
       unat (bi_memmap_entry_count r), unat (bi_boot_drive r)])"
  by (simp add: bootinf_def bootinf_layout_def layout_rules add.assoc)

lemma memmap_follows:
  "(let r = memmap_entry m a in scalars memmap_layout m a =
      [unat (mm_base r), unat (mm_len r), unat (mm_type r), unat (mm_attribs r)])"
  by (simp add: memmap_entry_def memmap_layout_def layout_rules add.assoc)

lemma vbe_mib_follows:
  "(let r = vbe_mib m a in scalars vbe_mib_layout m a =
      [unat (mib_mode_attribs r), unat (mib_win_a_attribs r), unat (mib_win_b_attribs r),
       unat (mib_win_granularity r), unat (mib_win_size r), unat (mib_win_a_seg r), unat (mib_win_b_seg r),
       unat (mib_win_func_ptr r), unat (mib_scan_line_bytes r), unat (mib_x_resolution r),
       unat (mib_y_resolution r), unat (mib_x_char_size r), unat (mib_y_char_size r), unat (mib_plane_count r),
       unat (mib_bits_per_px r), unat (mib_bank_count r), unat (mib_mem_model r), unat (mib_bank_size r),
       unat (mib_img_page_count r), unat (mib_reserved0 r), unat (mib_r_mask_size r), unat (mib_r_field_pos r),
       unat (mib_g_mask_size r), unat (mib_g_field_pos r), unat (mib_b_mask_size r), unat (mib_b_field_pos r),
       unat (mib_resrv_mask_size r), unat (mib_resrv_field_pos r), unat (mib_dc_mode_info r),
       unat (mib_phys_base_addr r), unat (mib_reserved1 r), unat (mib_reserved2 r)])"
  by (simp add: vbe_mib_def vbe_mib_layout_def layout_rules add.assoc)

lemma psf1_follows:
  "(let r = psf1_header m a in scalars psf1_header_layout m a =
      [unat (psf1_magic r), unat (psf1_mode r), unat (psf1_height r)])"
  by (simp add: psf1_header_def psf1_header_layout_def layout_rules add.assoc)

lemma psf2_follows:
  "(let r = psf2_header m a in scalars psf2_header_layout m a =
      [unat (psf2_magic r), unat (psf2_version r), unat (psf2_header_size r), unat (psf2_flags r),
       unat (psf2_glyph_count r), unat (psf2_glyph_bytes r), unat (psf2_height r), unat (psf2_width r)])"
  by (simp add: psf2_header_def psf2_header_layout_def layout_rules add.assoc)

lemma ide_drive_follows:
  "(let r = ide_drive_at m a in scalars ide_drive_layout m a =
      [unat (drv_channel r), unat (drv_bus r), unat (drv_type r), unat (drv_signature r),
       unat (drv_capabilities r), unat (drv_cmd_sets r), unat (drv_size r)])"
  by (simp add: ide_drive_at_def ide_drive_layout_def layout_rules add.assoc)

lemma win_follows:
  "(let r = win_r (win_at m a) in scalars win_layout m a =
      map (\<lambda>f. unat (of_int (f r) :: u32)) [rect_x, rect_y, rect_w, rect_h] @
      [unat (win_px_data (win_at m a)), unat (win_title (win_at m a)), unat (win_dragged (win_at m a))])"
  by (simp add: win_at_def rect_at_def RECT_def win_layout_def rect_layout_def layout_rules add.assoc)

lemma sizes_follow:
  "map size_of [elf32_sh_layout, memmap_layout, ide_drive_layout, win_layout, pci_dev_layout, gdt_layout, acpi_rsdp_layout,
       acpi_rsdp2_layout, acpi_rsdt_layout, acpi_madt_layout] =
     map unat [sizeof_elf32_sh, sizeof_memmap, sizeof_ide_drive, sizeof_win, sizeof_pci_dev, sizeof_gdt, sizeof_rsdp,
       sizeof_rsdp2, sizeof_rsdt, sizeof_madt]"
  by (simp add: layout_rules elf32_sh_layout_def memmap_layout_def ide_drive_layout_def win_layout_def rect_layout_def
    pci_dev_layout_def gdt_layout_def acpi_rsdp_layout_def acpi_rsdp2_layout_def acpi_rsdt_layout_def acpi_madt_layout_def
    acpi_sdt_header_layout_def sizeof_elf32_sh_def sizeof_memmap_def sizeof_ide_drive_def sizeof_win_def pci_fields
    sizeof_gdt_def acpi_offsets)

lemma offsets_follow:
  "map (\<lambda>(t, f). offset_of t [f]) [(acpi_rsdp_layout, ''rev''), (acpi_rsdp_layout, ''rsdt_addr''),
       (acpi_sdt_header_layout, ''len''), (acpi_madt_layout, ''lapic_addr''), (acpi_fadt_layout, ''smi_cmd_port''),
       (acpi_fadt_layout, ''acpi_enable''), (acpi_fadt_layout, ''acpi_disable''), (pci_dev_layout, ''class_str''),
       (pci_dev_layout, ''reg_data'')] =
     map unat [rsdp_rev, rsdp_rsdt_addr, sdt_len, madt_lapic_addr, fadt_smi_cmd_port, fadt_acpi_enable, fadt_acpi_disable,
       pci_class_str, pci_reg_data]"
  by (simp add: layout_rules offset_of_def pci_dev_layout_def acpi_rsdp_layout_def acpi_madt_layout_def acpi_fadt_layout_def
    acpi_sdt_header_layout_def pci_fields acpi_offsets)

text \<open>
  The information block of the VBE BIOS has the \<^verbatim>\<open>oem\<close> pointer right behind the version, at offset 6; without
  \<^verbatim>\<open>PACKED\<close> the compiler moves it and every later member by two bytes.
\<close>

lemma vbe_infb_oem_shifted: "offset_of vbe_infb_layout [''version''] = 4" "offset_of vbe_infb_layout [''oem''] = 8"
  by (simp_all add: layout_rules offset_of_def vbe_infb_layout_def)

end
