(* ===== verification/Spec2Isabelle.thy ===== *)
theory Spec2Isabelle
  imports Align Write_Img Ppm Psf Render Spinlock Terminal Desc_Tables Interrupts Pci Acpi Ide
    Cpuid Stage2 Stage2_Ide Kernel Boot System Wserver Layout
begin

text \<open>
  A verification development of dord-os, a small operating system for 32-bit x86: a boot loader, a kernel
  with its drivers, the library they share, and the tool that writes the disk image.  The definitions are a
  shallow embedding of the C sources, with the few assembly routines they depend on; every function is a
  HOL function on explicit state.

  \<^bold>\<open>Conventions.\<close>  Memory is a function from 32-bit addresses to bytes (\<open>mem\<close> in \<^verbatim>\<open>Prelude\<close>); C integers
  are words of their width, so sums wrap around; where C leaves an overflow undefined (signed arithmetic of
  the rasteriser and the windows) the model computes with integers.  A result of type \<open>option\<close> is
  \<^term>\<open>None\<close> where the code does not return (\<^verbatim>\<open>panic\<close>, a loop that never ends) or leaves an array whose
  contents the model keeps as a list.  Loops with a counter are \<open>for_range\<close> or \<^verbatim>\<open>function\<close>s with a measure;
  loops that wait for hardware, another processor or the end of a list are
  \<^verbatim>\<open>partial_function (option)\<close>, so that returning is a statement to be proved.  There is no fuel.
  Hardware is a record of port and memory accesses over a world of any type (\<open>bus\<close> in \<^verbatim>\<open>Hw\<close>), and a
  property of a driver names what it needs of the device as a hypothesis, which its witness discharges on a
  simulated device.  Local variables whose address is taken, string literals and code addresses are
  parameters.  Debug output is left out except where it is the subject.

  \<^bold>\<open>Library.\<close>  \<^verbatim>\<open>Prelude\<close> holds the types, memory access, loop combinators and their rules;
  \<^verbatim>\<open>Align\<close> \<^verbatim>\<open>libk/align.h\<close>; \<^verbatim>\<open>Libk_Memory\<close> \<^verbatim>\<open>libk/memory.c\<close>; \<^verbatim>\<open>Spinlock\<close> \<^verbatim>\<open>libk/spinlock.c\<close> with its
  interleavings; \<^verbatim>\<open>Io\<close> \<^verbatim>\<open>libk/io.c\<close>, verified against the contract of its callback, the locale
  \<open>receiver\<close>, which a buffer, the serial port and the terminal are instances of; \<^verbatim>\<open>Ppm\<close>, \<^verbatim>\<open>Psf\<close> and \<^verbatim>\<open>Render\<close> the image and font decoders and the
  rasteriser.

  \<^bold>\<open>Kernel.\<close>  \<^verbatim>\<open>Pmman\<close> is the block allocator of \<^verbatim>\<open>kernel/pmman.c\<close>; its contract is the locale
  \<open>block_allocator\<close>, interpreted on the bitmap.  \<^verbatim>\<open>Proc\<close> is the scheduler of \<^verbatim>\<open>kernel/proc.c\<close> on a heap of
  process records, with the context switch of \<^verbatim>\<open>kernel/x86/proc.asm\<close>; the abstract scheduler
  \<open>schedule_spec\<close> works on lists, and \<open>sched_inv\<close> is the invariant that every operation keeps.
  \<^verbatim>\<open>Interrupts\<close> is the dispatch of interrupts over all drivers and the system calls; \<^verbatim>\<open>Desc_Tables\<close> the
  descriptor tables; \<^verbatim>\<open>Cpuid\<close> the processor queries; \<^verbatim>\<open>Kernel\<close> is \<^verbatim>\<open>kernel_enter\<close>, step by step and as a
  whole; \<^verbatim>\<open>Boot\<close> puts the contracts of the devices together into the proof that it reaches its first
  process; \<^verbatim>\<open>System\<close> is the running system, a step relation of interrupts, system calls, operations of the
  scheduler and allocations over the state the start leaves; \<^verbatim>\<open>Wserver\<close> is the window server and its client.

  \<^bold>\<open>Drivers.\<close>  \<^verbatim>\<open>Ps2\<close>, \<^verbatim>\<open>Keyboard\<close>, \<^verbatim>\<open>Mouse\<close>, \<^verbatim>\<open>Terminal\<close>, \<^verbatim>\<open>Pit\<close>, \<^verbatim>\<open>Pic\<close>, \<^verbatim>\<open>Apic\<close>, \<^verbatim>\<open>Acpi\<close>, \<^verbatim>\<open>Pci\<close>,
  \<^verbatim>\<open>Debug_Io\<close> (with the serial port) and \<^verbatim>\<open>Ide\<close> model the files of \<^verbatim>\<open>kernel/drivers\<close> with the same names;
  \<^verbatim>\<open>Dfs\<close> is the file system.  \<^verbatim>\<open>Drive\<close> is the interface between a file system and a drive: its contract,
  the locale \<open>block_drive\<close>, says that a read stores the addressed sectors.  The file system is verified
  against that contract alone; the locale \<open>ide_disk\<close> of \<^verbatim>\<open>Ide\<close> derives it from the ATA protocol
  (\<open>ata_drive\<close>), and both are interpreted on a simulated drive.

  \<^bold>\<open>Boot loader and image.\<close>  \<^verbatim>\<open>Write_Img\<close> is the tool \<^verbatim>\<open>write_img\<close>; \<^verbatim>\<open>Stage2\<close> is the C part of the boot
  loader: the search for the controller and the kernel, and the ELF loader; \<^verbatim>\<open>Stage2_Ide\<close> is its IDE driver
  down to the bytes of the drive table, with the proof that it finds what the driver of the kernel finds.
  \<^verbatim>\<open>Layout\<close> has the declarations of the structures that the code lays over memory and the placement rules of the
  compiler, and checks the offsets in the other theories against them.

  \<^bold>\<open>What is shown.\<close>  This theory closes the chain from the image to the running system: the boot loader
  finds the kernel that \<^verbatim>\<open>write_img\<close> stored and puts every section in its place, and the system call
  \<^verbatim>\<open>SYS_FREAD\<close> returns the files of the image.  The start of the kernel protects the memory it lives in if the blocks
  it counts hold it,
  returns on a legacy machine exactly if there is an IDE controller, and leaves the scheduler in its
  invariant with every process outside of the reserved memory; from there on no sequence of interrupts, operations of the
  scheduler and system calls that store outside of the kernel loses a process, except one whose sleep is over at
  once, or gives away its memory, and no interrupt handler gets stuck, except that of the
  keyboard with a full scan code buffer; allocations are first fit and never overlap.  The drivers are shown to decode, draw and program
  what they should, to return where they wait with a time limit, and to return exactly when the other side
  answers where they do not.  Several properties state precisely where the code falls short: a sleep of zero
  loses the process, the third window is lost when it is raised, a rectangle that sticks out on both sides is cut
  off too early, wide motions of the mouse are misread, records and buffers are overrun.

  \<^bold>\<open>Not modelled.\<close>  The real-mode boot code, the interrupt stubs, the trampoline and the entry code are
  assembly that changes processor modes, for which there is no model here.  \<^verbatim>\<open>hlt\<close> has no effect on the modelled
  state, what a started processor does to its own registers is left out, and so are interrupts that arrive while
  the kernel starts.  The names of the exceptions and the texts that the code prints
  are left out, and the port instructions in \<^verbatim>\<open>stage2/asm.h\<close> are those of the kernel; the result of
  \<^verbatim>\<open>io_vprintf\<close>, which the code never sets, is left out.  The C library calls of \<^verbatim>\<open>write_img\<close> are modelled by
  the bytes they write.
\<close>

section \<open>From the image writer to the running system\<close>

text \<open>A run of \<^verbatim>\<open>write_img\<close> that succeeded and whose last argument is a file, and the image it wrote.\<close>

definition writes_image :: "(string \<Rightarrow> u8 list option) \<Rightarrow> string list \<Rightarrow> u8 list \<Rightarrow> bool" where
  "writes_image fopen args disk \<longleftrightarrow> (\<exists>path. main fopen (\<lambda>_. True) args = (0, Some (path, disk))) \<and>
     args \<noteq> [] \<and> arg_kind (last args) = FileArg \<and> img_sectors (file_list fopen args) < 2 ^ 48"

lemma writes_image_layout:
  assumes "writes_image fopen args disk"
  shows "\<exists>boot. disk = boot @ img_recs 1 (file_list fopen args) @ replicate (2048 * 512) 0 \<and> length boot = 512 \<and>
    file_list fopen args \<noteq> []"
  using main_success [of fopen "\<lambda>_. True" args _ disk] assms by (auto simp: writes_image_def)

text \<open>The file system on a disk that the IDE driver serves.\<close>

context ide_disk
begin

lemma disk_size: "length disk < 2 ^ 62"
  using addressable by simp

lemma written_disk_at:
  assumes "writes_image fopen args disk"
  shows "disk_at disk 1 (file_list fopen args)" "file_list fopen args \<noteq> []"
  using writes_image_layout [OF assms] disk_size by (auto simp: disk_at_def)

lemma fread_written:
  assumes "writes_image fopen args disk" and "ata_data (dev w) = []"
    and "buffers_ok 65536 buf path out_data out_size (file_list fopen args)"
  shows "\<exists>e m' w'. fread (snd (dfs_init (ide_read_drive b s drive) buf)) path out_data out_size (m, w) = Some (e, m', w') \<and>
    lookup_spec m path out_data out_size (file_list fopen args) e m'"
proof -
  from block.dfs_loop_lookup [OF written_disk_at [OF assms(1)] assms(3,2), of m] show ?thesis
    by (auto simp: fread_def dfs_init_def dfs_fread_def)
qed

end

text \<open>
  C2  What \<^verbatim>\<open>write_img\<close> puts into an image is what a program gets back from the system call
  \<^verbatim>\<open>SYS_FREAD\<close>: when the image is on an ATA disk that the IDE driver serves, the call returns, with the size
  and the contents of the first file whose name is the path, or with \<^verbatim>\<open>ERR_NOTFOUND\<close> when the image has no
  such file; the scheduler and the drivers are left alone.
\<close>

theorem image_files_readable:
  assumes "writes_image fopen args disk" and "ide_disk b base ctrl bus dev disk s drive"
    and "ata_data (dev (k_world k)) = []" and "buffers_ok 65536 buf path out_data out_size (file_list fopen args)"
  shows "\<exists>e m' w'. sys_handler b (snd (dfs_init (ide_read_drive b s drive) buf))
      (syscall SYS_FREAD path out_data out_size) k m = Some (e, k\<lparr>k_world := w'\<rparr>, m') \<and>
    lookup_spec m path out_data out_size (file_list fopen args) e m'"
proof -
  from ide_disk.fread_written [OF assms(2,1,3,4), of m] show ?thesis
    by (auto simp: sys_handler_def syscall_def sys_consts)
qed

text \<open>An image with two files on the simulated drive.\<close>

abbreviation sample_args :: "string list" where
  "sample_args \<equiv> [''-oimg'', ''d/kernel.elf'', ''font'']"

lemma sample_file_list: "file_list sample_files sample_args = [(map of_char ''kernel.elf'', [1, 2, 3]), (map of_char ''font'', [4])]"
  by (simp add: sample_files_simps)

definition image_of :: "(u8 list \<times> u8 list) list \<Rightarrow> u8 list" where
  "image_of fs = replicate 512 0 @ img_recs 1 fs @ replicate (2048 * 512) 0"

lemma writes_image_of:
  assumes "parse_args args None None = Some (None, of_path)" and "files_ok fopen args"
    and "args \<noteq> []" and "arg_kind (last args) = FileArg" and "img_sectors (file_list fopen args) < 2 ^ 48"
  shows "writes_image fopen args (image_of (file_list fopen args))"
proof -
  have "boot_sector fopen None = Some (replicate 512 0)" by (simp add: boot_sector_def)
  then have "main fopen (\<lambda>_. True) args = (0, Some (case_option ''out.img'' id of_path, image_of (file_list fopen args)))"
    using main_image [of args None of_path "\<lambda>_. True" fopen "replicate 512 0"] assms unfolding image_of_def by simp
  then show ?thesis using assms(3-5) unfolding writes_image_def by blast
qed

lemma image_of_addressable: "img_sectors fs < 65536 \<Longrightarrow> ata_image (image_of fs) = image_of fs"
  unfolding ata_image_def image_of_def
  by (rule take_all) (simp only: length_append length_img_recs length_replicate, simp)

lemma image_of_disk:
  assumes "img_sectors fs < 65536"
  shows "ide_disk (ata_bus (image_of fs)) 0x1F0 0x3F6 0 id (image_of fs) sim_ide sim_drive"
  using sim.ide_disk_axioms [of "image_of fs"] unfolding image_of_addressable [OF assms] .

abbreviation sample_disk :: "u8 list" where
  "sample_disk \<equiv> image_of (file_list sample_files sample_args)"

lemma sample_img_sectors: "img_sectors (file_list sample_files sample_args) = 4"
  unfolding sample_file_list by (simp add: file_sectors_def)

lemma sample_written: "writes_image sample_files sample_args sample_disk"
  by (rule writes_image_of [of _ "Some ''img''"], unfold sample_img_sectors) (simp_all add: sample_files_simps)

lemmas sample_ide_disk = image_of_disk [of "file_list sample_files sample_args", unfolded sample_img_sectors, simplified]

lemma sample_buffers_ok: "buffers_ok 65536 0x1000 0x8000 0x100 0x800 (file_list sample_files sample_args)"
  unfolding sample_file_list
  using sample_buffers [of "[1, 2, 3]"] sample_buffers [of "[4]"] by (simp add: buffers_ok_def)

definition ata_kernel :: "ata_dev kernel" where
  "ata_kernel = \<lparr>k_sched = sample_sched, k_kb = kb_init, k_mouse = mouse_start,
     k_apic = \<lparr>lapic_base = 0, ioapic_base = 0\<rparr>, k_world = ata_idle\<rparr>"

theorem image_files_readable_witness:
  "\<exists>m' w'. sys_handler (ata_bus sample_disk) (snd (dfs_init (ide_read_drive (ata_bus sample_disk) sim_ide sim_drive) 0x1000))
      (syscall SYS_FREAD 0x8000 0x100 0x800) ata_kernel sample_path_mem = Some (OK, ata_kernel\<lparr>k_world := w'\<rparr>, m') \<and>
    load_bytes m' 0x100 512 = 4 # replicate 511 0"
proof -
  have idle: "ata_data (id (k_world ata_kernel)) = []" by (simp add: ata_kernel_def ata_idle_def)
  from image_files_readable [OF sample_written sample_ide_disk idle sample_buffers_ok, of sample_path_mem]
  obtain e m' w' where run: "sys_handler (ata_bus sample_disk) (snd (dfs_init (ide_read_drive (ata_bus sample_disk) sim_ide sim_drive) 0x1000))
      (syscall SYS_FREAD 0x8000 0x100 0x800) ata_kernel sample_path_mem = Some (e, ata_kernel\<lparr>k_world := w'\<rparr>, m')"
    and l: "lookup_spec sample_path_mem 0x8000 0x100 0x800 (file_list sample_files sample_args) e m'" by blast
  have p: "path_name sample_path_mem 0x8000 = map of_char ''font''"
    by (rule path_name_string) (simp_all add: sample_path_mem_def)
  have s: "stored_name (map of_char ''kernel.elf'') = map of_char ''kernel.elf''" "stored_name (map of_char ''font'') = map of_char ''font''"
    by (rule stored_name_short; simp)+
  have f: "find (\<lambda>(name, data). stored_name name = path_name sample_path_mem 0x8000) (file_list sample_files sample_args) =
      Some (map of_char ''font'', [4])"
    unfolding sample_file_list p by (simp only: find.simps prod.case s) simp
  have d: "file_sectors [4] = 1" "padded [4] = 4 # replicate 511 0"
    by (simp_all add: file_sectors_def padded_def)
  from l have "e = OK \<and> load_bytes m' 0x100 512 = 4 # replicate 511 0"
    unfolding lookup_spec_def f file_read_def by (simp add: d)
  with run show ?thesis by blast
qed

section \<open>From the image to the kernel\<close>

text \<open>The memory with a file where the boot loader puts it.\<close>

definition elf_mem :: "u8 list \<Rightarrow> mem" where
  "elf_mem data = store_bytes (\<lambda>_. 0) TMP_ELF_ADDR (padded data)"

lemma elf_mem_agree:
  assumes "n \<le> length data" and "file_sectors data < 65536"
  shows "agree (elf_mem data) (store_bytes m TMP_ELF_ADDR (padded data)) TMP_ELF_ADDR n"
proof -
  have "length (padded data) \<le> 2 ^ 32" "n \<le> length (padded data)" "n < 2 ^ 32"
    using assms by (simp_all add: padded_def file_sectors_def)
  then show ?thesis by (auto simp: agree_def elf_mem_def store_bytes_apply unat_of_nat_small)
qed

text \<open>
  C1  The boot loader starts the kernel that \<^verbatim>\<open>write_img\<close> put into the image: when the first file named
  \<^verbatim>\<open>kernel.bin\<close> is an ELF file, its search through the files of the disk ends with the entry point of
  that file, and every section that the file wants loaded is in its place, cleared if it has no contents.
\<close>

theorem image_boots:
  assumes "writes_image fopen args disk" and "ide_disk b base ctrl bus dev disk s drive" and "ata_data (dev w) = []"
    and "bytes_at m (lits ''kernel.bin'') (map of_char ''kernel.bin'' @ [0])" and "away buf 512 (lits ''kernel.bin'') 32"
    and "\<forall>(name, data) \<in> set (file_list fopen args). file_sectors data < 65536"
    and "find (\<lambda>(name, data). stored_name name = map of_char ''kernel.bin'') (file_list fopen args) = Some (name, data)"
    and "elf_file (elf_mem data) TMP_ELF_ADDR n" and "n \<le> length data"
    and "no_overlap (elf_sections (elf_mem data) TMP_ELF_ADDR)" and "away magic 4 TMP_ELF_ADDR n"
  shows "\<exists>klow khigh m' w'. stage2_chain b lits magic buf s drive 1 (m, w) =
      Some (Some (fh_entry (elf32_fh (elf_mem data) TMP_ELF_ADDR), klow, khigh), m', w') \<and>
    (\<forall>sh \<in> set (elf_sections (elf_mem data) TMP_ELF_ADDR). sh_loaded sh \<longrightarrow>
       load_bytes m' (sh_addr sh) (unat (sh_sz sh)) = section_bytes (elf_mem data) TMP_ELF_ADDR sh)"
proof -
  have "path_name m (lits ''kernel.bin'') = map of_char ''kernel.bin''"
    by (rule path_name_string [OF assms(4)]) simp_all
  from ide_disk.stage2_chain_finds [where lits = lits and m = m and dev = dev and w = w, OF assms(2) ide_disk.written_disk_at(1) [OF assms(2,1)] assms(5,3,6)
      assms(7) [folded this], of magic] obtain m1 w' where
    run: "stage2_chain b lits magic buf s drive 1 (m, w) =
      do { (entry, klow, khigh, m2) \<leftarrow> load_elf_kernel magic TMP_ELF_ADDR (store_bytes m1 TMP_ELF_ADDR (padded data));
           Some (Some (entry, klow, khigh), m2, w') }" by auto
  have "(name, data) \<in> set (file_list fopen args)" using assms(7) unfolding find_Some_iff by (metis nth_mem)
  then have fs: "file_sectors data < 65536" using assms(6) by blast
  note ag = elf_file_agree [OF elf_mem_agree [OF assms(9) fs, of m1] assms(8)]
  let ?mem = "store_bytes m1 TMP_ELF_ADDR (padded data)"
  from assms(10) have "no_overlap (elf_sections ?mem TMP_ELF_ADDR)" unfolding ag(2) .
  from load_elf_result [OF ag(3) this assms(11)] obtain klow khigh m' where
    l: "load_elf_kernel magic TMP_ELF_ADDR ?mem = Some (fh_entry (elf32_fh (elf_mem data) TMP_ELF_ADDR), klow, khigh, m')"
    and secs: "\<forall>sh \<in> set (elf_sections (elf_mem data) TMP_ELF_ADDR). sh_loaded sh \<longrightarrow>
       load_bytes m' (sh_addr sh) (unat (sh_sz sh)) = section_bytes ?mem TMP_ELF_ADDR sh"
    unfolding ag(1,2) by blast
  have "load_bytes m' (sh_addr sh) (unat (sh_sz sh)) = section_bytes (elf_mem data) TMP_ELF_ADDR sh"
    if "sh \<in> set (elf_sections (elf_mem data) TMP_ELF_ADDR)" "sh_loaded sh" for sh
    using secs ag(4) [OF that] that by simp
  with l show ?thesis by (simp add: run)
qed

text \<open>An image that holds the sample kernel.\<close>

definition boot_files :: "string \<Rightarrow> u8 list option" where
  "boot_files p = (if p = ''kernel.bin'' then Some sample_elf else None)"

lemma length_sample_elf: "length sample_elf = 96"
  by (simp add: sample_elf_def)

lemma boot_file_list: "file_list boot_files [''kernel.bin''] = [(map of_char ''kernel.bin'', sample_elf)]"
  by (simp add: file_list_def boot_files_def arg_kind_def basename_def)

lemma boot_sectors: "file_sectors sample_elf = 1"
  by (simp add: file_sectors_def length_sample_elf)

lemma boot_written: "writes_image boot_files [''kernel.bin''] (image_of [(map of_char ''kernel.bin'', sample_elf)])"
  using writes_image_of [of "[''kernel.bin'']" None boot_files] unfolding boot_file_list
  by (simp add: arg_kind_def files_ok_def boot_files_def length_sample_elf boot_sectors)

lemma sample_elf_agree: "agree sample_elf_mem (elf_mem sample_elf) 0x200000 96"
proof -
  have "elf_mem sample_elf (0x200000 + of_nat k) = sample_elf_mem (0x200000 + of_nat k)" if "k < 96" for k
  proof -
    have "unat (of_nat k :: addr) = k" using that by (intro unat_of_nat_small) simp
    then show ?thesis using that
      by (simp add: elf_mem_def TMP_ELF_ADDR_def store_bytes_apply sample_elf_mem_def padded_def nth_append length_sample_elf boot_sectors)
  qed
  then show ?thesis by (simp add: agree_def)
qed

definition boot_mem :: mem where
  "boot_mem = store_bytes (\<lambda>_. 0) 0x8000 (map of_char ''kernel.bin'')"

theorem image_boots_witness:
  "\<exists>klow khigh m' w'. stage2_chain (ata_bus (image_of [(map of_char ''kernel.bin'', sample_elf)])) (\<lambda>_. 0x8000) 0x7000 0x1000
      sim_ide sim_drive 1 (boot_mem, ata_idle) = Some (Some (0x100000, klow, khigh), m', w') \<and>
    load_bytes m' 0x100000 4 = [1, 2, 3, 4]"
proof -
  let ?fs = "[(map of_char ''kernel.bin'', sample_elf)] :: (u8 list \<times> u8 list) list"
  have d: "ide_disk (ata_bus (image_of ?fs)) 0x1F0 0x3F6 0 id (image_of ?fs) sim_ide sim_drive"
    by (rule image_of_disk) (simp add: boot_sectors)
  have idle: "ata_data (id ata_idle) = []" by (simp add: ata_idle_def)
  have path: "bytes_at boot_mem 0x8000 (map of_char ''kernel.bin'' @ [0])" by (simp add: boot_mem_def)
  have "unat (0x7000 + of_nat i :: addr) = 0x7000 + i" if "i < 32" for i
    using that by (simp add: unat_word_ariths unat_of_nat)
  then have buf: "away 0x1000 512 0x8000 32" by (auto simp: away_def)
  have s: "stored_name (map of_char ''kernel.bin'') = map of_char ''kernel.bin''" by (rule stored_name_short) simp_all
  have find: "find (\<lambda>(name, data). stored_name name = map of_char ''kernel.bin'') (file_list boot_files [''kernel.bin'']) =
      Some (map of_char ''kernel.bin'', sample_elf)"
    unfolding boot_file_list by (simp only: find.simps prod.case s simp_thms if_True)
  have small: "\<forall>(name, data) \<in> set (file_list boot_files [''kernel.bin'']). file_sectors data < 65536"
    unfolding boot_file_list by (simp add: boot_sectors)
  note e = elf_file_agree [OF sample_elf_agree sample_elf_file(1)]
  have elf: "elf_file (elf_mem sample_elf) TMP_ELF_ADDR 96" "no_overlap (elf_sections (elf_mem sample_elf) TMP_ELF_ADDR)"
    "away 0x7000 4 TMP_ELF_ADDR 96"
    using e(2,3) sample_elf_file(2) sample_away(2) by (simp_all add: TMP_ELF_ADDR_def)
  have l: "96 \<le> length sample_elf" by (simp add: length_sample_elf)
  have sec: "sample_section \<in> set (elf_sections sample_elf_mem 0x200000)" by (simp add: sample_elf_sections)
  from image_boots [where m = boot_mem and lits = "\<lambda>_. 0x8000" and dev = id and w = ata_idle,
      OF boot_written d idle path buf small find elf(1) l elf(2,3)]
  show ?thesis using sec e(4) [OF sec sample_section_loads(1)] sample_section_loads
    unfolding TMP_ELF_ADDR_def e(1,2) sample_elf_fields(1) by fastforce
qed

end
